(* ===== verification/Maverick_Prelude.thy ===== *)
theory Maverick_Prelude
  imports Main "HOL-Library.Word" "HOL-Library.Monad_Syntax"
begin

text \<open>
  Shared ground of the development: the machine types of the kernel, the way a call that does
  not return is represented, the kernel allocator as the callers see it, memory copies into byte
  buffers, and the little-endian layout of integers inside on-disk structures.

  A kernel function is a HOL function into \<open>'a option\<close>. \<open>None\<close> means that the call does not
  return to its caller: an \<^verbatim>\<open>ASSERT\<close> failed, \<^verbatim>\<open>PANIC\<close> was called, memory
  outside an object was accessed, or the thread blocked with nobody left to wake it. The state is
  passed explicitly, last argument in, last component out.
\<close>

unbundle bit_operations_syntax

section \<open>Machine types\<close>

type_synonym byte = "8 word"
type_synonym u16 = "16 word"
type_synonym u32 = "32 word"
type_synonym u64 = "64 word"
type_synonym block_sector_t = "32 word"
type_synonym off_t = int

text \<open>Collections: \<open>run_simps\<close> unfolds monadic code, \<open>patch_simps\<close> computes with buffers.\<close>

named_theorems run_simps "unfolding rules for kernel calls"
named_theorems patch_simps "reading and length rules for overwritten buffers"

definition ASSERT :: "bool \<Rightarrow> unit option" where
  "ASSERT b = (if b then Some () else None)"

lemma ASSERT_simps [simp]: "ASSERT True = Some ()" "ASSERT False = None"
  by (simp_all add: ASSERT_def)

lemma ASSERT_eq_Some [simp]: "ASSERT b = Some u \<longleftrightarrow> b"
  by (simp add: ASSERT_def)

lemma ASSERT_bind_eq_Some [simp]: "(ASSERT b \<bind> f) = Some x \<longleftrightarrow> b \<and> f () = Some x"
  by (simp add: ASSERT_def)

lemmas bind_SomeE = bind_eq_Some_conv [THEN iffD1, elim_format]

text \<open>Addition on \<^verbatim>\<open>size_t\<close> (32 bits on the i386 build).\<close>

definition size_add :: "nat \<Rightarrow> nat \<Rightarrow> nat" where
  "size_add a b = (a + b) mod 2 ^ 32"

lemma size_add_small [simp]: "a + b < 4294967296 \<Longrightarrow> size_add a b = a + b"
  by (simp add: size_add_def)

definition DIV_ROUND_UP :: "nat \<Rightarrow> nat \<Rightarrow> nat" where
  "DIV_ROUND_UP x step = (x + step - 1) div step"

section \<open>Kernel memory\<close>

text \<open>
  \<^verbatim>\<open>malloc\<close> either succeeds or returns a null pointer; which call fails depends on the page
  pool. The state carries the outcome of every future allocation: \<open>oom s i\<close> says that the
  \<open>i\<close>-th allocation of the run fails.
\<close>

record kmem =
  oom :: "nat \<Rightarrow> bool"
  mallocs :: nat

definition malloc :: "'a kmem_scheme \<Rightarrow> bool \<times> 'a kmem_scheme" where
  "malloc s = (\<not> oom s (mallocs s), s\<lparr>mallocs := Suc (mallocs s)\<rparr>)"

section \<open>Copying into a buffer\<close>

definition patch :: "nat \<Rightarrow> 'a list \<Rightarrow> 'a list \<Rightarrow> 'a list" where
  "patch ofs src dst = take ofs dst @ src @ drop (ofs + length src) dst"

lemma length_patch [patch_simps, simp]:
  "ofs + length src \<le> length dst \<Longrightarrow> length (patch ofs src dst) = length dst"
  by (simp add: patch_def)

lemma nth_patch [patch_simps]:
  "ofs + length src \<le> length dst \<Longrightarrow> i < length dst \<Longrightarrow>
   patch ofs src dst ! i = (if ofs \<le> i \<and> i < ofs + length src then src ! (i - ofs) else dst ! i)"
  by (auto simp: patch_def nth_append)

lemma patch_nil [simp]: "patch ofs [] dst = dst"
  by (simp add: patch_def)

lemma patch_whole [simp]: "length src = length dst \<Longrightarrow> patch 0 src dst = src"
  by (simp add: patch_def)

lemma slice_patch [patch_simps]:
  "ofs + length src \<le> length dst \<Longrightarrow> take (length src) (drop ofs (patch ofs src dst)) = src"
  by (simp add: patch_def)

lemma patch_slice_self [patch_simps]:
  "ofs + n \<le> length dst \<Longrightarrow> patch ofs (take n (drop ofs dst)) dst = dst"
proof (rule nth_equalityI)
  assume "ofs + n \<le> length dst"
  then show "length (patch ofs (take n (drop ofs dst)) dst) = length dst"
    by simp
  fix i assume "i < length (patch ofs (take n (drop ofs dst)) dst)"
  with \<open>ofs + n \<le> length dst\<close> show "patch ofs (take n (drop ofs dst)) dst ! i = dst ! i"
    by (auto simp: nth_patch)
qed

lemma patch_patch_same [patch_simps]:
  "length a = length b \<Longrightarrow> ofs + length a \<le> length dst \<Longrightarrow>
   patch ofs a (patch ofs b dst) = patch ofs a dst"
  by (rule nth_equalityI) (auto simp: nth_patch)

text \<open>Copying a block in two adjacent pieces is copying it at once.\<close>

lemma patch_append:
  assumes "ofs + length a + length b \<le> length dst"
  shows "patch (ofs + length a) b (patch ofs a dst) = patch ofs (a @ b) dst"
  using assms by (intro nth_equalityI) (auto simp: nth_patch nth_append)

lemma patch_commute:
  assumes "ofs1 + length a \<le> ofs2" and "ofs2 + length b \<le> length dst"
  shows "patch ofs1 a (patch ofs2 b dst) = patch ofs2 b (patch ofs1 a dst)"
  using assms by (intro nth_equalityI) (auto simp: nth_patch)

section \<open>Searching lists\<close>

lemma find_append:
  "find P (xs @ ys) = (case find P xs of None \<Rightarrow> find P ys | Some x \<Rightarrow> Some x)"
  by (induction xs) auto

lemma find_upt_Some:
  assumes "find P [i..<j] = Some k"
  shows "i \<le> k \<and> k < j \<and> P k \<and> (\<forall>m. i \<le> m \<and> m < k \<longrightarrow> \<not> P m)"
  using assms
proof (induction "j - i" arbitrary: i)
  case 0
  then show ?case by simp
next
  case (Suc n)
  then have up: "[i..<j] = i # [Suc i..<j]" by (simp add: upt_conv_Cons)
  show ?case
  proof (cases "P i")
    case True
    with Suc.prems Suc.hyps(2) up show ?thesis by auto
  next
    case False
    with Suc.prems up have "find P [Suc i..<j] = Some k" by simp
    with Suc.hyps(1) [of "Suc i"] Suc.hyps(2) have "Suc i \<le> k \<and> k < j \<and> P k \<and> (\<forall>m. Suc i \<le> m \<and> m < k \<longrightarrow> \<not> P m)"
      by simp
    with False show ?thesis by (metis Suc_leI Suc_leD le_neq_implies_less)
  qed
qed

section \<open>Little-endian integers\<close>

text \<open>\<open>le_bytes n w\<close> are the \<open>n\<close> bytes of \<open>w\<close> as the machine stores them, \<open>le_word\<close> reads them back.\<close>

definition le_bytes :: "nat \<Rightarrow> 'a::len word \<Rightarrow> byte list" where
  "le_bytes n w = map (\<lambda>i. ucast (drop_bit (8 * i) w)) [0..<n]"

fun le_word :: "byte list \<Rightarrow> 'a::len word" where
  "le_word [] = 0"
| "le_word (b # bs) = ucast b OR push_bit 8 (le_word bs)"

lemma length_le_bytes [simp]: "length (le_bytes n w) = n"
  by (simp add: le_bytes_def)

lemma nth_le_bytes: "i < n \<Longrightarrow> le_bytes n w ! i = ucast (drop_bit (8 * i) w)"
  by (simp add: le_bytes_def)

lemma bit_le_word:
  fixes bs :: "byte list"
  shows "bit (le_word bs :: 'a::len word) i \<longleftrightarrow>
    i < LENGTH('a) \<and> i div 8 < length bs \<and> bit (bs ! (i div 8)) (i mod 8)"
proof (induction bs arbitrary: i)
  case Nil
  then show ?case by simp
next
  case (Cons b bs)
  show ?case
  proof (cases "i < 8")
    case True
    then show ?thesis
      by (auto simp: bit_simps dest: bit_imp_le_length)
  next
    case False
    then have "bit (le_word (b # bs) :: 'a word) i \<longleftrightarrow> i < LENGTH('a) \<and> bit (le_word bs :: 'a word) (i - 8)"
      by (auto simp: bit_simps dest: bit_imp_le_length)
    moreover have "(i - 8) div 8 = i div 8 - 1" "(i - 8) mod 8 = i mod 8" "0 < i div 8"
      using False by (auto simp: le_div_geq le_mod_geq not_less)
    ultimately show ?thesis
      using Cons.IH [of "i - 8"] False
      by (auto simp: nth_Cons split: nat.splits)
  qed
qed

lemma le_word_le_bytes:
  assumes "LENGTH('a::len) = 8 * n"
  shows "le_word (le_bytes n w) = (w :: 'a word)"
proof (rule bit_word_eqI)
  fix i assume "i < LENGTH('a)"
  then have "i div 8 < n" using assms by auto
  then show "bit (le_word (le_bytes n w) :: 'a word) i = bit w i"
    using \<open>i < LENGTH('a)\<close> by (auto simp: bit_le_word nth_le_bytes bit_simps dest: bit_imp_le_length)
qed

lemma le_bytes_le_word:
  assumes "LENGTH('a::len) = 8 * n" and "length bs = n"
  shows "le_bytes n (le_word bs :: 'a word) = bs"
proof (rule nth_equalityI)
  show "length (le_bytes n (le_word bs :: 'a word)) = length bs" using assms by simp
  fix i assume "i < length (le_bytes n (le_word bs :: 'a word))"
  then have i: "i < n" by simp
  show "le_bytes n (le_word bs :: 'a word) ! i = bs ! i"
  proof (rule bit_word_eqI)
    fix j assume "j < LENGTH(8)"
    then have "j < 8" by simp
    then have "(8 * i + j) div 8 = i" "(8 * i + j) mod 8 = j" "8 * i + j < LENGTH('a)"
      using i assms by auto
    then show "bit (le_bytes n (le_word bs :: 'a word) ! i) j = bit (bs ! i) j"
      using i assms \<open>j < 8\<close> by (auto simp: nth_le_bytes bit_simps bit_le_word)
  qed
qed

section \<open>Counting with words\<close>

lemma unat_bound: "unat w < 2 ^ LENGTH('a)" for w :: "'a::len word"
  by (rule unsigned_less)

lemma unat_add_bounded: "unat a + unat b \<le> unat c \<Longrightarrow> unat (a + b) = unat a + unat b"
  for a b c :: "'a::len word"
  unfolding unat_word_ariths by (rule mod_less) (erule le_less_trans, rule unat_bound)

lemma unat_Suc_less: "n < m \<Longrightarrow> unat (n + 1) = Suc (unat n)" for n m :: "'a::len word"
  using unat_add_bounded [of n 1 m] by (simp add: word_less_nat_alt)

end
