(* ===== verification/Bitmap.thy ===== *)
theory Bitmap
  imports Maverick_Prelude
begin

text \<open>
  Bitmaps (\<^verbatim>\<open>lib/kernel/bitmap.c\<close>, i386 build: 32-bit elements). A bitmap is an array of words
  that simulates an array of bits. \<open>bools\<close> is that array of bits; every operation is shown to do on
  it what its comment promises. The stray bits above \<open>bit_cnt\<close> in the last element are part of the
  state: \<^verbatim>\<open>bitmap_create\<close> leaves there whatever the allocator returned.

  The interface \<open>slot_allocator\<close> is what the free map, the swap table and the page allocator use
  bitmaps for; bitmaps provide it at the end of the theory.
\<close>

section \<open>Data\<close>

definition ELEM_BITS :: nat where
  "ELEM_BITS = 32"

record bitmap =
  bit_cnt :: nat
  bits :: "u32 list"

definition BITMAP_ERROR :: nat where
  "BITMAP_ERROR = 2 ^ 32 - 1"

definition elem_idx :: "nat \<Rightarrow> nat" where
  "elem_idx bit_idx = bit_idx div ELEM_BITS"

definition bit_mask :: "nat \<Rightarrow> u32" where
  "bit_mask bit_idx = push_bit (bit_idx mod ELEM_BITS) 1"

definition elem_cnt :: "nat \<Rightarrow> nat" where
  "elem_cnt n = DIV_ROUND_UP n ELEM_BITS"

definition byte_cnt :: "nat \<Rightarrow> nat" where
  "byte_cnt n = 4 * elem_cnt n"

definition last_mask :: "bitmap \<Rightarrow> u32" where
  "last_mask b = (let last_bits = bit_cnt b mod ELEM_BITS in
     if last_bits \<noteq> 0 then push_bit last_bits 1 - 1 else - 1)"

definition bitmap_size :: "bitmap \<Rightarrow> nat" where
  "bitmap_size b = bit_cnt b"

definition bitmap_buf_size :: "nat \<Rightarrow> nat" where
  "bitmap_buf_size n = 8 + byte_cnt n"

section \<open>Single bits\<close>

text \<open>
  \<open>bitmap_mark\<close>, \<open>bitmap_reset\<close> and \<open>bitmap_flip\<close> do not check the index: past the last element they
  touch memory outside the bitmap, which is \<open>None\<close> here.
\<close>

definition bitmap_mark :: "bitmap \<Rightarrow> nat \<Rightarrow> bitmap option" where
  "bitmap_mark b bit_idx = (let idx = elem_idx bit_idx; mask = bit_mask bit_idx in
     if idx < length (bits b) then Some (b\<lparr>bits := (bits b)[idx := (bits b ! idx) OR mask]\<rparr>) else None)"

definition bitmap_reset :: "bitmap \<Rightarrow> nat \<Rightarrow> bitmap option" where
  "bitmap_reset b bit_idx = (let idx = elem_idx bit_idx; mask = bit_mask bit_idx in
     if idx < length (bits b) then Some (b\<lparr>bits := (bits b)[idx := (bits b ! idx) AND NOT mask]\<rparr>) else None)"

definition bitmap_flip :: "bitmap \<Rightarrow> nat \<Rightarrow> bitmap option" where
  "bitmap_flip b bit_idx = (let idx = elem_idx bit_idx; mask = bit_mask bit_idx in
     if idx < length (bits b) then Some (b\<lparr>bits := (bits b)[idx := (bits b ! idx) XOR mask]\<rparr>) else None)"

definition bitmap_set :: "bitmap \<Rightarrow> nat \<Rightarrow> bool \<Rightarrow> bitmap option" where
  "bitmap_set b idx v = do {
     ASSERT (idx < bit_cnt b);
     if v then bitmap_mark b idx else bitmap_reset b idx
   }"

definition bitmap_test :: "bitmap \<Rightarrow> nat \<Rightarrow> bool option" where
  "bitmap_test b idx = do {
     ASSERT (idx < bit_cnt b);
     if elem_idx idx < length (bits b)
     then Some ((bits b ! elem_idx idx) AND bit_mask idx \<noteq> 0) else None
   }"

section \<open>Ranges of bits\<close>

fun bitmap_set_loop :: "nat \<Rightarrow> nat \<Rightarrow> bool \<Rightarrow> bitmap \<Rightarrow> bitmap option" where
  "bitmap_set_loop i 0 v b = Some b"
| "bitmap_set_loop i (Suc n) v b = do { b \<leftarrow> bitmap_set b i v; bitmap_set_loop (Suc i) n v b }"

definition bitmap_set_multiple :: "bitmap \<Rightarrow> nat \<Rightarrow> nat \<Rightarrow> bool \<Rightarrow> bitmap option" where
  "bitmap_set_multiple b start cnt v = do {
     ASSERT (start \<le> bit_cnt b);
     ASSERT (size_add start cnt \<le> bit_cnt b);
     bitmap_set_loop start cnt v b
   }"

definition bitmap_set_all :: "bitmap \<Rightarrow> bool \<Rightarrow> bitmap option" where
  "bitmap_set_all b v = bitmap_set_multiple b 0 (bitmap_size b) v"

fun bitmap_count_loop :: "bitmap \<Rightarrow> nat \<Rightarrow> nat \<Rightarrow> bool \<Rightarrow> nat \<Rightarrow> nat option" where
  "bitmap_count_loop b i 0 v acc = Some acc"
| "bitmap_count_loop b i (Suc n) v acc = do {
     t \<leftarrow> bitmap_test b i;
     bitmap_count_loop b (Suc i) n v (if t = v then Suc acc else acc)
   }"

definition bitmap_count :: "bitmap \<Rightarrow> nat \<Rightarrow> nat \<Rightarrow> bool \<Rightarrow> nat option" where
  "bitmap_count b start cnt v = do {
     ASSERT (start \<le> bit_cnt b);
     ASSERT (size_add start cnt \<le> bit_cnt b);
     bitmap_count_loop b start cnt v 0
   }"

fun bitmap_contains_loop :: "bitmap \<Rightarrow> nat \<Rightarrow> nat \<Rightarrow> bool \<Rightarrow> bool option" where
  "bitmap_contains_loop b i 0 v = Some False"
| "bitmap_contains_loop b i (Suc n) v = do {
     t \<leftarrow> bitmap_test b i;
     if t = v then Some True else bitmap_contains_loop b (Suc i) n v
   }"

definition bitmap_contains :: "bitmap \<Rightarrow> nat \<Rightarrow> nat \<Rightarrow> bool \<Rightarrow> bool option" where
  "bitmap_contains b start cnt v = do {
     ASSERT (start \<le> bit_cnt b);
     ASSERT (size_add start cnt \<le> bit_cnt b);
     bitmap_contains_loop b start cnt v
   }"

definition bitmap_any :: "bitmap \<Rightarrow> nat \<Rightarrow> nat \<Rightarrow> bool option" where
  "bitmap_any b start cnt = bitmap_contains b start cnt True"

definition bitmap_none :: "bitmap \<Rightarrow> nat \<Rightarrow> nat \<Rightarrow> bool option" where
  "bitmap_none b start cnt = map_option Not (bitmap_contains b start cnt True)"

definition bitmap_all :: "bitmap \<Rightarrow> nat \<Rightarrow> nat \<Rightarrow> bool option" where
  "bitmap_all b start cnt = map_option Not (bitmap_contains b start cnt False)"

section \<open>Searching\<close>

text \<open>The loop of \<open>bitmap_scan\<close> tries the start positions \<open>i, i + 1, \<dots>, last\<close>; \<open>n\<close> of them are left.\<close>

fun bitmap_scan_loop :: "bitmap \<Rightarrow> nat \<Rightarrow> nat \<Rightarrow> nat \<Rightarrow> bool \<Rightarrow> nat option" where
  "bitmap_scan_loop b i 0 cnt v = Some BITMAP_ERROR"
| "bitmap_scan_loop b i (Suc n) cnt v = do {
     c \<leftarrow> bitmap_contains b i cnt (\<not> v);
     if \<not> c then Some i else bitmap_scan_loop b (Suc i) n cnt v
   }"

definition bitmap_scan :: "bitmap \<Rightarrow> nat \<Rightarrow> nat \<Rightarrow> bool \<Rightarrow> nat option" where
  "bitmap_scan b start cnt v = do {
     ASSERT (start \<le> bit_cnt b);
     if cnt \<le> bit_cnt b
     then (let last = bit_cnt b - cnt in bitmap_scan_loop b start (Suc last - start) cnt v)
     else Some BITMAP_ERROR
   }"

definition bitmap_scan_and_flip :: "bitmap \<Rightarrow> nat \<Rightarrow> nat \<Rightarrow> bool \<Rightarrow> (nat \<times> bitmap) option" where
  "bitmap_scan_and_flip b start cnt v = do {
     idx \<leftarrow> bitmap_scan b start cnt v;
     if idx \<noteq> BITMAP_ERROR
     then do { b \<leftarrow> bitmap_set_multiple b idx cnt (\<not> v); Some (idx, b) }
     else Some (idx, b)
   }"

section \<open>Creation\<close>

text \<open>
  \<open>junk\<close> is the uninitialised memory the allocator hands out for \<open>bits\<close>. Two allocations happen, for
  the header and for the elements; the second may fail harmlessly when there are no bits.
\<close>

definition bitmap_create :: "nat \<Rightarrow> u32 list \<Rightarrow> 'a kmem_scheme \<Rightarrow> (bitmap option \<times> 'a kmem_scheme) option" where
  "bitmap_create n junk s =
    (let (ok, s) = malloc s in
     if \<not> ok then Some (None, s)
     else let (ok, s) = malloc s in
       if ok \<or> n = 0
       then do { b \<leftarrow> bitmap_set_all \<lparr>bit_cnt = n, bits = junk\<rparr> False; Some (Some b, s) }
       else Some (None, s))"

definition bitmap_create_in_buf :: "nat \<Rightarrow> u32 list \<Rightarrow> nat \<Rightarrow> bitmap option" where
  "bitmap_create_in_buf n junk block_size = do {
     ASSERT (block_size \<ge> bitmap_buf_size n);
     bitmap_set_all \<lparr>bit_cnt = n, bits = junk\<rparr> False
   }"

section \<open>The array of bits\<close>

definition bitmap_inv :: "bitmap \<Rightarrow> bool" where
  "bitmap_inv b \<longleftrightarrow> length (bits b) = elem_cnt (bit_cnt b) \<and> bit_cnt b < 2 ^ 32 - 1"

definition bools :: "bitmap \<Rightarrow> bool list" where
  "bools b = map (\<lambda>i. bit (bits b ! (i div 32)) (i mod 32)) [0..<bit_cnt b]"

lemma length_bools [simp]: "length (bools b) = bit_cnt b"
  by (simp add: bools_def)

lemma nth_bools: "i < bit_cnt b \<Longrightarrow> bools b ! i = bit (bits b ! (i div 32)) (i mod 32)"
  by (simp add: bools_def)

lemma elem_idx_less: "bitmap_inv b \<Longrightarrow> i < bit_cnt b \<Longrightarrow> i div 32 < length (bits b)"
  by (simp add: bitmap_inv_def elem_cnt_def ELEM_BITS_def DIV_ROUND_UP_def)

lemma bit_bit_mask: "bit (bit_mask i) j \<longleftrightarrow> j = i mod 32"
  by (auto simp: bit_mask_def ELEM_BITS_def bit_simps)

lemma and_bit_mask_eq_0: "(w AND bit_mask i = 0) \<longleftrightarrow> \<not> bit w (i mod 32)"
  by (simp add: bit_eq_iff [of "w AND bit_mask i" 0] bit_and_iff bit_bit_mask)
    (metis mod_less_divisor zero_less_numeral)

lemma bit_elem_update:
  "j < 32 \<Longrightarrow> bit (if v then w OR bit_mask i else w AND NOT (bit_mask i)) j =
     (if j = i mod 32 then v else bit w j)"
  by (auto simp: bit_or_iff bit_and_iff bit_not_iff bit_bit_mask)

lemma bit_place_unique:
  "(i :: nat) div 32 = j div 32 \<Longrightarrow> i mod 32 = j mod 32 \<Longrightarrow> i = j"
  by (metis div_mult_mod_eq)

lemma bitmap_test_eq:
  assumes "bitmap_inv b"
  shows "bitmap_test b i = (if i < bit_cnt b then Some (bools b ! i) else None)"
  using assms by (simp add: bitmap_test_def elem_idx_def ELEM_BITS_def elem_idx_less nth_bools
      and_bit_mask_eq_0 ASSERT_def)

lemma bitmap_set_ok:
  assumes "bitmap_inv b" and "i < bit_cnt b"
  shows "\<exists>b'. bitmap_set b i v = Some b' \<and> bitmap_inv b' \<and> bit_cnt b' = bit_cnt b \<and>
    bools b' = (bools b)[i := v]"
proof -
  let ?e = "i div 32"
  let ?w = "if v then (bits b ! ?e) OR bit_mask i else (bits b ! ?e) AND NOT (bit_mask i)"
  let ?b = "b\<lparr>bits := (bits b)[?e := ?w]\<rparr>"
  have e: "?e < length (bits b)" using assms by (rule elem_idx_less)
  have "bitmap_set b i v = Some ?b"
    using assms(2) e by (simp add: bitmap_set_def bitmap_mark_def bitmap_reset_def elem_idx_def
        ELEM_BITS_def Let_def)
  moreover have "bools ?b = (bools b)[i := v]"
  proof (rule nth_equalityI)
    fix j assume "j < length (bools ?b)"
    then have j: "j < bit_cnt b" by simp
    show "bools ?b ! j = (bools b)[i := v] ! j"
    proof (cases "j div 32 = ?e")
      case True
      then have "bools ?b ! j = bit ?w (j mod 32)"
        using j e by (simp add: nth_bools)
      also have "\<dots> = (if j mod 32 = i mod 32 then v else bit (bits b ! ?e) (j mod 32))"
        by (rule bit_elem_update) simp
      also have "\<dots> = (bools b)[i := v] ! j"
        using True j assms(2) bit_place_unique [of j i] by (auto simp: nth_bools nth_list_update)
      finally show ?thesis .
    next
      case False
      then show ?thesis using j by (auto simp: nth_bools nth_list_update)
    qed
  qed simp
  ultimately show ?thesis using assms(1) by (simp add: bitmap_inv_def)
qed

section \<open>Ranges on the array of bits\<close>

lemma update_is_patch: "i < length xs \<Longrightarrow> xs[i := v] = patch i [v] xs"
  by (simp add: patch_def upd_conv_take_nth_drop)

lemma bitmap_set_loop_ok:
  assumes "bitmap_inv b" and "i + n \<le> bit_cnt b"
  shows "\<exists>b'. bitmap_set_loop i n v b = Some b' \<and> bitmap_inv b' \<and> bit_cnt b' = bit_cnt b \<and>
    bools b' = patch i (replicate n v) (bools b)"
  using assms
proof (induction n arbitrary: i b)
  case 0
  then show ?case by simp
next
  case (Suc n)
  then obtain b1 where b1: "bitmap_set b i v = Some b1" "bitmap_inv b1" "bit_cnt b1 = bit_cnt b"
    "bools b1 = (bools b)[i := v]"
    using bitmap_set_ok [of b i v] by auto
  then obtain b2 where b2: "bitmap_set_loop (Suc i) n v b1 = Some b2" "bitmap_inv b2"
    "bit_cnt b2 = bit_cnt b" "bools b2 = patch (Suc i) (replicate n v) (bools b1)"
    using Suc.IH [of b1 "Suc i"] Suc.prems by auto
  have "bools b2 = patch i (replicate (Suc n) v) (bools b)"
    using b1 b2 Suc.prems patch_append [of i "[v]" "replicate n v" "bools b"]
    by (simp add: update_is_patch)
  with b1 b2 show ?case by simp
qed

lemma bitmap_set_multiple_ok:
  assumes "bitmap_inv b" and "start + cnt \<le> bit_cnt b"
  shows "\<exists>b'. bitmap_set_multiple b start cnt v = Some b' \<and> bitmap_inv b' \<and>
    bit_cnt b' = bit_cnt b \<and> bools b' = patch start (replicate cnt v) (bools b)"
  using bitmap_set_loop_ok [OF assms, of v] assms
  by (simp add: bitmap_set_multiple_def bitmap_inv_def)

lemma bitmap_contains_loop_eq:
  assumes "bitmap_inv b" and "i + n \<le> bit_cnt b"
  shows "bitmap_contains_loop b i n v = Some (v \<in> set (take n (drop i (bools b))))"
  using assms(2)
proof (induction n arbitrary: i)
  case 0
  then show ?case by simp
next
  case (Suc n)
  then have "take (Suc n) (drop i (bools b)) = bools b ! i # take n (drop (Suc i) (bools b))"
    by (simp flip: Cons_nth_drop_Suc)
  with Suc show ?case
    by (auto simp: bitmap_test_eq [OF assms(1)])
qed

lemma bitmap_contains_eq:
  assumes "bitmap_inv b" and "start + cnt \<le> bit_cnt b"
  shows "bitmap_contains b start cnt v = Some (v \<in> set (take cnt (drop start (bools b))))"
  using bitmap_contains_loop_eq [OF assms, of v] assms
  by (simp add: bitmap_contains_def bitmap_inv_def)

lemma bitmap_all_eq:
  assumes "bitmap_inv b" and "start + cnt \<le> bit_cnt b"
  shows "bitmap_all b start cnt = Some (\<forall>j. start \<le> j \<and> j < start + cnt \<longrightarrow> bools b ! j)"
proof -
  have "False \<notin> set (take cnt (drop start (bools b))) \<longleftrightarrow>
      (\<forall>k < cnt. bools b ! (start + k))"
    using assms(2) by (auto simp: in_set_conv_nth)
  also have "\<dots> \<longleftrightarrow> (\<forall>j. start \<le> j \<and> j < start + cnt \<longrightarrow> bools b ! j)"
    by (metis add_less_cancel_left le_add1 le_Suc_ex)
  finally show ?thesis
    using bitmap_contains_eq [OF assms, of False] by (simp add: bitmap_all_def)
qed

lemma bitmap_count_loop_eq:
  assumes "bitmap_inv b" and "i + n \<le> bit_cnt b"
  shows "bitmap_count_loop b i n v acc = Some (acc + count_list (take n (drop i (bools b))) v)"
  using assms(2)
proof (induction n arbitrary: i acc)
  case 0
  then show ?case by simp
next
  case (Suc n)
  then have "take (Suc n) (drop i (bools b)) = bools b ! i # take n (drop (Suc i) (bools b))"
    by (simp flip: Cons_nth_drop_Suc)
  with Suc show ?case
    by (auto simp: bitmap_test_eq [OF assms(1)])
qed

section \<open>Searching on the array of bits\<close>

text \<open>\<open>free_run xs cnt v i\<close>: the \<open>cnt\<close> bits from \<open>i\<close> exist and all have the value \<open>v\<close>.\<close>

definition run_at :: "bool list \<Rightarrow> nat \<Rightarrow> bool \<Rightarrow> nat \<Rightarrow> bool" where
  "run_at xs cnt v i \<longleftrightarrow> i + cnt \<le> length xs \<and> (\<forall>k < cnt. xs ! (i + k) = v)"

lemma run_at_contains:
  "i + cnt \<le> length xs \<Longrightarrow> run_at xs cnt v i \<longleftrightarrow> (\<not> v) \<notin> set (take cnt (drop i xs))"
  by (auto simp: run_at_def in_set_conv_nth)

lemma bitmap_scan_loop_eq:
  assumes "bitmap_inv b" and "i + n + cnt \<le> Suc (bit_cnt b)"
  shows "bitmap_scan_loop b i n cnt v =
    Some (case find (run_at (bools b) cnt v) [i..<i + n] of Some j \<Rightarrow> j | None \<Rightarrow> BITMAP_ERROR)"
  using assms(2)
proof (induction n arbitrary: i)
  case 0
  then show ?case by simp
next
  case (Suc n)
  then have le: "i + cnt \<le> bit_cnt b" by simp
  have up: "[i..<Suc (i + n)] = i # [Suc i..<Suc (i + n)]"
    by (simp add: upt_conv_Cons del: upt_Suc)
  show ?case
    using Suc.IH [of "Suc i"] Suc.prems le bitmap_contains_eq [OF assms(1) le, of "\<not> v"]
      run_at_contains [of i cnt "bools b" v]
    by (auto simp: up simp del: upt_Suc)
qed

lemma bitmap_scan_eq:
  assumes "bitmap_inv b" and "start \<le> bit_cnt b"
  shows "bitmap_scan b start cnt v =
    Some (case find (run_at (bools b) cnt v) [start..<Suc (bit_cnt b)] of Some j \<Rightarrow> j | None \<Rightarrow> BITMAP_ERROR)"
proof (cases "start + cnt \<le> bit_cnt b")
  case True
  let ?last = "bit_cnt b - cnt"
  have split: "[start..<Suc (bit_cnt b)] = [start..<Suc ?last] @ [Suc ?last..<Suc (bit_cnt b)]"
    using True upt_add_eq_append [of start "Suc ?last" cnt] by (simp del: upt_Suc)
  have none: "find (run_at (bools b) cnt v) [Suc ?last..<Suc (bit_cnt b)] = None"
    by (auto simp: find_None_iff run_at_def)
  have "start + (Suc ?last - start) = Suc ?last" using True by simp
  then show ?thesis
    using True bitmap_scan_loop_eq [OF assms(1), of start "Suc ?last - start" cnt v] none
    by (simp add: bitmap_scan_def split find_append del: upt_Suc split: option.split)
next
  case False
  have "find (run_at (bools b) cnt v) [start..<Suc (bit_cnt b)] = None"
    using False by (auto simp: find_None_iff run_at_def)
  moreover have "cnt \<le> bit_cnt b \<Longrightarrow> Suc (bit_cnt b - cnt) - start = 0"
    using False by simp
  ultimately show ?thesis
    using assms(2) by (auto simp: bitmap_scan_def simp del: upt_Suc)
qed

lemma bitmap_scan_and_flip_ok:
  assumes "bitmap_inv b" and "start \<le> bit_cnt b"
  shows "\<exists>i b'. bitmap_scan_and_flip b start cnt v = Some (i, b') \<and> bitmap_inv b' \<and> bit_cnt b' = bit_cnt b \<and>
    (if i = BITMAP_ERROR
     then b' = b \<and> (\<forall>j \<ge> start. \<not> run_at (bools b) cnt v j)
     else start \<le> i \<and> run_at (bools b) cnt v i \<and> (\<forall>j. start \<le> j \<and> j < i \<longrightarrow> \<not> run_at (bools b) cnt v j) \<and>
          bools b' = patch i (replicate cnt (\<not> v)) (bools b))"
proof (cases "find (run_at (bools b) cnt v) [start..<Suc (bit_cnt b)]")
  case None
  then have "bitmap_scan_and_flip b start cnt v = Some (BITMAP_ERROR, b)"
    using bitmap_scan_eq [OF assms, of cnt v] by (simp add: bitmap_scan_and_flip_def)
  moreover have "\<not> run_at (bools b) cnt v j" if "start \<le> j" for j
    using None that by (auto simp: find_None_iff run_at_def)
  ultimately show ?thesis using assms by auto
next
  case (Some i)
  from find_upt_Some [OF this] have i: "start \<le> i" "run_at (bools b) cnt v i"
    "\<forall>j. start \<le> j \<and> j < i \<longrightarrow> \<not> run_at (bools b) cnt v j" "i \<le> bit_cnt b"
    by auto
  have "i \<noteq> BITMAP_ERROR" using i(4) assms(1) by (auto simp: bitmap_inv_def BITMAP_ERROR_def)
  have le: "i + cnt \<le> bit_cnt b" using i(2) by (simp add: run_at_def)
  obtain b' where b': "bitmap_set_multiple b i cnt (\<not> v) = Some b'" "bitmap_inv b'" "bit_cnt b' = bit_cnt b"
    "bools b' = patch i (replicate cnt (\<not> v)) (bools b)"
    using bitmap_set_multiple_ok [OF assms(1) le] by blast
  then have "bitmap_scan_and_flip b start cnt v = Some (i, b')"
    using bitmap_scan_eq [OF assms, of cnt v] Some \<open>i \<noteq> BITMAP_ERROR\<close>
    by (simp add: bitmap_scan_and_flip_def)
  then show ?thesis using i b' \<open>i \<noteq> BITMAP_ERROR\<close> by auto
qed



section \<open>Allocators\<close>

text \<open>
  What a client of an allocator of numbered slots relies on: an allocation takes a run of unused
  slots, and fails only if there is no such run; a release of used slots gives back exactly those.
\<close>

locale slot_allocator =
  fixes inv :: "'s \<Rightarrow> bool"
    and cap :: "'s \<Rightarrow> nat"
    and used :: "'s \<Rightarrow> nat set"
    and alloc :: "nat \<Rightarrow> 's \<Rightarrow> (nat option \<times> 's) option"
    and release :: "nat \<Rightarrow> nat \<Rightarrow> 's \<Rightarrow> 's option"
  assumes used_cap: "inv s \<Longrightarrow> used s \<subseteq> {..<cap s}"
    and alloc_ok: "inv s \<Longrightarrow>
      (\<exists>i s'. alloc n s = Some (Some i, s') \<and> inv s' \<and> cap s' = cap s \<and> i + n \<le> cap s \<and>
         {i..<i + n} \<inter> used s = {} \<and> used s' = used s \<union> {i..<i + n}) \<or>
      (alloc n s = Some (None, s) \<and> (\<forall>i. i + n \<le> cap s \<longrightarrow> {i..<i + n} \<inter> used s \<noteq> {}))"
    and release_ok: "inv s \<Longrightarrow> i + n \<le> cap s \<Longrightarrow>
      (if {i..<i + n} \<subseteq> used s
       then \<exists>s'. release i n s = Some s' \<and> inv s' \<and> cap s' = cap s \<and> used s' = used s - {i..<i + n}
       else release i n s = None)"
begin

lemma finite_used: "inv s \<Longrightarrow> finite (used s)"
  by (rule finite_subset [OF used_cap]) auto

text \<open>Two live allocations never share a slot.\<close>

lemma alloc_disjoint:
  assumes "inv s" and "alloc n s = Some (Some i, s1)" and "alloc m s1 = Some (Some j, s2)"
  shows "{i..<i + n} \<inter> {j..<j + m} = {}"
proof -
  have "inv s1" "used s1 = used s \<union> {i..<i + n}"
    using alloc_ok [OF assms(1), of n] assms(2) by auto
  moreover have "{j..<j + m} \<inter> used s1 = {}"
    using alloc_ok [OF \<open>inv s1\<close>, of m] assms(3) by auto
  ultimately show ?thesis by blast
qed

text \<open>An allocation uses exactly \<open>n\<close> more slots; releasing it restores the used set.\<close>

lemma alloc_card:
  assumes "inv s" and "alloc n s = Some (Some i, s1)"
  shows "card (used s1) = card (used s) + n"
proof -
  have "used s1 = used s \<union> {i..<i + n}" "{i..<i + n} \<inter> used s = {}"
    using alloc_ok [OF assms(1), of n] assms(2) by auto
  then show ?thesis
    using finite_used [OF assms(1)] by (simp add: card_Un_disjoint Int_commute)
qed

lemma alloc_release:
  assumes "inv s" and "alloc n s = Some (Some i, s1)"
  shows "\<exists>s2. release i n s1 = Some s2 \<and> inv s2 \<and> used s2 = used s"
proof -
  have s1: "inv s1" "used s1 = used s \<union> {i..<i + n}" "{i..<i + n} \<inter> used s = {}" "i + n \<le> cap s1"
    using alloc_ok [OF assms(1), of n] assms(2) by auto
  then obtain s2 where "release i n s1 = Some s2" "inv s2" "used s2 = used s1 - {i..<i + n}"
    using release_ok [of s1 i n] by auto
  with s1 show ?thesis by auto
qed

text \<open>Releasing twice does not return.\<close>

lemma double_release:
  assumes "inv s" and "i + n \<le> cap s" and "0 < n" and "release i n s = Some s1"
  shows "release i n s1 = None"
proof -
  have "{i..<i + n} \<subseteq> used s"
    using release_ok [OF assms(1,2)] assms(4) by (metis option.distinct(1))
  then have "inv s1" "cap s1 = cap s" "used s1 = used s - {i..<i + n}"
    using release_ok [OF assms(1,2)] assms(4) by auto
  moreover from this assms(3) have "i \<in> {i..<i + n}" "i \<notin> used s1" by auto
  then have "\<not> {i..<i + n} \<subseteq> used s1" by blast
  ultimately show ?thesis
    using release_ok [of s1 i n] assms(2) by simp
qed

end

text \<open>
  Bitmaps provide it, used as \<^verbatim>\<open>free_map_allocate\<close>, \<^verbatim>\<open>swap_out\<close> and
  \<^verbatim>\<open>palloc_get_multiple\<close> use them: a set bit is a used slot, an allocation is a scan for
  clear bits, a release first asserts that every bit is set.
\<close>

definition bitmap_used :: "bitmap \<Rightarrow> nat set" where
  "bitmap_used b = {i. i < bit_cnt b \<and> bools b ! i}"

definition bitmap_take :: "nat \<Rightarrow> bitmap \<Rightarrow> (nat option \<times> bitmap) option" where
  "bitmap_take cnt b = do {
     (i, b) \<leftarrow> bitmap_scan_and_flip b 0 cnt False;
     Some (if i = BITMAP_ERROR then None else Some i, b)
   }"

definition bitmap_give :: "nat \<Rightarrow> nat \<Rightarrow> bitmap \<Rightarrow> bitmap option" where
  "bitmap_give i cnt b = do {
     a \<leftarrow> bitmap_all b i cnt;
     ASSERT a;
     bitmap_set_multiple b i cnt False
   }"

lemma run_at_unused:
  "run_at (bools b) n False i \<longleftrightarrow> i + n \<le> bit_cnt b \<and> {i..<i + n} \<inter> bitmap_used b = {}"
proof -
  have "(\<forall>k < n. \<not> bools b ! (i + k)) \<longleftrightarrow> (\<forall>j. i \<le> j \<and> j < i + n \<longrightarrow> \<not> bools b ! j)"
    by (metis add_less_cancel_left le_add1 le_Suc_ex)
  then show ?thesis by (auto simp: run_at_def bitmap_used_def)
qed

lemma bitmap_used_patch:
  assumes "bools b' = patch i (replicate n v) (bools b)" "bit_cnt b' = bit_cnt b" "i + n \<le> bit_cnt b"
  shows "bitmap_used b' = (if v then bitmap_used b \<union> {i..<i + n} else bitmap_used b - {i..<i + n})"
  using assms by (auto simp: bitmap_used_def nth_patch split: if_splits)

interpretation bm: slot_allocator bitmap_inv bit_cnt bitmap_used bitmap_take bitmap_give
proof unfold_locales
  fix b :: bitmap assume inv: "bitmap_inv b"
  show "bitmap_used b \<subseteq> {..<bit_cnt b}" by (auto simp: bitmap_used_def)
  fix n
  obtain i b' where i: "bitmap_scan_and_flip b 0 n False = Some (i, b')" "bitmap_inv b'" "bit_cnt b' = bit_cnt b"
    and alt: "if i = BITMAP_ERROR
     then b' = b \<and> (\<forall>j \<ge> 0. \<not> run_at (bools b) n False j)
     else 0 \<le> i \<and> run_at (bools b) n False i \<and> (\<forall>j. 0 \<le> j \<and> j < i \<longrightarrow> \<not> run_at (bools b) n False j) \<and>
          bools b' = patch i (replicate n True) (bools b)"
    using bitmap_scan_and_flip_ok [OF inv, of 0 n False] by auto
  show "(\<exists>i b'. bitmap_take n b = Some (Some i, b') \<and> bitmap_inv b' \<and> bit_cnt b' = bit_cnt b \<and> i + n \<le> bit_cnt b \<and>
         {i..<i + n} \<inter> bitmap_used b = {} \<and> bitmap_used b' = bitmap_used b \<union> {i..<i + n}) \<or>
      (bitmap_take n b = Some (None, b) \<and> (\<forall>i. i + n \<le> bit_cnt b \<longrightarrow> {i..<i + n} \<inter> bitmap_used b \<noteq> {}))"
  proof (cases "i = BITMAP_ERROR")
    case True
    with i alt show ?thesis by (auto simp: bitmap_take_def run_at_unused)
  next
    case False
    with alt have r: "run_at (bools b) n False i" "bools b' = patch i (replicate n True) (bools b)" by auto
    then have "i + n \<le> bit_cnt b" "{i..<i + n} \<inter> bitmap_used b = {}" by (simp_all add: run_at_unused)
    moreover from this(1) r i have "bitmap_used b' = bitmap_used b \<union> {i..<i + n}"
      using bitmap_used_patch [of b' i n True b] by simp
    ultimately show ?thesis using False i by (simp add: bitmap_take_def)
  qed
  fix k assume le: "k + n \<le> bit_cnt b"
  have all: "(\<forall>j. k \<le> j \<and> j < k + n \<longrightarrow> bools b ! j) \<longleftrightarrow> {k..<k + n} \<subseteq> bitmap_used b"
    using le by (auto simp: bitmap_used_def)
  obtain b2 where b2: "bitmap_set_multiple b k n False = Some b2" "bitmap_inv b2" "bit_cnt b2 = bit_cnt b"
    "bools b2 = patch k (replicate n False) (bools b)"
    using bitmap_set_multiple_ok [OF inv le] by blast
  then show "if {k..<k + n} \<subseteq> bitmap_used b
       then \<exists>s'. bitmap_give k n b = Some s' \<and> bitmap_inv s' \<and> bit_cnt s' = bit_cnt b \<and>
                bitmap_used s' = bitmap_used b - {k..<k + n}
       else bitmap_give k n b = None"
    using bitmap_all_eq [OF inv le] all bitmap_used_patch [of b2 k n False b] le
    by (simp add: bitmap_give_def)
qed

end
