(* ===== verification/Block_Device.thy ===== *)
theory Block_Device
  imports Maverick_Prelude
begin

text \<open>
  The block device layer (\<^verbatim>\<open>devices/block.c\<close>): bounds-checked sector reads and writes on the file
  system device, with its transfer counters. The driver below it (\<^verbatim>\<open>ops->read\<close>,
  \<^verbatim>\<open>ops->write\<close>) is a medium that stores one list of bytes per sector.

  The interface \<open>sector_store\<close> says what its clients rely on: a store of 512-byte sectors with a view
  of its contents that reads leave alone and writes change at one sector. The raw device provides
  it here, the buffer cache provides it in \<^verbatim>\<open>Buffer_Cache\<close>.
\<close>

section \<open>The device\<close>

definition BLOCK_SECTOR_SIZE :: nat where
  "BLOCK_SECTOR_SIZE = 512"

lemma BLOCK_SECTOR_SIZE_simp [simp]: "BLOCK_SECTOR_SIZE = 512"
  by (simp add: BLOCK_SECTOR_SIZE_def)

datatype block_type =
    BLOCK_KERNEL | BLOCK_FILESYS | BLOCK_SCRATCH | BLOCK_SWAP | BLOCK_RAW | BLOCK_FOREIGN

record block = kmem +
  dev_size :: block_sector_t
  dev_type :: block_type
  media :: "block_sector_t \<Rightarrow> byte list"
  read_cnt :: u64
  write_cnt :: u64

definition check_sector :: "block_sector_t \<Rightarrow> 'a block_scheme \<Rightarrow> unit option" where
  "check_sector sector s = (if sector \<ge> dev_size s then None else Some ())"

definition block_read :: "block_sector_t \<Rightarrow> 'a block_scheme \<Rightarrow> (byte list \<times> 'a block_scheme) option" where
  "block_read sector s = do {
     check_sector sector s;
     Some (media s sector, s\<lparr>read_cnt := read_cnt s + 1\<rparr>)
   }"

definition block_write :: "block_sector_t \<Rightarrow> byte list \<Rightarrow> 'a block_scheme \<Rightarrow> 'a block_scheme option" where
  "block_write sector buffer s = do {
     check_sector sector s;
     ASSERT (dev_type s \<noteq> BLOCK_FOREIGN);
     Some (s\<lparr>media := (media s)(sector := buffer), write_cnt := write_cnt s + 1\<rparr>)
   }"

definition block_size :: "'a block_scheme \<Rightarrow> block_sector_t" where
  "block_size s = dev_size s"

section \<open>Stores of sectors\<close>

locale sector_store =
  fixes inv :: "'s \<Rightarrow> bool"
    and size_of :: "'s \<Rightarrow> block_sector_t"
    and view :: "'s \<Rightarrow> block_sector_t \<Rightarrow> byte list"
    and rd :: "block_sector_t \<Rightarrow> 's \<Rightarrow> (byte list \<times> 's) option"
    and wr :: "block_sector_t \<Rightarrow> byte list \<Rightarrow> 's \<Rightarrow> 's option"
  assumes view_len: "inv s \<Longrightarrow> a < size_of s \<Longrightarrow> length (view s a) = 512"
    and rd_ok: "inv s \<Longrightarrow> a < size_of s \<Longrightarrow>
      \<exists>s'. rd a s = Some (view s a, s') \<and> inv s' \<and> size_of s' = size_of s \<and>
           (\<forall>b < size_of s. view s' b = view s b)"
    and wr_ok: "inv s \<Longrightarrow> a < size_of s \<Longrightarrow> length d = 512 \<Longrightarrow>
      \<exists>s'. wr a d s = Some s' \<and> inv s' \<and> size_of s' = size_of s \<and>
           (\<forall>b < size_of s. view s' b = (if b = a then d else view s b))"
begin

text \<open>A sector read back is the sector written last.\<close>

lemma read_after_write:
  assumes "inv s" and "a < size_of s" and "length d = 512"
  shows "\<exists>s' s''. wr a d s = Some s' \<and> rd a s' = Some (d, s'')"
proof -
  obtain s' where s': "wr a d s = Some s'" "inv s'" "size_of s' = size_of s" "view s' a = d"
    using wr_ok [OF assms] assms(2) by auto
  with rd_ok [of s' a] assms(2) show ?thesis by auto
qed

text \<open>Read, modify, write back: the pattern of log replay and of partial sector writes.\<close>

definition rmw :: "block_sector_t \<Rightarrow> nat \<Rightarrow> byte list \<Rightarrow> 's \<Rightarrow> 's option" where
  "rmw a ofs src s = do { (d, s) \<leftarrow> rd a s; wr a (patch ofs src d) s }"

lemma rmw_ok:
  assumes "inv s" and "a < size_of s" and "ofs + length src \<le> 512"
  shows "\<exists>s'. rmw a ofs src s = Some s' \<and> inv s' \<and> size_of s' = size_of s \<and>
    (\<forall>b < size_of s. view s' b = (if b = a then patch ofs src (view s a) else view s b))"
proof -
  obtain s1 where s1: "rd a s = Some (view s a, s1)" "inv s1" "size_of s1 = size_of s"
    "\<forall>b < size_of s. view s1 b = view s b"
    using rd_ok [OF assms(1,2)] by blast
  have "length (patch ofs src (view s a)) = 512"
    using assms view_len [OF assms(1,2)] by simp
  then obtain s2 where "wr a (patch ofs src (view s a)) s1 = Some s2" "inv s2"
    "size_of s2 = size_of s1"
    "\<forall>b < size_of s1. view s2 b = (if b = a then patch ofs src (view s a) else view s1 b)"
    using wr_ok [of s1 a "patch ofs src (view s a)"] s1 assms(2) by auto
  with s1 show ?thesis by (auto simp: rmw_def)
qed

end

section \<open>The raw device is a store of sectors\<close>

definition block_inv :: "'a block_scheme \<Rightarrow> bool" where
  "block_inv s \<longleftrightarrow> dev_type s \<noteq> BLOCK_FOREIGN \<and> (\<forall>a < dev_size s. length (media s a) = 512)"

lemma block_invD [dest]: "block_inv s \<Longrightarrow> a < dev_size s \<Longrightarrow> length (media s a) = 512"
  by (simp add: block_inv_def)

lemma block_read_eq [run_simps]:
  "block_read a s = (if a < dev_size s then Some (media s a, s\<lparr>read_cnt := read_cnt s + 1\<rparr>) else None)"
  by (auto simp: block_read_def check_sector_def not_less)

lemma block_write_eq [run_simps]:
  "block_write a d s =
    (if a < dev_size s \<and> dev_type s \<noteq> BLOCK_FOREIGN
     then Some (s\<lparr>media := (media s)(a := d), write_cnt := write_cnt s + 1\<rparr>) else None)"
  by (auto simp: block_write_def check_sector_def not_less ASSERT_def)

interpretation blk: sector_store
  "block_inv :: 'a block_scheme \<Rightarrow> bool" dev_size media block_read block_write
proof unfold_locales
  fix s :: "'a block_scheme" and a d
  assume "block_inv s" "a < dev_size s"
  then show "length (media s a) = 512" by auto
  from \<open>a < dev_size s\<close> \<open>block_inv s\<close> show
    "\<exists>s'. block_read a s = Some (media s a, s') \<and> block_inv s' \<and> dev_size s' = dev_size s \<and>
          (\<forall>b<dev_size s. media s' b = media s b)"
    by (simp add: block_read_eq block_inv_def)
  assume "length (d :: byte list) = 512"
  with \<open>a < dev_size s\<close> \<open>block_inv s\<close> show
    "\<exists>s'. block_write a d s = Some s' \<and> block_inv s' \<and> dev_size s' = dev_size s \<and>
          (\<forall>b<dev_size s. media s' b = (if b = a then d else media s b))"
    by (simp add: block_write_eq block_inv_def)
qed

end
