(* ===== verification/Wal_Record.thy ===== *)
theory Wal_Record
  imports Block_Device
begin

text \<open>
  Log records of the write-ahead log (\<^verbatim>\<open>filesys/wal.h\<close>, \<^verbatim>\<open>filesys/wal.c\<close>): the structure
  \<^verbatim>\<open>struct wal_record\<close>, its layout as the 512 bytes of a sector, and its CRC-32 checksum.

  The checksum is shown to be the bitwise CRC-32 with polynomial 0xEDB88320 (the table is right), and
  to detect every corruption that is confined to one byte.
\<close>

section \<open>Constants and types\<close>

type_synonym lsn_t = "64 word"
type_synonym txn_id_t = "32 word"

definition WAL_LOG_SECTORS :: nat where "WAL_LOG_SECTORS = 64"
definition WAL_LOG_START_SECTOR :: block_sector_t where "WAL_LOG_START_SECTOR = 2"
definition WAL_METADATA_SECTOR :: block_sector_t where "WAL_METADATA_SECTOR = 66"
definition WAL_BUFFER_SIZE :: nat where "WAL_BUFFER_SIZE = 8 * BLOCK_SECTOR_SIZE"
definition WAL_MAX_DATA_SIZE :: nat where "WAL_MAX_DATA_SIZE = 232"
definition WAL_METADATA_MAGIC :: u32 where "WAL_METADATA_MAGIC = 0xDEADBEEF"

lemma wal_constants [simp]:
  "WAL_LOG_SECTORS = 64" "WAL_LOG_START_SECTOR = 2" "WAL_METADATA_SECTOR = 66"
  "WAL_BUFFER_SIZE = 4096" "WAL_MAX_DATA_SIZE = 232"
  by (simp_all add: WAL_LOG_SECTORS_def WAL_LOG_START_SECTOR_def WAL_METADATA_SECTOR_def
      WAL_BUFFER_SIZE_def WAL_MAX_DATA_SIZE_def)

text \<open>
  The record type is stored as the 32-bit value of the enumeration; a record read from disk can
  hold any value there, so the field is a word and the enumeration maps into it.
\<close>

datatype wal_record_type = WAL_INVALID | WAL_BEGIN | WAL_COMMIT | WAL_ABORT | WAL_WRITE | WAL_CHECKPOINT

primrec type_code :: "wal_record_type \<Rightarrow> u32" where
  "type_code WAL_INVALID = 0"
| "type_code WAL_BEGIN = 1"
| "type_code WAL_COMMIT = 2"
| "type_code WAL_ABORT = 3"
| "type_code WAL_WRITE = 4"
| "type_code WAL_CHECKPOINT = 5"

record wal_record =
  lsn :: lsn_t
  rec_txn :: txn_id_t
  rec_type :: u32
  checksum :: u32
  rec_sector :: block_sector_t
  rec_offset :: u16
  rec_length :: u16
  old_data :: "byte list"
  new_data :: "byte list"
  padding :: "byte list"

text \<open>A record on the stack after \<^verbatim>\<open>memset(&rec, 0, sizeof rec)\<close>.\<close>

definition zero_record :: wal_record where
  "zero_record = \<lparr>lsn = 0, rec_txn = 0, rec_type = 0, checksum = 0, rec_sector = 0, rec_offset = 0,
     rec_length = 0, old_data = replicate 232 0, new_data = replicate 232 0, padding = replicate 20 0\<rparr>"

definition wal_record_wf :: "wal_record \<Rightarrow> bool" where
  "wal_record_wf r \<longleftrightarrow> length (old_data r) = 232 \<and> length (new_data r) = 232 \<and> length (padding r) = 20"

section \<open>Layout\<close>

definition encode :: "wal_record \<Rightarrow> byte list" where
  "encode r = le_bytes 8 (lsn r) @ le_bytes 4 (rec_txn r) @ le_bytes 4 (rec_type r) @
     le_bytes 4 (checksum r) @ le_bytes 4 (rec_sector r) @ le_bytes 2 (rec_offset r) @
     le_bytes 2 (rec_length r) @ old_data r @ new_data r @ padding r"

definition bytes_at :: "nat \<Rightarrow> nat \<Rightarrow> 'a list \<Rightarrow> 'a list" where
  "bytes_at ofs n bs = take n (drop ofs bs)"

definition decode :: "byte list \<Rightarrow> wal_record" where
  "decode bs = \<lparr>lsn = le_word (bytes_at 0 8 bs), rec_txn = le_word (bytes_at 8 4 bs),
     rec_type = le_word (bytes_at 12 4 bs), checksum = le_word (bytes_at 16 4 bs),
     rec_sector = le_word (bytes_at 20 4 bs), rec_offset = le_word (bytes_at 24 2 bs),
     rec_length = le_word (bytes_at 26 2 bs), old_data = bytes_at 28 232 bs, new_data = bytes_at 260 232 bs,
     padding = bytes_at 492 20 bs\<rparr>"

lemma length_encode [simp]: "wal_record_wf r \<Longrightarrow> length (encode r) = 512"
  by (simp add: encode_def wal_record_wf_def)

lemma decode_wf: "length bs = 512 \<Longrightarrow> wal_record_wf (decode bs)"
  by (simp add: wal_record_wf_def decode_def bytes_at_def)

lemma decode_encode [simp]: "wal_record_wf r \<Longrightarrow> decode (encode r) = r"
  by (simp add: decode_def encode_def bytes_at_def wal_record_wf_def le_word_le_bytes)

lemma encode_decode:
  assumes "length bs = 512"
  shows "encode (decode bs) = bs"
proof -
  have cut: "bytes_at k n bs @ drop (k + n) bs = drop k bs" for k n
    unfolding bytes_at_def by (metis append_take_drop_id drop_drop add.commute)
  have "encode (decode bs) = bytes_at 0 8 bs @ bytes_at 8 4 bs @ bytes_at 12 4 bs @ bytes_at 16 4 bs @ bytes_at 20 4 bs @
     bytes_at 24 2 bs @ bytes_at 26 2 bs @ bytes_at 28 232 bs @ bytes_at 260 232 bs @ bytes_at 492 20 bs"
    using assms by (simp add: encode_def decode_def bytes_at_def le_bytes_le_word)
  also have "bytes_at 492 20 bs = bytes_at 492 20 bs @ drop 512 bs" using assms by simp
  finally show ?thesis
    using cut [of 0 8] cut [of 8 4] cut [of 12 4] cut [of 16 4] cut [of 20 4] cut [of 24 2] cut [of 26 2]
      cut [of 28 232] cut [of 260 232] cut [of 492 20] by simp
qed

section \<open>The checksum\<close>

definition crc32_table :: "u32 list" where
  "crc32_table = [
     0, 0x77073096, 0xEE0E612C, 0x990951BA, 0x76DC419, 0x706AF48F, 0xE963A535, 0x9E6495A3,
     0xEDB8832, 0x79DCB8A4, 0xE0D5E91E, 0x97D2D988, 0x9B64C2B, 0x7EB17CBD, 0xE7B82D07, 0x90BF1D91,
     0x1DB71064, 0x6AB020F2, 0xF3B97148, 0x84BE41DE, 0x1ADAD47D, 0x6DDDE4EB, 0xF4D4B551, 0x83D385C7,
     0x136C9856, 0x646BA8C0, 0xFD62F97A, 0x8A65C9EC, 0x14015C4F, 0x63066CD9, 0xFA0F3D63, 0x8D080DF5,
     0x3B6E20C8, 0x4C69105E, 0xD56041E4, 0xA2677172, 0x3C03E4D1, 0x4B04D447, 0xD20D85FD, 0xA50AB56B,
     0x35B5A8FA, 0x42B2986C, 0xDBBBC9D6, 0xACBCF940, 0x32D86CE3, 0x45DF5C75, 0xDCD60DCF, 0xABD13D59,
     0x26D930AC, 0x51DE003A, 0xC8D75180, 0xBFD06116, 0x21B4F4B5, 0x56B3C423, 0xCFBA9599, 0xB8BDA50F,
     0x2802B89E, 0x5F058808, 0xC60CD9B2, 0xB10BE924, 0x2F6F7C87, 0x58684C11, 0xC1611DAB, 0xB6662D3D,
     0x76DC4190, 0x1DB7106, 0x98D220BC, 0xEFD5102A, 0x71B18589, 0x6B6B51F, 0x9FBFE4A5, 0xE8B8D433,
     0x7807C9A2, 0xF00F934, 0x9609A88E, 0xE10E9818, 0x7F6A0DBB, 0x86D3D2D, 0x91646C97, 0xE6635C01,
     0x6B6B51F4, 0x1C6C6162, 0x856530D8, 0xF262004E, 0x6C0695ED, 0x1B01A57B, 0x8208F4C1, 0xF50FC457,
     0x65B0D9C6, 0x12B7E950, 0x8BBEB8EA, 0xFCB9887C, 0x62DD1DDF, 0x15DA2D49, 0x8CD37CF3, 0xFBD44C65,
     0x4DB26158, 0x3AB551CE, 0xA3BC0074, 0xD4BB30E2, 0x4ADFA541, 0x3DD895D7, 0xA4D1C46D, 0xD3D6F4FB,
     0x4369E96A, 0x346ED9FC, 0xAD678846, 0xDA60B8D0, 0x44042D73, 0x33031DE5, 0xAA0A4C5F, 0xDD0D7CC9,
     0x5005713C, 0x270241AA, 0xBE0B1010, 0xC90C2086, 0x5768B525, 0x206F85B3, 0xB966D409, 0xCE61E49F,
     0x5EDEF90E, 0x29D9C998, 0xB0D09822, 0xC7D7A8B4, 0x59B33D17, 0x2EB40D81, 0xB7BD5C3B, 0xC0BA6CAD,
     0xEDB88320, 0x9ABFB3B6, 0x3B6E20C, 0x74B1D29A, 0xEAD54739, 0x9DD277AF, 0x4DB2615, 0x73DC1683,
     0xE3630B12, 0x94643B84, 0xD6D6A3E, 0x7A6A5AA8, 0xE40ECF0B, 0x9309FF9D, 0xA00AE27, 0x7D079EB1,
     0xF00F9344, 0x8708A3D2, 0x1E01F268, 0x6906C2FE, 0xF762575D, 0x806567CB, 0x196C3671, 0x6E6B06E7,
     0xFED41B76, 0x89D32BE0, 0x10DA7A5A, 0x67DD4ACC, 0xF9B9DF6F, 0x8EBEEFF9, 0x17B7BE43, 0x60B08ED5,
     0xD6D6A3E8, 0xA1D1937E, 0x38D8C2C4, 0x4FDFF252, 0xD1BB67F1, 0xA6BC5767, 0x3FB506DD, 0x48B2364B,
     0xD80D2BDA, 0xAF0A1B4C, 0x36034AF6, 0x41047A60, 0xDF60EFC3, 0xA867DF55, 0x316E8EEF, 0x4669BE79,
     0xCB61B38C, 0xBC66831A, 0x256FD2A0, 0x5268E236, 0xCC0C7795, 0xBB0B4703, 0x220216B9, 0x5505262F,
     0xC5BA3BBE, 0xB2BD0B28, 0x2BB45A92, 0x5CB36A04, 0xC2D7FFA7, 0xB5D0CF31, 0x2CD99E8B, 0x5BDEAE1D,
     0x9B64C2B0, 0xEC63F226, 0x756AA39C, 0x26D930A, 0x9C0906A9, 0xEB0E363F, 0x72076785, 0x5005713,
     0x95BF4A82, 0xE2B87A14, 0x7BB12BAE, 0xCB61B38, 0x92D28E9B, 0xE5D5BE0D, 0x7CDCEFB7, 0xBDBDF21,
     0x86D3D2D4, 0xF1D4E242, 0x68DDB3F8, 0x1FDA836E, 0x81BE16CD, 0xF6B9265B, 0x6FB077E1, 0x18B74777,
     0x88085AE6, 0xFF0F6A70, 0x66063BCA, 0x11010B5C, 0x8F659EFF, 0xF862AE69, 0x616BFFD3, 0x166CCF45,
     0xA00AE278, 0xD70DD2EE, 0x4E048354, 0x3903B3C2, 0xA7672661, 0xD06016F7, 0x4969474D, 0x3E6E77DB,
     0xAED16A4A, 0xD9D65ADC, 0x40DF0B66, 0x37D83BF0, 0xA9BCAE53, 0xDEBB9EC5, 0x47B2CF7F, 0x30B5FFE9,
     0xBDBDF21C, 0xCABAC28A, 0x53B39330, 0x24B4A3A6, 0xBAD03605, 0xCDD70693, 0x54DE5729, 0x23D967BF,
     0xB3667A2E, 0xC4614AB8, 0x5D681B02, 0x2A6F2B94, 0xB40BBE37, 0xC30C8EA1, 0x5A05DF1B, 0x2D02EF8D]"

definition crc32_step :: "u32 \<Rightarrow> byte \<Rightarrow> u32" where
  "crc32_step crc b = drop_bit 8 crc XOR crc32_table ! unat ((crc XOR ucast b) AND 0xFF)"

definition wal_calculate_checksum :: "wal_record \<Rightarrow> u32" where
  "wal_calculate_checksum record =
    (let bytes = encode record;
         crc = foldl crc32_step 0xFFFFFFFF (take 16 bytes);
         crc = foldl crc32_step crc (drop 20 bytes)
     in NOT crc)"

text \<open>The test a record read from the log must pass: \<^verbatim>\<open>checksum\<close> is cleared, the CRC computed, and compared.\<close>

definition checksum_ok :: "wal_record \<Rightarrow> bool" where
  "checksum_ok rec \<longleftrightarrow> checksum rec = wal_calculate_checksum (rec\<lparr>checksum := 0\<rparr>)"

text \<open>The reference: one bit at a time.\<close>

definition crc_bit :: "u32 \<Rightarrow> u32" where
  "crc_bit c = (if bit c 0 then drop_bit 1 c XOR 0xEDB88320 else drop_bit 1 c)"

definition crc_bytes :: "u32 \<Rightarrow> byte list \<Rightarrow> u32" where
  "crc_bytes crc bs = foldl (\<lambda>c b. (crc_bit ^^ 8) (c XOR ucast b)) crc bs"

text \<open>The same step on integers, on which the table can be computed.\<close>

definition crc_bit_int :: "int \<Rightarrow> int" where
  "crc_bit_int c = (if odd c then c div 2 XOR 0xEDB88320 else c div 2)"

lemma crc_bit_of_int:
  assumes "0 \<le> c" "c < 2 ^ 32"
  shows "crc_bit (word_of_int c) = word_of_int (crc_bit_int c)"
proof -
  have "c div 2 ^ 32 = 0" using assms by (simp add: div_pos_pos_trivial)
  then have top: "\<not> bit c 32" by (simp add: bit_iff_odd)
  have "drop_bit 1 (word_of_int c :: u32) = word_of_int (c div 2)"
  proof (rule bit_word_eqI)
    fix n assume "n < LENGTH(32)"
    then have "n = 31 \<or> Suc n < 32" by auto
    with top show "bit (drop_bit 1 (word_of_int c :: u32)) n = bit (word_of_int (c div 2) :: u32) n"
      by (auto simp: bit_drop_bit_eq bit_word_of_int_iff simp flip: bit_Suc)
  qed
  moreover have "bit (word_of_int c :: u32) 0 \<longleftrightarrow> odd c" by (subst bit_word_of_int_iff) (simp add: bit_0)
  moreover have "(0xEDB88320 :: u32) = word_of_int 0xEDB88320" by simp
  moreover have "(word_of_int (c div 2) :: u32) XOR word_of_int 0xEDB88320 = word_of_int (c div 2 XOR 0xEDB88320)"
    by (simp only: of_int_xor_eq)
  ultimately show ?thesis unfolding crc_bit_def crc_bit_int_def by (cases "odd c") (simp_all only: if_True if_False not_False_eq_True)
qed

lemma crc_bit_int_range:
  assumes "0 \<le> c" "c < 2 ^ 32"
  shows "0 \<le> crc_bit_int c" "crc_bit_int c < 2 ^ 32"
proof -
  have c: "0 \<le> c div 2" "c div 2 < 2 ^ 32" using assms by auto
  have "c div 2 XOR 0xEDB88320 < 2 ^ 32" by (rule XOR_upper [OF c]) simp
  moreover have "0 \<le> c div 2 XOR 0xEDB88320" by (rule XOR_lower [OF c(1)]) simp
  ultimately show "0 \<le> crc_bit_int c" "crc_bit_int c < 2 ^ 32"
    using c by (auto simp: crc_bit_int_def)
qed

lemma crc_bit_int_funpow:
  assumes "0 \<le> c" "c < 2 ^ 32"
  shows "0 \<le> (crc_bit_int ^^ n) c \<and> (crc_bit_int ^^ n) c < 2 ^ 32 \<and>
    (crc_bit ^^ n) (word_of_int c) = word_of_int ((crc_bit_int ^^ n) c)"
proof (induction n)
  case (Suc n)
  then show ?case
    using crc_bit_of_int [of "(crc_bit_int ^^ n) c"] crc_bit_int_range [of "(crc_bit_int ^^ n) c"] by simp
qed (use assms in simp)

lemma funpow_8: "(f ^^ 8) x = f (f (f (f (f (f (f (f x)))))))"
  by (simp add: numeral_eq_Suc)

lemma crc32_table_int: "map uint crc32_table = map (crc_bit_int ^^ 8) [0..255]"
  by (simp add: crc32_table_def upto.simps [of 0] upto.simps [of 1]) (simp add: funpow_8 crc_bit_int_def)

lemma crc32_table_eq:
  assumes "i < 256"
  shows "crc32_table ! i = (crc_bit ^^ 8) (word_of_nat i)"
proof -
  have "length (map uint crc32_table) = 256" unfolding crc32_table_int by simp
  then have len: "i < length crc32_table" using assms by simp
  then have "uint (crc32_table ! i) = map uint crc32_table ! i" by simp
  also have "\<dots> = (crc_bit_int ^^ 8) (int i)" unfolding crc32_table_int using assms by simp
  finally have "crc32_table ! i = word_of_int ((crc_bit_int ^^ 8) (int i))" by (metis word_of_int_uint)
  also have "\<dots> = (crc_bit ^^ 8) (word_of_int (int i))"
    using crc_bit_int_funpow [of "int i" 8] assms by simp
  finally show ?thesis by simp
qed

lemma crc_bit_xor: "crc_bit (a XOR b) = crc_bit a XOR crc_bit b"
  unfolding crc_bit_def by (rule bit_word_eqI) (auto simp: bit_simps)

lemma crc_bit_funpow_xor: "(crc_bit ^^ n) (a XOR b) = (crc_bit ^^ n) a XOR (crc_bit ^^ n) b"
  by (induction n) (simp_all add: crc_bit_xor)

lemma crc_bit_funpow_high:
  assumes "\<forall>i < n. \<not> bit c i"
  shows "(crc_bit ^^ n) c = drop_bit n c"
  using assms
proof (induction n)
  case (Suc n)
  then have "(crc_bit ^^ n) c = drop_bit n c" by simp
  moreover have "\<not> bit (drop_bit n c) 0" using Suc.prems by (simp add: bit_simps)
  ultimately show ?case by (simp add: crc_bit_def [of "drop_bit n c"])
qed simp

lemma crc32_step_eq: "crc32_step c b = (crc_bit ^^ 8) (c XOR ucast b)"
proof -
  let ?x = "c XOR ucast b"
  let ?l = "?x AND 0xFF" and ?h = "?x AND NOT 0xFF"
  have split: "?x = ?h XOR ?l" by (rule bit_word_eqI) (auto simp: bit_simps)
  have mask: "(0xFF :: u32) = mask 8" by (simp add: mask_eq_decr_exp)
  have h: "(crc_bit ^^ 8) ?h = drop_bit 8 ?h"
    by (rule crc_bit_funpow_high) (simp add: mask bit_simps)
  have hc: "drop_bit 8 ?h = drop_bit 8 c"
    unfolding mask by (rule bit_word_eqI) (auto simp: bit_simps dest: bit_imp_le_length)
  have "unat ?l = take_bit 8 (unat ?x)"
    unfolding mask by (simp only: take_bit_eq_mask [symmetric] unsigned_take_bit_eq)
  then have "unat ?l < 256" using take_bit_nat_less_exp [of 8 "unat ?x"] by simp
  then have "crc32_table ! unat ?l = (crc_bit ^^ 8) ?l" by (simp add: crc32_table_eq)
  moreover have "(crc_bit ^^ 8) ?x = (crc_bit ^^ 8) (?h XOR ?l)" using split by (rule arg_cong)
  ultimately show ?thesis
    unfolding crc32_step_def by (simp only: crc_bit_funpow_xor h hc)
qed

lemma xor_eq_0_word: "a XOR b = 0 \<longleftrightarrow> a = b" for a b :: "'a::len word"
  by (metis xor.assoc xor_self_eq xor.right_neutral xor.left_neutral)

lemma bit_ucast_byte: "bit (ucast a :: u32) n \<longleftrightarrow> bit a n" for a :: byte
  by (auto simp: bit_simps dest: bit_imp_le_length)

lemma ucast_byte_inj: "(ucast a :: u32) = ucast b \<longleftrightarrow> a = b" for a b :: byte
  by (metis bit_ucast_byte bit_word_eqI)

lemma crc_bit_eq_0:
  assumes "crc_bit x = 0"
  shows "x = 0"
proof (cases "bit x 0")
  case True
  then have "drop_bit 1 x = 0xEDB88320" using assms by (simp add: crc_bit_def xor_eq_0_word)
  moreover have "\<not> bit (drop_bit 1 x) 31" by (auto simp: bit_simps dest: bit_imp_le_length)
  moreover have "bit (0xEDB88320 :: u32) 31" by (simp add: bit_numeral_word_iff)
  ultimately show ?thesis by simp
next
  case False
  then have d: "drop_bit 1 x = 0" using assms by (simp add: crc_bit_def)
  show ?thesis
  proof (rule bit_word_eqI)
    fix n assume "n < LENGTH(32)"
    show "bit x n = bit (0 :: u32) n"
    proof (cases n)
      case (Suc m)
      then have "bit x n = bit (drop_bit 1 x) m" by (simp add: bit_simps)
      with d show ?thesis by simp
    qed (use False in simp)
  qed
qed

lemma crc_bit_inj: "crc_bit a = crc_bit b \<longleftrightarrow> a = b"
  using crc_bit_eq_0 [of "a XOR b"] by (auto simp: crc_bit_xor xor_eq_0_word)

lemma crc_bit_funpow_inj: "(crc_bit ^^ n) a = (crc_bit ^^ n) b \<longleftrightarrow> a = b"
  by (induction n) (simp_all only: funpow.simps comp_apply id_apply crc_bit_inj)

lemma xor_cancel_word:
  "a XOR c = b XOR c \<longleftrightarrow> a = b" "c XOR a = c XOR b \<longleftrightarrow> a = b" for a b c :: "'a::len word"
  by (metis xor.assoc xor_self_eq xor.right_neutral xor.left_neutral)+

lemma crc_bytes_Cons: "crc_bytes c (b # bs) = crc_bytes ((crc_bit ^^ 8) (c XOR ucast b)) bs"
  by (simp add: crc_bytes_def)

lemma crc_bytes_inj: "crc_bytes a bs = crc_bytes b bs \<longleftrightarrow> a = b"
  by (induction bs arbitrary: a b) (simp_all add: crc_bytes_Cons crc_bit_funpow_inj xor_cancel_word, simp add: crc_bytes_def)

lemma crc_bytes_append: "crc_bytes c (xs @ ys) = crc_bytes (crc_bytes c xs) ys"
  by (simp add: crc_bytes_def)

text \<open>Changing one byte changes the CRC.\<close>

lemma crc_bytes_update:
  assumes "i < length bs" and "b \<noteq> bs ! i"
  shows "crc_bytes c (bs[i := b]) \<noteq> crc_bytes c bs"
proof -
  have l: "bs = take i bs @ bs ! i # drop (Suc i) bs" using assms(1) by (rule id_take_nth_drop)
  have r: "bs[i := b] = take i bs @ b # drop (Suc i) bs" using assms(1) by (rule upd_conv_take_nth_drop)
  have "(ucast b :: u32) \<noteq> ucast (bs ! i)"
    using assms(2) by (simp add: ucast_byte_inj)
  then show ?thesis
    unfolding r by (subst (3) l)
      (simp add: crc_bytes_append crc_bytes_Cons crc_bytes_inj crc_bit_funpow_inj xor_cancel_word)
qed

text \<open>The checksum as the bitwise CRC of the 508 bytes around the checksum field.\<close>

definition record_crc :: "byte list \<Rightarrow> u32" where
  "record_crc bs = NOT (crc_bytes 0xFFFFFFFF (take 16 bs @ drop 20 bs))"

lemma wal_calculate_checksum_crc: "wal_calculate_checksum r = record_crc (encode r)"
proof -
  have "crc32_step = (\<lambda>c b. (crc_bit ^^ 8) (c XOR ucast b))" by (simp add: fun_eq_iff crc32_step_eq)
  then show ?thesis by (simp add: wal_calculate_checksum_def record_crc_def crc_bytes_def Let_def)
qed

lemma record_crc_checksum: "record_crc (encode (r\<lparr>checksum := c\<rparr>)) = record_crc (encode r)"
  by (simp add: record_crc_def encode_def)

lemma checksum_ok_crc: "checksum_ok r \<longleftrightarrow> checksum r = record_crc (encode r)"
  by (simp add: checksum_ok_def wal_calculate_checksum_crc record_crc_checksum)

lemma take_drop_update:
  "k \<le> i \<Longrightarrow> take k (bs[i := b]) = take k bs" "i < k \<Longrightarrow> drop k (bs[i := b]) = drop k bs"
  "i < k \<Longrightarrow> take k (bs[i := b]) = (take k bs)[i := b]"
  "k \<le> i \<Longrightarrow> drop k (bs[i := b]) = (drop k bs)[i - k := b]"
  by (simp_all add: take_update_swap drop_update_swap list_update_beyond)

lemma record_crc_update:
  assumes "i < 512" "length bs = 512" "b \<noteq> bs ! i" "i < 16 \<or> 20 \<le> i"
  shows "record_crc (bs[i := b]) \<noteq> record_crc bs"
proof -
  let ?j = "if i < 16 then i else i - 4"
  have "take 16 (bs[i := b]) @ drop 20 (bs[i := b]) = (take 16 bs @ drop 20 bs)[?j := b]"
    using assms by (auto simp: take_drop_update list_update_append)
  moreover have "(take 16 bs @ drop 20 bs) ! ?j = bs ! i" using assms by (auto simp: nth_append)
  moreover have "?j < length (take 16 bs @ drop 20 bs)" using assms by auto
  ultimately have "crc_bytes 0xFFFFFFFF (take 16 (bs[i := b]) @ drop 20 (bs[i := b])) \<noteq>
      crc_bytes 0xFFFFFFFF (take 16 bs @ drop 20 bs)"
    using crc_bytes_update [of ?j "take 16 bs @ drop 20 bs" b] assms(3) by simp
  then show ?thesis unfolding record_crc_def by (metis bit.double_compl)
qed

lemma single_byte_detected:
  assumes "wal_record_wf r" "checksum_ok r" and "i < 512" "b \<noteq> encode r ! i"
  shows "\<not> checksum_ok (decode ((encode r)[i := b]))"
proof -
  let ?bs = "encode r" let ?cs = "?bs[i := b]"
  have len: "length ?bs = 512" using assms(1) by simp
  have ok: "checksum_ok (decode x) \<longleftrightarrow> le_word (bytes_at 16 4 x) = record_crc x" if "length x = 512" for x
    using that by (simp add: checksum_ok_crc encode_decode) (simp add: decode_def)
  show ?thesis
  proof (cases "i < 16 \<or> 20 \<le> i")
    case True
    then have "bytes_at 16 4 ?cs = bytes_at 16 4 ?bs"
      unfolding bytes_at_def by (auto simp: take_drop_update)
    moreover have "record_crc ?cs \<noteq> record_crc ?bs" using True assms len by (intro record_crc_update)
    ultimately show ?thesis using ok [of ?bs] ok [of ?cs] assms(1,2) len by simp
  next
    case False
    then have s: "bytes_at 16 4 ?cs = (bytes_at 16 4 ?bs)[i - 16 := b]"
      unfolding bytes_at_def by (simp add: drop_update_swap take_update_swap)
    have j: "i - 16 < 4" "16 + (i - 16) = i" using False by auto
    then have n: "bytes_at 16 4 ?bs ! (i - 16) = ?bs ! i" and l: "length (bytes_at 16 4 ?bs) = 4"
      using len by (simp_all add: bytes_at_def)
    have l': "length (bytes_at 16 4 ?cs) = 4" using l s by simp
    have "bytes_at 16 4 ?cs ! (i - 16) = b" using s l j(1) by simp
    with n assms(4) have ne: "bytes_at 16 4 ?cs \<noteq> bytes_at 16 4 ?bs" by auto
    have le4: "le_bytes 4 (le_word x :: u32) = x" if "length x = 4" for x
      by (rule le_bytes_le_word) (simp_all add: that)
    have "(le_word (bytes_at 16 4 ?cs) :: u32) \<noteq> le_word (bytes_at 16 4 ?bs)"
      using ne le4 [OF l] le4 [OF l'] by metis
    moreover have "record_crc ?cs = record_crc ?bs"
      using False unfolding record_crc_def by (simp add: take_drop_update)
    ultimately show ?thesis using ok [of ?bs] ok [of ?cs] assms(1,2) len by simp
  qed
qed

text \<open>The record as it enters the log: with its LSN and, computed after that, its checksum.\<close>

definition seal :: "lsn_t \<Rightarrow> wal_record \<Rightarrow> wal_record" where
  "seal n r = (let r = r\<lparr>lsn := n, checksum := 0\<rparr> in r\<lparr>checksum := wal_calculate_checksum r\<rparr>)"

lemma seal_simps [simp]:
  "lsn (seal n r) = n" "rec_txn (seal n r) = rec_txn r" "rec_type (seal n r) = rec_type r"
  "rec_sector (seal n r) = rec_sector r" "rec_offset (seal n r) = rec_offset r"
  "rec_length (seal n r) = rec_length r" "old_data (seal n r) = old_data r" "new_data (seal n r) = new_data r"
  "padding (seal n r) = padding r" "wal_record_wf (seal n r) = wal_record_wf r"
  by (simp_all add: seal_def Let_def wal_record_wf_def)

lemma checksum_ok_seal [simp]: "checksum_ok (seal n r)"
  by (simp add: checksum_ok_def seal_def Let_def)

lemma zero_record_wf [simp]: "wal_record_wf zero_record"
  by (simp add: wal_record_wf_def zero_record_def)

section \<open>Properties\<close>



text \<open>
  (C7) The table-driven checksum is CRC-32: \<^verbatim>\<open>wal_calculate_checksum\<close>, which folds the 256-entry
  table over the record's bytes, computes the CRC with the reflected polynomial 0xEDB88320 one bit at
  a time over the 508 bytes outside the checksum field, and does not depend on that field.
\<close>

theorem wal_checksum_is_crc32:
  "wal_calculate_checksum r = record_crc (encode r) \<and>
   wal_calculate_checksum (r\<lparr>checksum := c\<rparr>) = wal_calculate_checksum r"
  by (simp add: wal_calculate_checksum_crc record_crc_checksum)

text \<open>
  (C8) Corruption of one byte is detected: if a record passes the checksum test, then after replacing
  any single one of its 512 bytes on disk by a different value the record read back fails the test.
\<close>

theorem wal_checksum_detects_corruption:
  assumes "wal_record_wf r" "checksum_ok r" and "i < BLOCK_SECTOR_SIZE" "b \<noteq> encode r ! i"
  shows "\<not> checksum_ok (decode ((encode r)[i := b]))"
  using assms by (simp add: single_byte_detected)

lemma wal_checksum_detects_corruption_witness:
  "\<not> checksum_ok (decode ((encode (seal 5 zero_record))[0 := 77]))"
proof -
  have "encode (seal 5 zero_record) ! 0 = 5" by (simp add: encode_def nth_append nth_le_bytes)
  then show ?thesis
    using wal_checksum_detects_corruption [of "seal 5 zero_record" 0 77] by simp
qed

end
