(* ===== verification/Buffer_Cache.thy ===== *)
theory Buffer_Cache
  imports Block_Device
begin

text \<open>
  The buffer cache (\<^verbatim>\<open>filesys/cache.c\<close>) with its prefetch queue
  (\<^verbatim>\<open>filesys/cache_prefetch.c\<close>): 64 write-back entries over the block device, clock eviction,
  a periodic flush and a queue of sectors to load ahead.

  Each operation is one definition over the whole state, as one thread executes it; the two-level
  locking makes these operations atomic for the entry they touch, and the locks themselves are not
  part of the state. An entry in state \<^verbatim>\<open>CACHE_LOADING\<close> is owned by a thread that is still
  reading it: a call that finds one waits for that thread, so alone it does not return.

  \<open>cache_view\<close> is the abstract contents: what a reader sees. The main results are that the cache is a
  \<open>sector_store\<close> for that view, that clock eviction always finds a victim, and that a flush makes the
  device hold exactly the view.
\<close>

section \<open>State\<close>

definition CACHE_SIZE :: nat where
  "CACHE_SIZE = 64"

definition PREFETCH_QUEUE_SIZE :: nat where
  "PREFETCH_QUEUE_SIZE = 16"

lemma CACHE_SIZE_simp [simp]: "CACHE_SIZE = 64"
  by (simp add: CACHE_SIZE_def)

lemma PREFETCH_QUEUE_SIZE_simp [simp]: "PREFETCH_QUEUE_SIZE = 16"
  by (simp add: PREFETCH_QUEUE_SIZE_def)

datatype cache_state = CACHE_INVALID | CACHE_LOADING | CACHE_VALID

datatype cache_replacement_policy = CACHE_REPLACE_CLOCK | CACHE_REPLACE_FIFO

record cache_entry =
  ce_sector :: block_sector_t
  ce_state :: cache_state
  ce_dirty :: bool
  ce_accessed :: bool
  ce_data :: "byte list"

record cache = block +
  entries :: "cache_entry list"
  clock_hand :: nat
  fifo_hand :: nat
  replacement_policy :: cache_replacement_policy
  cache_hits :: int
  cache_misses :: int
  cache_evictions :: int
  cache_writebacks :: int
  flusher_running :: bool
  prefetch_queue :: "block_sector_t list"
  prefetch_head :: nat
  prefetch_tail :: nat
  prefetcher_running :: bool

abbreviation ent :: "'a cache_scheme \<Rightarrow> nat \<Rightarrow> cache_entry" where
  "ent s i \<equiv> entries s ! i"

definition put_ent :: "nat \<Rightarrow> cache_entry \<Rightarrow> 'a cache_scheme \<Rightarrow> 'a cache_scheme" where
  "put_ent i e s = s\<lparr>entries := (entries s)[i := e]\<rparr>"

section \<open>The prefetch queue\<close>

definition cache_prefetch_init :: "'a cache_scheme \<Rightarrow> 'a cache_scheme" where
  "cache_prefetch_init s = s\<lparr>prefetch_head := 0, prefetch_tail := 0, prefetcher_running := True\<rparr>"

definition cache_prefetch_shutdown :: "'a cache_scheme \<Rightarrow> 'a cache_scheme" where
  "cache_prefetch_shutdown s = s\<lparr>prefetcher_running := False\<rparr>"

definition cache_request_prefetch :: "block_sector_t \<Rightarrow> 'a cache_scheme \<Rightarrow> 'a cache_scheme" where
  "cache_request_prefetch sector s =
    (let next_tail = (prefetch_tail s + 1) mod PREFETCH_QUEUE_SIZE in
     if next_tail \<noteq> prefetch_head s
     then s\<lparr>prefetch_queue := (prefetch_queue s)[prefetch_tail s := sector], prefetch_tail := next_tail\<rparr>
     else s)"

section \<open>Eviction\<close>

text \<open>\<open>scans\<close> is the loop's counter; the loop panics when it exceeds twice the cache size.\<close>

function evict_clock :: "nat \<Rightarrow> 'a cache_scheme \<Rightarrow> (nat \<times> 'a cache_scheme) option" where
  "evict_clock scans s =
    (let h = clock_hand s; e = ent s h; h' = (h + 1) mod CACHE_SIZE in
     if ce_state e = CACHE_VALID \<and> \<not> ce_accessed e then Some (h, s\<lparr>clock_hand := h'\<rparr>)
     else let s = (if ce_state e = CACHE_VALID then put_ent h (e\<lparr>ce_accessed := False\<rparr>) s else s);
              s = s\<lparr>clock_hand := h'\<rparr>
          in if scans + 1 > 2 * CACHE_SIZE then None else evict_clock (scans + 1) s)"
  by pat_completeness auto
termination
  by (relation "measure (\<lambda>(scans, s). 2 * CACHE_SIZE + 1 - scans)") auto

declare evict_clock.simps [simp del]

text \<open>The FIFO policy loops until it is back at \<open>start\<close>.\<close>

partial_function (option) evict_fifo_loop ::
  "nat \<Rightarrow> 'a cache_scheme \<Rightarrow> (nat \<times> 'a cache_scheme) option" where
  "evict_fifo_loop start s =
    (let h = fifo_hand s; s' = s\<lparr>fifo_hand := (h + 1) mod CACHE_SIZE\<rparr> in
     if ce_state (ent s h) = CACHE_VALID then Some (h, s')
     else if fifo_hand s' = start then None
     else evict_fifo_loop start s')"

definition evict_fifo :: "'a cache_scheme \<Rightarrow> (nat \<times> 'a cache_scheme) option" where
  "evict_fifo s = evict_fifo_loop (fifo_hand s) s"

definition select_victim :: "'a cache_scheme \<Rightarrow> (nat \<times> 'a cache_scheme) option" where
  "select_victim s = (case replacement_policy s of
     CACHE_REPLACE_CLOCK \<Rightarrow> evict_clock 0 s
   | CACHE_REPLACE_FIFO \<Rightarrow> evict_fifo s)"

definition cache_lookup :: "block_sector_t \<Rightarrow> 'a cache_scheme \<Rightarrow> nat option" where
  "cache_lookup sector s =
    find (\<lambda>i. ce_state (ent s i) \<noteq> CACHE_INVALID \<and> ce_sector (ent s i) = sector) [0..<CACHE_SIZE]"

definition cache_evict :: "'a cache_scheme \<Rightarrow> (nat \<times> 'a cache_scheme) option" where
  "cache_evict s =
    (case find (\<lambda>i. ce_state (ent s i) = CACHE_INVALID) [0..<CACHE_SIZE] of
       Some i \<Rightarrow> Some (i, s)
     | None \<Rightarrow> do {
         (v, s) \<leftarrow> select_victim s;
         let s = s\<lparr>cache_evictions := cache_evictions s + 1\<rparr>;
         let e = ent s v;
         if ce_dirty e \<and> ce_state e = CACHE_VALID
         then do {
           let s = s\<lparr>cache_writebacks := cache_writebacks s + 1\<rparr>;
           s \<leftarrow> block_write (ce_sector e) (ce_data e) s;
           Some (v, put_ent v (e\<lparr>ce_dirty := False\<rparr>) s)
         }
         else Some (v, s)
       })"

section \<open>Reading and writing\<close>

text \<open>
  The miss path that \<^verbatim>\<open>cache_read\<close>, \<^verbatim>\<open>cache_read_at\<close> and \<^verbatim>\<open>cache_do_prefetch\<close> share: take a
  slot, reserve it, read the sector into it, make it valid with the given accessed bit.
\<close>

definition cache_load :: "block_sector_t \<Rightarrow> bool \<Rightarrow> 'a cache_scheme \<Rightarrow> (nat \<times> 'a cache_scheme) option" where
  "cache_load sector acc s = do {
     (slot, s) \<leftarrow> cache_evict s;
     let s = put_ent slot ((ent s slot)\<lparr>ce_state := CACHE_LOADING, ce_sector := sector, ce_dirty := False\<rparr>) s;
     (d, s) \<leftarrow> block_read sector s;
     let s = put_ent slot ((ent s slot)\<lparr>ce_data := d\<rparr>) s;
     let s = put_ent slot ((ent s slot)\<lparr>ce_state := CACHE_VALID, ce_accessed := acc\<rparr>) s;
     Some (slot, s)
   }"

definition cache_read :: "block_sector_t \<Rightarrow> 'a cache_scheme \<Rightarrow> (byte list \<times> 'a cache_scheme) option" where
  "cache_read sector s =
    (case cache_lookup sector s of
       Some i \<Rightarrow>
         if ce_state (ent s i) = CACHE_VALID
         then let s = s\<lparr>cache_hits := cache_hits s + 1\<rparr>;
                  buffer = ce_data (ent s i);
                  s = put_ent i ((ent s i)\<lparr>ce_accessed := True\<rparr>) s
              in Some (buffer, cache_request_prefetch (sector + 1) s)
         else None
     | None \<Rightarrow> do {
         let s = s\<lparr>cache_misses := cache_misses s + 1\<rparr>;
         (slot, s) \<leftarrow> cache_load sector True s;
         Some (ce_data (ent s slot), cache_request_prefetch (sector + 1) s)
       })"

definition cache_read_at ::
  "block_sector_t \<Rightarrow> int \<Rightarrow> int \<Rightarrow> 'a cache_scheme \<Rightarrow> (byte list \<times> 'a cache_scheme) option" where
  "cache_read_at sector sector_ofs chunk_size s = do {
     ASSERT (sector_ofs \<ge> 0);
     ASSERT (sector_ofs < int BLOCK_SECTOR_SIZE);
     ASSERT (chunk_size > 0);
     ASSERT (sector_ofs + chunk_size \<le> int BLOCK_SECTOR_SIZE);
     case cache_lookup sector s of
       Some i \<Rightarrow>
         if ce_state (ent s i) = CACHE_VALID
         then let s = s\<lparr>cache_hits := cache_hits s + 1\<rparr>;
                  buffer = take (nat chunk_size) (drop (nat sector_ofs) (ce_data (ent s i)));
                  s = put_ent i ((ent s i)\<lparr>ce_accessed := True\<rparr>) s
              in Some (buffer, cache_request_prefetch (sector + 1) s)
         else None
     | None \<Rightarrow> do {
         let s = s\<lparr>cache_misses := cache_misses s + 1\<rparr>;
         (slot, s) \<leftarrow> cache_load sector True s;
         Some (take (nat chunk_size) (drop (nat sector_ofs) (ce_data (ent s slot))),
               cache_request_prefetch (sector + 1) s)
       }
   }"

definition cache_write ::
  "block_sector_t \<Rightarrow> byte list \<Rightarrow> int \<Rightarrow> int \<Rightarrow> 'a cache_scheme \<Rightarrow> 'a cache_scheme option" where
  "cache_write sector buffer sector_ofs chunk_size s = do {
     ASSERT (sector_ofs \<ge> 0);
     ASSERT (sector_ofs < int BLOCK_SECTOR_SIZE);
     ASSERT (chunk_size > 0);
     ASSERT (sector_ofs + chunk_size \<le> int BLOCK_SECTOR_SIZE);
     let src = take (nat chunk_size) buffer;
     case cache_lookup sector s of
       Some i \<Rightarrow>
         if ce_state (ent s i) = CACHE_VALID
         then let s = s\<lparr>cache_hits := cache_hits s + 1\<rparr>; e = ent s i
              in Some (put_ent i (e\<lparr>ce_data := patch (nat sector_ofs) src (ce_data e),
                                    ce_dirty := True, ce_accessed := True\<rparr>) s)
         else None
     | None \<Rightarrow> do {
         let s = s\<lparr>cache_misses := cache_misses s + 1\<rparr>;
         (slot, s) \<leftarrow> cache_evict s;
         let s = put_ent slot ((ent s slot)\<lparr>ce_state := CACHE_LOADING, ce_sector := sector\<rparr>) s;
         let is_full_write = (sector_ofs = 0 \<and> chunk_size = int BLOCK_SECTOR_SIZE);
         s \<leftarrow> (if is_full_write then Some s
              else do { (d, s) \<leftarrow> block_read sector s; Some (put_ent slot ((ent s slot)\<lparr>ce_data := d\<rparr>) s) });
         let e = ent s slot;
         Some (put_ent slot (e\<lparr>ce_data := patch (nat sector_ofs) src (ce_data e), ce_state := CACHE_VALID,
                               ce_dirty := True, ce_accessed := True\<rparr>) s)
       }
   }"

definition cache_do_prefetch :: "block_sector_t \<Rightarrow> 'a cache_scheme \<Rightarrow> 'a cache_scheme option" where
  "cache_do_prefetch sector s =
    (case cache_lookup sector s of
       Some i \<Rightarrow> Some s
     | None \<Rightarrow> do { (slot, s) \<leftarrow> cache_load sector False s; Some s })"

text \<open>One round of the prefetcher thread; with an empty queue, or after shutdown, it changes nothing.\<close>

definition cache_prefetcher_step :: "'a cache_scheme \<Rightarrow> 'a cache_scheme option" where
  "cache_prefetcher_step s =
    (if prefetch_head s = prefetch_tail s \<or> \<not> prefetcher_running s then Some s
     else let sector = prefetch_queue s ! prefetch_head s;
              s = s\<lparr>prefetch_head := (prefetch_head s + 1) mod PREFETCH_QUEUE_SIZE\<rparr>
          in cache_do_prefetch sector s)"

section \<open>Flushing, start and stop\<close>

fun cache_flush_loop :: "nat list \<Rightarrow> 'a cache_scheme \<Rightarrow> 'a cache_scheme option" where
  "cache_flush_loop [] s = Some s"
| "cache_flush_loop (i # is) s =
    (let ce = ent s i in
     if ce_state ce = CACHE_VALID \<and> ce_dirty ce
     then do {
       s \<leftarrow> block_write (ce_sector ce) (ce_data ce) s;
       cache_flush_loop is (put_ent i (ce\<lparr>ce_dirty := False\<rparr>) s)
     }
     else cache_flush_loop is s)"

definition cache_flush :: "'a cache_scheme \<Rightarrow> 'a cache_scheme option" where
  "cache_flush s = cache_flush_loop [0..<CACHE_SIZE] s"

definition cache_flusher_step :: "'a cache_scheme \<Rightarrow> 'a cache_scheme option" where
  "cache_flusher_step s = (if flusher_running s then cache_flush s else Some s)"

definition cache_init :: "'a cache_scheme \<Rightarrow> 'a cache_scheme" where
  "cache_init s =
    (let s = s\<lparr>clock_hand := 0,
              entries := map (\<lambda>e. e\<lparr>ce_state := CACHE_INVALID, ce_dirty := False, ce_accessed := False\<rparr>)
                           (entries s),
              flusher_running := True\<rparr>
     in cache_prefetch_init s)"

definition cache_shutdown :: "'a cache_scheme \<Rightarrow> 'a cache_scheme option" where
  "cache_shutdown s = cache_flush (cache_prefetch_shutdown (s\<lparr>flusher_running := False\<rparr>))"

definition cache_reset_stats :: "'a cache_scheme \<Rightarrow> 'a cache_scheme" where
  "cache_reset_stats s =
    s\<lparr>cache_hits := 0, cache_misses := 0, cache_evictions := 0, cache_writebacks := 0\<rparr>"

section \<open>Invariant and abstract contents\<close>

text \<open>The part of an entry that carries contents: everything but the accessed bit.\<close>

definition core :: "cache_entry \<Rightarrow> cache_entry" where
  "core e = e\<lparr>ce_accessed := False\<rparr>"

lemma core_sel [simp]:
  "ce_sector (core e) = ce_sector e" "ce_state (core e) = ce_state e"
  "ce_dirty (core e) = ce_dirty e" "ce_data (core e) = ce_data e"
  by (simp_all add: core_def)

definition ent_ok :: "'a cache_scheme \<Rightarrow> cache_entry \<Rightarrow> bool" where
  "ent_ok s e \<longleftrightarrow> ce_state e \<noteq> CACHE_LOADING \<and> length (ce_data e) = 512 \<and>
    (ce_state e = CACHE_VALID \<longrightarrow>
       ce_sector e < dev_size s \<and>
       (\<not> ce_dirty e \<longrightarrow> ce_data e = media s (ce_sector e)))"

definition holds :: "'a cache_scheme \<Rightarrow> nat \<Rightarrow> block_sector_t \<Rightarrow> bool" where
  "holds s i a \<longleftrightarrow> i < 64 \<and> ce_state (ent s i) = CACHE_VALID \<and> ce_sector (ent s i) = a"

definition cache_inv :: "'a cache_scheme \<Rightarrow> bool" where
  "cache_inv s \<longleftrightarrow> block_inv s \<and> length (entries s) = 64 \<and> clock_hand s < 64 \<and>
    replacement_policy s = CACHE_REPLACE_CLOCK \<and>
    length (prefetch_queue s) = 16 \<and> prefetch_head s < 16 \<and> prefetch_tail s < 16 \<and>
    (\<forall>i < 64. ent_ok s (ent s i)) \<and>
    (\<forall>i j a. holds s i a \<longrightarrow> holds s j a \<longrightarrow> i = j)"

definition cache_view :: "'a cache_scheme \<Rightarrow> block_sector_t \<Rightarrow> byte list" where
  "cache_view s a = (case cache_lookup a s of Some i \<Rightarrow> ce_data (ent s i) | None \<Rightarrow> media s a)"

lemma cache_invD:
  assumes "cache_inv s"
  shows "block_inv s" "length (entries s) = 64" "clock_hand s < 64"
    "replacement_policy s = CACHE_REPLACE_CLOCK"
    and "i < 64 \<Longrightarrow> ent_ok s (ent s i)"
    and "holds s i a \<Longrightarrow> holds s j a \<Longrightarrow> i = j"
  using assms unfolding cache_inv_def by blast+

lemma ent_okD:
  assumes "ent_ok s e" "ce_state e = CACHE_VALID"
  shows "ce_sector e < dev_size s" "length (ce_data e) = 512"
    "\<not> ce_dirty e \<Longrightarrow> ce_data e = media s (ce_sector e)"
  using assms by (auto simp: ent_ok_def)

lemma holdsD:
  "holds s i a \<Longrightarrow> i < 64" "holds s i a \<Longrightarrow> ce_state (ent s i) = CACHE_VALID"
  "holds s i a \<Longrightarrow> ce_sector (ent s i) = a"
  by (simp_all add: holds_def)

lemma cache_lookup_Some:
  assumes "cache_inv s" and "cache_lookup a s = Some i"
  shows "holds s i a"
proof -
  from find_upt_Some [OF assms(2) [unfolded cache_lookup_def]]
  have "i < 64" "ce_state (ent s i) \<noteq> CACHE_INVALID" "ce_sector (ent s i) = a" by auto
  with cache_invD(5) [OF assms(1), of i] show ?thesis
    by (cases "ce_state (ent s i)") (auto simp: holds_def ent_ok_def)
qed

lemma cache_lookup_None: "cache_lookup a s = None \<Longrightarrow> \<not> holds s i a"
  by (auto simp: cache_lookup_def find_None_iff holds_def)

lemma cache_lookup_holds:
  assumes "cache_inv s" and "holds s i a"
  shows "cache_lookup a s = Some i"
proof (cases "cache_lookup a s")
  case None
  with assms(2) show ?thesis by (auto dest: cache_lookup_None)
next
  case (Some j)
  with assms show ?thesis by (auto dest: cache_lookup_Some cache_invD(6))
qed

lemma cache_view_holds: "cache_inv s \<Longrightarrow> holds s i a \<Longrightarrow> cache_view s a = ce_data (ent s i)"
  by (simp add: cache_view_def cache_lookup_holds)

lemma cache_view_miss:
  assumes "cache_inv s" and "\<And>i. \<not> holds s i a"
  shows "cache_view s a = media s a"
proof (cases "cache_lookup a s")
  case None
  then show ?thesis by (simp add: cache_view_def)
next
  case (Some i)
  with assms show ?thesis by (auto dest: cache_lookup_Some)
qed

lemma length_cache_view:
  assumes "cache_inv s" and "a < dev_size s"
  shows "length (cache_view s a) = 512"
proof (cases "cache_lookup a s")
  case None
  with assms cache_invD(1) [OF assms(1)] show ?thesis by (auto simp: cache_view_def)
next
  case (Some i)
  then have h: "holds s i a" using assms(1) by (simp add: cache_lookup_Some)
  then have "ent_ok s (ent s i)" using assms(1) by (simp add: cache_invD(5) holdsD)
  with h show ?thesis
    using assms(1) by (simp add: cache_view_holds holdsD ent_okD)
qed

text \<open>Only cores, the device and the bounds matter; statistics, accessed bits and prefetching do not.\<close>

definition cache_frame :: "'a cache_scheme \<Rightarrow> 'a cache_scheme \<Rightarrow> bool" where
  "cache_frame s t \<longleftrightarrow> cache.more t = cache.more s \<and> oom t = oom s \<and> mallocs t = mallocs s \<and>
     dev_size t = dev_size s \<and> dev_type t = dev_type s \<and> flusher_running t = flusher_running s \<and>
     prefetcher_running t = prefetcher_running s"

lemma cache_frame_refl [simp]: "cache_frame s s"
  by (simp add: cache_frame_def)

lemma cache_frame_trans [trans]: "cache_frame s t \<Longrightarrow> cache_frame t u \<Longrightarrow> cache_frame s u"
  by (simp add: cache_frame_def)

lemma cache_frame_size: "cache_frame s t \<Longrightarrow> dev_size t = dev_size s"
  by (simp add: cache_frame_def)

definition same_contents :: "'a cache_scheme \<Rightarrow> 'a cache_scheme \<Rightarrow> bool" where
  "same_contents s t \<longleftrightarrow> map core (entries t) = map core (entries s) \<and> media t = media s \<and>
     dev_size t = dev_size s \<and> dev_type t = dev_type s \<and> replacement_policy t = replacement_policy s"

lemma same_contents_refl [simp]: "same_contents s s"
  by (simp add: same_contents_def)

lemma same_contents_trans: "same_contents s t \<Longrightarrow> same_contents t u \<Longrightarrow> same_contents s u"
  by (simp add: same_contents_def)

lemma same_contents_ent:
  assumes "same_contents s t" and "length (entries s) = 64" and "i < 64"
  shows "core (ent t i) = core (ent s i)"
  using assms by (metis length_map nth_map same_contents_def)

lemma same_contents_sel:
  assumes "same_contents s t" and "length (entries s) = 64" and "i < 64"
  shows "ce_state (ent t i) = ce_state (ent s i)" "ce_sector (ent t i) = ce_sector (ent s i)"
    "ce_dirty (ent t i) = ce_dirty (ent s i)" "ce_data (ent t i) = ce_data (ent s i)"
  using same_contents_ent [OF assms] by (metis core_sel)+

lemma same_contents_holds:
  assumes "same_contents s t" and "length (entries s) = 64"
  shows "holds t i a = holds s i a"
  using same_contents_sel [OF assms, of i] by (auto simp: holds_def)

lemma same_contents_inv:
  assumes "cache_inv s" and "same_contents s t"
    and "clock_hand t < 64" "length (prefetch_queue t) = 16" "prefetch_head t < 16" "prefetch_tail t < 16"
  shows "cache_inv t"
proof -
  note len = cache_invD(2) [OF assms(1)]
  have "length (entries t) = 64" using assms(2) len by (metis length_map same_contents_def)
  moreover have "ent_ok t (ent t i)" if "i < 64" for i
    using cache_invD(5) [OF assms(1) that] same_contents_sel [OF assms(2) len that] assms(2)
    by (auto simp: ent_ok_def same_contents_def)
  moreover have "block_inv t"
    using assms(1,2) by (simp add: cache_inv_def block_inv_def same_contents_def)
  ultimately show ?thesis
    using assms same_contents_holds [OF assms(2) len] unfolding cache_inv_def same_contents_def by auto
qed

lemma same_contents_view:
  assumes "cache_inv s" and "cache_inv t" and "same_contents s t"
  shows "cache_view t = cache_view s"
proof
  fix a
  note len = cache_invD(2) [OF assms(1)]
  show "cache_view t a = cache_view s a"
  proof (cases "cache_lookup a s")
    case None
    then have no: "\<And>i. \<not> holds s i a" by (rule cache_lookup_None)
    then have "\<And>i. \<not> holds t i a" using same_contents_holds [OF assms(3) len] by blast
    with no assms show ?thesis by (simp add: cache_view_miss same_contents_def)
  next
    case (Some i)
    then have h: "holds s i a" using assms(1) by (simp add: cache_lookup_Some)
    then have "holds t i a" using same_contents_holds [OF assms(3) len] by blast
    with h assms show ?thesis
      using same_contents_sel(4) [OF assms(3) len] by (simp add: cache_view_holds holdsD)
  qed
qed

section \<open>Clock eviction\<close>

lemma put_ent_sel [simp]:
  "media (put_ent i e s) = media s" "dev_size (put_ent i e s) = dev_size s"
  "dev_type (put_ent i e s) = dev_type s" "clock_hand (put_ent i e s) = clock_hand s"
  "replacement_policy (put_ent i e s) = replacement_policy s"
  "prefetch_queue (put_ent i e s) = prefetch_queue s" "prefetch_head (put_ent i e s) = prefetch_head s"
  "prefetch_tail (put_ent i e s) = prefetch_tail s"
  "cache.more (put_ent i e s) = cache.more s" "oom (put_ent i e s) = oom s"
  "mallocs (put_ent i e s) = mallocs s" "flusher_running (put_ent i e s) = flusher_running s"
  "prefetcher_running (put_ent i e s) = prefetcher_running s"
  "entries (put_ent i e s) = (entries s)[i := e]"
  by (simp_all add: put_ent_def)

lemma map_core_accessed: "map core (es[i := (es ! i)\<lparr>ce_accessed := b\<rparr>]) = map core es"
  by (cases "i < length es")
    (auto intro!: nth_equalityI simp: nth_list_update core_def list_update_beyond)

lemma put_ent_accessed_same [simp]:
  "same_contents s (put_ent i ((ent s i)\<lparr>ce_accessed := b\<rparr>) s)"
  by (simp add: same_contents_def map_core_accessed)

text \<open>
  When every entry is valid the sweep ends: an entry that is not accessed at distance \<open>d\<close> ahead of
  the hand is reached after \<open>d\<close> rounds, and after a full turn the entry first cleared is such an entry.
\<close>

lemma evict_clock_found:
  assumes "clock_hand s < 64" "ce_state (ent s (clock_hand s)) = CACHE_VALID"
    "\<not> ce_accessed (ent s (clock_hand s))"
  shows "\<exists>v s'. evict_clock scans s = Some (v, s') \<and> v < 64 \<and> \<not> ce_accessed (ent s' v) \<and>
     same_contents s s' \<and> (\<exists>es h. h < 64 \<and> s' = s\<lparr>entries := es, clock_hand := h\<rparr>)"
proof -
  let ?h = "(clock_hand s + 1) mod 64"
  let ?t = "s\<lparr>clock_hand := ?h\<rparr>"
  have "evict_clock scans s = Some (clock_hand s, ?t)"
    using assms by (simp add: evict_clock.simps [of scans s] Let_def)
  moreover have "\<exists>es h. h < 64 \<and> ?t = s\<lparr>entries := es, clock_hand := h\<rparr>"
    by (intro exI [of _ "entries s"] exI [of _ ?h]) simp
  moreover have "same_contents s ?t" by (simp add: same_contents_def)
  ultimately show ?thesis using assms by auto
qed

lemma evict_clock_ok:
  assumes "length (entries s) = 64" and "clock_hand s < 64"
    and "\<forall>i < 64. ce_state (ent s i) = CACHE_VALID"
    and "n \<ge> 64 \<or> (\<exists>d \<le> n. d < 64 \<and> \<not> ce_accessed (ent s ((clock_hand s + d) mod 64)))"
    and "scans + n \<le> 128"
  shows "\<exists>v s'. evict_clock scans s = Some (v, s') \<and> v < 64 \<and> \<not> ce_accessed (ent s' v) \<and>
     same_contents s s' \<and> (\<exists>es h. h < 64 \<and> s' = s\<lparr>entries := es, clock_hand := h\<rparr>)"
  using assms
proof (induction n arbitrary: scans s)
  case 0
  then have "\<not> ce_accessed (ent s (clock_hand s))" by auto
  with 0 show ?case by (intro evict_clock_found) auto
next
  case (Suc n)
  let ?h = "clock_hand s"
  let ?h' = "(?h + 1) mod 64"
  show ?case
  proof (cases "ce_accessed (ent s ?h)")
    case False
    with Suc.prems show ?thesis by (intro evict_clock_found) auto
  next
    case True
    let ?t = "put_ent ?h ((ent s ?h)\<lparr>ce_accessed := False\<rparr>) s\<lparr>clock_hand := ?h'\<rparr>"
    have step: "evict_clock scans s = evict_clock (scans + 1) ?t"
      using True Suc.prems by (simp add: evict_clock.simps [of scans s] Let_def)
    have same: "same_contents s ?t"
      using put_ent_accessed_same [of s ?h False] by (simp add: same_contents_def)
    have valid: "\<forall>i < 64. ce_state (ent ?t i) = CACHE_VALID"
      using Suc.prems by (auto simp: nth_list_update)
    have goal: "n \<ge> 64 \<or> (\<exists>d \<le> n. d < 64 \<and> \<not> ce_accessed (ent ?t ((clock_hand ?t + d) mod 64)))"
    proof (cases "Suc n \<ge> 64")
      case True
      have "(?h' + 63) mod 64 = ?h" using Suc.prems(2) by (simp add: mod_simps)
      then have "\<not> ce_accessed (ent ?t ((clock_hand ?t + 63) mod 64))" using Suc.prems(1,2) by simp
      with True show ?thesis by (intro disjI2 exI [of _ 63]) simp
    next
      case False
      with Suc.prems(4) obtain d where d: "d \<le> Suc n" "d < 64" "\<not> ce_accessed (ent s ((?h + d) mod 64))"
        by auto
      with True have "d \<noteq> 0" using Suc.prems(2) by (metis add_0_right mod_less)
      then obtain d' where d': "d = Suc d'" by (cases d) auto
      have "(?h + d) mod 64 \<noteq> ?h" using d True by metis
      then have "\<not> ce_accessed (ent ?t ((clock_hand ?t + d') mod 64))"
        using d d' by (simp add: mod_simps)
      with d d' show ?thesis by (intro disjI2 exI [of _ d']) simp
    qed
    obtain v s' where "evict_clock (scans + 1) ?t = Some (v, s')" "v < 64" "\<not> ce_accessed (ent s' v)"
      "same_contents ?t s'" "\<exists>es h. h < 64 \<and> s' = ?t\<lparr>entries := es, clock_hand := h\<rparr>"
      using Suc.IH [of ?t "scans + 1"] Suc.prems valid goal by auto
    with step same_contents_trans [OF same] show ?thesis
      by (intro exI [of _ v] exI [of _ s']) (auto simp: put_ent_def)
  qed
qed

text \<open>
  (C3) Clock eviction always finds a victim: when all 64 entries are valid, \<^verbatim>\<open>evict_clock\<close>
  returns a slot whose accessed bit is clear before its counter reaches the panic limit, whatever
  the accessed bits and the position of the hand, and changes only accessed bits and the hand.
\<close>

theorem evict_clock_terminates:
  assumes "length (entries s) = CACHE_SIZE" and "clock_hand s < CACHE_SIZE"
    and "\<forall>i < CACHE_SIZE. ce_state (ent s i) = CACHE_VALID"
  shows "\<exists>v s'. evict_clock 0 s = Some (v, s') \<and> v < CACHE_SIZE \<and> \<not> ce_accessed (ent s' v) \<and>
     map core (entries s') = map core (entries s) \<and> media s' = media s \<and> clock_hand s' < CACHE_SIZE"
proof -
  obtain v s' where "evict_clock 0 s = Some (v, s')" "v < 64" "\<not> ce_accessed (ent s' v)"
    "same_contents s s'" "\<exists>es h. h < 64 \<and> s' = s\<lparr>entries := es, clock_hand := h\<rparr>"
    using evict_clock_ok [of s 64 0] assms by auto
  then show ?thesis by (auto simp: same_contents_def)
qed

definition sample_cache :: cache where
  "sample_cache = \<lparr>oom = (\<lambda>_. False), mallocs = 0, dev_size = 1000, dev_type = BLOCK_FILESYS,
     media = (\<lambda>a. replicate 512 (ucast a)), read_cnt = 0, write_cnt = 0,
     entries = map (\<lambda>i. \<lparr>ce_sector = word_of_nat i, ce_state = CACHE_VALID, ce_dirty = False,
       ce_accessed = True, ce_data = replicate 512 (word_of_nat i)\<rparr>) [0..<64],
     clock_hand = 5, fifo_hand = 0, replacement_policy = CACHE_REPLACE_CLOCK,
     cache_hits = 0, cache_misses = 0, cache_evictions = 0, cache_writebacks = 0, flusher_running = True,
     prefetch_queue = replicate 16 0, prefetch_head = 0, prefetch_tail = 0, prefetcher_running = True\<rparr>"

lemma evict_clock_terminates_witness:
  "\<exists>v s'. evict_clock 0 sample_cache = Some (v, s') \<and> v < CACHE_SIZE \<and> \<not> ce_accessed (ent s' v)"
  using evict_clock_terminates [of sample_cache] by (simp add: sample_cache_def) blast

section \<open>Replacing an entry\<close>

text \<open>
  The one fact behind every hit and every miss: overwriting a slot with a valid entry for sector \<open>a\<close>
  changes the contents at \<open>a\<close> only, provided no other slot holds \<open>a\<close> and what the slot held before
  was either \<open>a\<close> itself or is on the device already.
\<close>

lemma put_ent_inv_view:
  assumes inv: "cache_inv s" and i: "i < 64"
    and e: "ce_state e = CACHE_VALID" "ce_sector e = a" "a < dev_size s" "length (ce_data e) = 512"
      "\<not> ce_dirty e \<Longrightarrow> ce_data e = media s a"
    and free: "\<And>j. holds s j a \<Longrightarrow> j = i"
    and old: "holds s i a \<or> ce_state (ent s i) = CACHE_INVALID \<or> \<not> ce_dirty (ent s i)"
  shows "cache_inv (put_ent i e s)"
    and "cache_view (put_ent i e s) b = (if b = a then ce_data e else cache_view s b)"
proof -
  let ?t = "put_ent i e s"
  note len = cache_invD(2) [OF inv]
  have holds: "holds ?t j b \<longleftrightarrow> (if j = i then b = a else holds s j b)" for j b
    using i len e by (auto simp: holds_def)
  show invt: "cache_inv ?t"
  proof -
    have "ent_ok ?t (ent ?t j)" if "j < 64" for j
      using that i len e cache_invD(5) [OF inv that] by (auto simp: ent_ok_def nth_list_update)
    moreover have "j = k" if "holds ?t j b" "holds ?t k b" for j k b
      using that holds free cache_invD(6) [OF inv] by (metis (full_types))
    moreover have "block_inv ?t" using cache_invD(1) [OF inv] by (simp add: block_inv_def)
    ultimately show ?thesis using inv unfolding cache_inv_def by simp
  qed
  show "cache_view ?t b = (if b = a then ce_data e else cache_view s b)"
  proof (cases "b = a")
    case True
    then have "holds ?t i b" using holds by simp
    then show ?thesis using True invt i len by (simp add: cache_view_holds)
  next
    case False
    show ?thesis
    proof (cases "\<exists>j. j \<noteq> i \<and> holds s j b")
      case True
      then obtain j where j: "j \<noteq> i" "holds s j b" by blast
      then have "holds ?t j b" using holds by simp
      with j False inv invt show ?thesis by (simp add: cache_view_holds)
    next
      case no: False
      then have "\<not> holds ?t j b" for j using holds False by metis
      then have t: "cache_view ?t b = media s b" using invt by (simp add: cache_view_miss)
      show ?thesis
      proof (cases "holds s i b")
        case True
        with old False cache_invD(5) [OF inv i] have "ce_data (ent s i) = media s b"
          by (auto simp: holds_def ent_ok_def)
        with True t False inv show ?thesis by (simp add: cache_view_holds)
      next
        case False
        with no have "\<not> holds s j b" for j by metis
        with t \<open>b \<noteq> a\<close> inv show ?thesis by (simp add: cache_view_miss)
      qed
    qed
  qed
qed

text \<open>Writing a valid entry back and marking it clean does not change the contents.\<close>

lemma write_back_inv_view:
  fixes w :: u64
  assumes inv: "cache_inv s" and h: "holds s i a"
  defines "t \<equiv> put_ent i ((ent s i)\<lparr>ce_dirty := False\<rparr>) (s\<lparr>media := (media s)(a := ce_data (ent s i)), write_cnt := w\<rparr>)"
  shows "cache_inv t" and "cache_view t = cache_view s"
proof -
  note len = cache_invD(2) [OF inv]
  have i: "i < 64" "ce_state (ent s i) = CACHE_VALID" "ce_sector (ent s i) = a"
    using h by (simp_all add: holdsD)
  note ok = ent_okD [OF cache_invD(5) [OF inv i(1)] i(2)]
  have holds: "holds t j b \<longleftrightarrow> holds s j b" for j b
    using i len by (auto simp: t_def holds_def nth_list_update)
  have other: "ce_sector (ent s j) \<noteq> a" if "j \<noteq> i" "j < 64" "ce_state (ent s j) = CACHE_VALID" for j
    using that h cache_invD(6) [OF inv h, of j] by (auto simp: holds_def)
  show invt: "cache_inv t"
  proof -
    have "ent_ok t (ent t j)" if "j < 64" for j
      using that i len ok other [of j] cache_invD(5) [OF inv that]
      by (auto simp: t_def ent_ok_def nth_list_update)
    moreover have "block_inv t"
      using cache_invD(1) [OF inv] ok by (auto simp: t_def block_inv_def)
    ultimately show ?thesis
      using inv holds unfolding cache_inv_def by (simp add: t_def)
  qed
  show "cache_view t = cache_view s"
  proof
    fix b
    show "cache_view t b = cache_view s b"
    proof (cases "\<exists>j. holds s j b")
      case True
      then obtain j where j: "holds s j b" by blast
      then have "holds t j b" using holds by simp
      with j inv invt show ?thesis
        using i len by (auto simp: cache_view_holds t_def nth_list_update holdsD)
    next
      case False
      with h have "b \<noteq> a" by blast
      with False holds inv invt show ?thesis by (simp add: cache_view_miss) (simp add: t_def)
    qed
  qed
qed

section \<open>Operations on the contents\<close>

lemma cache_inv_stats [simp]:
  "cache_inv (s\<lparr>cache_hits := n\<rparr>) = cache_inv s" "cache_inv (s\<lparr>cache_misses := n\<rparr>) = cache_inv s"
  "cache_inv (s\<lparr>cache_evictions := n\<rparr>) = cache_inv s" "cache_inv (s\<lparr>cache_writebacks := n\<rparr>) = cache_inv s"
  "cache_inv (s\<lparr>read_cnt := w\<rparr>) = cache_inv s" "cache_inv (s\<lparr>flusher_running := b\<rparr>) = cache_inv s"
  "cache_inv (s\<lparr>prefetcher_running := b\<rparr>) = cache_inv s"
  by (simp_all add: cache_inv_def block_inv_def ent_ok_def holds_def)

lemma cache_view_stats [simp]:
  "cache_view (s\<lparr>cache_hits := n\<rparr>) = cache_view s" "cache_view (s\<lparr>cache_misses := n\<rparr>) = cache_view s"
  "cache_view (s\<lparr>cache_evictions := n\<rparr>) = cache_view s" "cache_view (s\<lparr>cache_writebacks := n\<rparr>) = cache_view s"
  "cache_view (s\<lparr>read_cnt := w\<rparr>) = cache_view s" "cache_view (s\<lparr>flusher_running := b\<rparr>) = cache_view s"
  "cache_view (s\<lparr>prefetcher_running := b\<rparr>) = cache_view s"
  by (simp_all add: fun_eq_iff cache_view_def cache_lookup_def split: option.split)

lemma holds_stats [simp]:
  "holds (s\<lparr>cache_hits := n\<rparr>) = holds s" "holds (s\<lparr>cache_misses := n\<rparr>) = holds s"
  "holds (s\<lparr>cache_evictions := n\<rparr>) = holds s" "holds (s\<lparr>cache_writebacks := n\<rparr>) = holds s"
  "holds (s\<lparr>read_cnt := w\<rparr>) = holds s"
  by (simp_all add: fun_eq_iff holds_def)

lemma cache_request_prefetch_inv_view:
  assumes "cache_inv s"
  shows "cache_inv (cache_request_prefetch a s)"
    and "cache_view (cache_request_prefetch a s) = cache_view s"
    and "dev_size (cache_request_prefetch a s) = dev_size s"
    and "cache_frame s (cache_request_prefetch a s)"
    and "set (prefetch_queue (cache_request_prefetch a s)) \<subseteq> insert a (set (prefetch_queue s))"
proof -
  have same: "same_contents s (cache_request_prefetch a s)"
    by (simp add: cache_request_prefetch_def same_contents_def Let_def)
  show i: "cache_inv (cache_request_prefetch a s)"
    using assms by (intro same_contents_inv [OF assms same])
      (auto simp: cache_request_prefetch_def Let_def cache_inv_def)
  show "cache_view (cache_request_prefetch a s) = cache_view s"
    using assms i same by (rule same_contents_view)
  show "dev_size (cache_request_prefetch a s) = dev_size s"
    by (simp add: cache_request_prefetch_def Let_def)
  show "cache_frame s (cache_request_prefetch a s)"
    by (simp add: cache_request_prefetch_def Let_def cache_frame_def)
  show "set (prefetch_queue (cache_request_prefetch a s)) \<subseteq> insert a (set (prefetch_queue s))"
    by (auto simp: cache_request_prefetch_def Let_def dest: set_update_subset_insert [THEN subsetD])
qed

lemma put_ent_accessed_inv_view:
  assumes "cache_inv s"
  shows "cache_inv (put_ent i ((ent s i)\<lparr>ce_accessed := b\<rparr>) s)"
    and "cache_view (put_ent i ((ent s i)\<lparr>ce_accessed := b\<rparr>) s) = cache_view s"
proof -
  show *: "cache_inv (put_ent i ((ent s i)\<lparr>ce_accessed := b\<rparr>) s)"
    using assms by (intro same_contents_inv [OF assms put_ent_accessed_same]) (auto simp: cache_inv_def)
  show "cache_view (put_ent i ((ent s i)\<lparr>ce_accessed := b\<rparr>) s) = cache_view s"
    using assms * by (rule same_contents_view) simp
qed

text \<open>
  A slot handed out by \<open>cache_evict\<close> is free to be overwritten: it is empty or clean, the contents
  are unchanged, and no slot came to hold a sector it did not hold before.
\<close>

lemma cache_evict_ok:
  assumes inv: "cache_inv s"
  shows "\<exists>v t. cache_evict s = Some (v, t) \<and> v < 64 \<and> cache_inv t \<and> cache_view t = cache_view s \<and>
    dev_size t = dev_size s \<and> (\<forall>i a. holds t i a = holds s i a) \<and>
    (ce_state (ent t v) = CACHE_INVALID \<or> \<not> ce_dirty (ent t v)) \<and>
    cache_frame s t \<and> prefetch_queue t = prefetch_queue s"
proof (cases "find (\<lambda>i. ce_state (ent s i) = CACHE_INVALID) [0..<64]")
  case (Some i)
  from find_upt_Some [OF this] inv show ?thesis
    using Some by (intro exI [of _ i] exI [of _ s]) (simp add: cache_evict_def)
next
  case None
  note len = cache_invD(2) [OF inv]
  have valid: "\<forall>i < 64. ce_state (ent s i) = CACHE_VALID"
  proof (intro allI impI)
    fix i :: nat assume "i < 64"
    with None cache_invD(5) [OF inv this] show "ce_state (ent s i) = CACHE_VALID"
      by (cases "ce_state (ent s i)") (auto simp: find_None_iff ent_ok_def)
  qed
  obtain v t es h where t: "evict_clock 0 s = Some (v, t)" "v < 64" "same_contents s t"
    "h < 64" "t = s\<lparr>entries := es, clock_hand := h\<rparr>"
    using evict_clock_ok [OF len cache_invD(3) [OF inv] valid, of 64 0] by auto
  have invt: "cache_inv t"
    using inv t by (intro same_contents_inv [OF inv t(3)]) (auto simp: cache_inv_def)
  have view: "cache_view t = cache_view s" using inv invt t(3) by (rule same_contents_view)
  have holds: "holds t i a = holds s i a" for i a using t(3) len by (rule same_contents_holds)
  note sel = same_contents_sel [OF t(3) len t(2)]
  let ?t = "t\<lparr>cache_evictions := cache_evictions t + 1\<rparr>"
  have sv: "select_victim s = Some (v, t)" using t(1) cache_invD(4) [OF inv] by (simp add: select_victim_def)
  show ?thesis
  proof (cases "ce_dirty (ent t v)")
    case False
    then have "cache_evict s = Some (v, ?t)" using None sv by (simp add: cache_evict_def)
    moreover have "cache_frame s ?t" "prefetch_queue ?t = prefetch_queue s"
      using t(5) by (simp_all add: cache_frame_def)
    ultimately show ?thesis using False invt view holds t(2,3) by (auto simp: same_contents_def)
  next
    case True
    have hv: "holds ?t v (ce_sector (ent t v))" using t(2) valid sel by (simp add: holds_def)
    note ok = ent_okD [OF cache_invD(5) [OF invt t(2)]]
    let ?u = "?t\<lparr>cache_writebacks := cache_writebacks t + 1\<rparr>"
    let ?w = "put_ent v ((ent t v)\<lparr>ce_dirty := False\<rparr>)
      (?u\<lparr>media := (media t)(ce_sector (ent t v) := ce_data (ent t v)), write_cnt := write_cnt t + 1\<rparr>)"
    have st: "ce_state (ent t v) = CACHE_VALID" using valid t(2) sel by simp
    have ev: "cache_evict s = Some (v, ?w)"
      using None sv True st ok(1) invt by (simp add: cache_evict_def block_write_eq cache_inv_def block_inv_def Let_def)
    have *: "cache_inv ?w" "cache_view ?w = cache_view ?u"
      using write_back_inv_view [of ?u v "ce_sector (ent t v)" "write_cnt t + 1"] hv invt by simp_all
    have "holds ?w i a = holds s i a" for i a
      using holds [of i a] t(2) cache_invD(2) [OF invt] by (auto simp: holds_def nth_list_update)
    moreover have "cache_frame s ?w" "prefetch_queue ?w = prefetch_queue s"
      using t(5) by (simp_all add: cache_frame_def)
    ultimately show ?thesis
      using ev * t(2,3) cache_invD(2) [OF invt] view by (auto simp: same_contents_def)
  qed
qed

lemma cache_load_ok:
  assumes inv: "cache_inv s" and a: "a < dev_size s" and miss: "cache_lookup a s = None"
  shows "\<exists>v t. cache_load a acc s = Some (v, t) \<and> v < 64 \<and> cache_inv t \<and> cache_view t = cache_view s \<and>
    dev_size t = dev_size s \<and> holds t v a \<and> cache_frame s t \<and> prefetch_queue t = prefetch_queue s"
proof -
  obtain v t where t: "cache_evict s = Some (v, t)" "v < 64" "cache_inv t" "cache_view t = cache_view s"
    "dev_size t = dev_size s" "\<And>i b. holds t i b = holds s i b"
    "ce_state (ent t v) = CACHE_INVALID \<or> \<not> ce_dirty (ent t v)"
    "cache_frame s t" "prefetch_queue t = prefetch_queue s"
    using cache_evict_ok [OF inv] by blast
  note no = cache_lookup_None [OF miss]
  let ?r = "t\<lparr>read_cnt := read_cnt t + 1\<rparr>"
  let ?e = "(ent t v)\<lparr>ce_sector := a, ce_dirty := False, ce_data := media t a,
    ce_state := CACHE_VALID, ce_accessed := acc\<rparr>"
  have load: "cache_load a acc s = Some (v, put_ent v ?e ?r)"
    using t(1,2,5) a cache_invD(2) [OF t(3)] by (simp add: cache_load_def block_read_eq put_ent_def)
  have len: "length (media t a) = 512" using cache_invD(1) [OF t(3)] a t(5) by auto
  have prem: "cache_inv ?r" "a < dev_size ?r" "\<And>j. holds ?r j a \<Longrightarrow> j = v"
    "holds ?r v a \<or> ce_state (ent ?r v) = CACHE_INVALID \<or> \<not> ce_dirty (ent ?r v)"
    using t a no by auto
  have inv': "cache_inv (put_ent v ?e ?r)"
    by (rule put_ent_inv_view(1) [OF prem(1) t(2) _ _ prem(2) _ _ prem(3,4)]) (simp_all add: len)
  have "cache_view (put_ent v ?e ?r) b = (if b = a then media t a else cache_view ?r b)" for b
    by (subst put_ent_inv_view(2) [OF prem(1) t(2) _ _ prem(2) _ _ prem(3,4)]) (simp_all add: len)
  moreover have "cache_view t a = media t a"
    by (rule cache_view_miss [OF t(3)]) (simp add: t(6) no)
  ultimately have "cache_view (put_ent v ?e ?r) = cache_view s" using t(4) by (auto simp: fun_eq_iff)
  moreover have "cache_frame s (put_ent v ?e ?r)" using t(8) by (simp add: cache_frame_def)
  ultimately show ?thesis
    using load inv' t(2,5,9) cache_invD(2) [OF t(3)] by (simp add: holds_def)
qed

lemma cache_read_ok:
  assumes inv: "cache_inv s" and a: "a < dev_size s"
  shows "\<exists>t. cache_read a s = Some (cache_view s a, t) \<and> cache_inv t \<and> dev_size t = dev_size s \<and>
    cache_view t = cache_view s \<and> cache_frame s t \<and>
    set (prefetch_queue t) \<subseteq> insert (a + 1) (set (prefetch_queue s))"
proof (cases "cache_lookup a s")
  case (Some i)
  let ?h = "s\<lparr>cache_hits := cache_hits s + 1\<rparr>"
  let ?t = "put_ent i ((ent ?h i)\<lparr>ce_accessed := True\<rparr>) ?h"
  have h: "holds s i a" using inv Some by (rule cache_lookup_Some)
  then have r: "cache_read a s = Some (cache_view s a, cache_request_prefetch (a + 1) ?t)"
    using Some inv by (simp add: cache_read_def cache_view_holds holdsD Let_def)
  have "cache_inv ?t" "cache_view ?t = cache_view s"
    using put_ent_accessed_inv_view [of ?h i True] inv by simp_all
  moreover have "cache_frame s ?t" "prefetch_queue ?t = prefetch_queue s" by (simp_all add: cache_frame_def)
  ultimately show ?thesis
    using r cache_request_prefetch_inv_view [of ?t "a + 1"] cache_frame_trans by auto
next
  case None
  let ?m = "s\<lparr>cache_misses := cache_misses s + 1\<rparr>"
  have "cache_lookup a ?m = None" using None by (simp add: cache_lookup_def)
  then obtain v t where t: "cache_load a True ?m = Some (v, t)" "cache_inv t" "cache_view t = cache_view s"
    "dev_size t = dev_size s" "holds t v a" "cache_frame s t" "prefetch_queue t = prefetch_queue s"
    using cache_load_ok [of ?m a True] inv a by (auto simp: cache_frame_def)
  then have "cache_read a s = Some (cache_view s a, cache_request_prefetch (a + 1) t)"
    using None cache_view_holds [OF t(2,5)] by (simp add: cache_read_def)
  with t cache_request_prefetch_inv_view [OF t(2), of "a + 1"] cache_frame_trans [OF t(6)] show ?thesis
    by auto
qed

text \<open>A partial read returns the slice of what a full read returns, and leaves the same state.\<close>

lemma cache_read_at_eq:
  assumes "0 \<le> ofs" "0 < n" "ofs + n \<le> 512"
  shows "cache_read_at a ofs n s =
    map_option (\<lambda>(d, t). (take (nat n) (drop (nat ofs) d), t)) (cache_read a s)"
  using assms
  by (auto simp: cache_read_at_def cache_read_def Let_def split: option.split Option.bind_splits prod.split)

lemma cache_write_ok:
  assumes inv: "cache_inv s" and a: "a < dev_size s"
    and b: "0 \<le> ofs" "0 < n" "ofs + n \<le> 512" "length buf = nat n"
  shows "\<exists>t. cache_write a buf ofs n s = Some t \<and> cache_inv t \<and> dev_size t = dev_size s \<and>
    cache_view t = (cache_view s)(a := patch (nat ofs) buf (cache_view s a)) \<and> cache_frame s t \<and>
    prefetch_queue t = prefetch_queue s"
proof (cases "cache_lookup a s")
  case (Some i)
  let ?h = "s\<lparr>cache_hits := cache_hits s + 1\<rparr>"
  let ?e = "(ent s i)\<lparr>ce_data := patch (nat ofs) buf (ce_data (ent s i)), ce_dirty := True, ce_accessed := True\<rparr>"
  have h: "holds s i a" using inv Some by (rule cache_lookup_Some)
  have w: "cache_write a buf ofs n s = Some (put_ent i ?e ?h)"
    using Some inv b h by (simp add: cache_write_def holdsD Let_def)
  have len: "length (ce_data (ent s i)) = 512"
    using ent_okD(2) [OF cache_invD(5) [OF inv]] h by (simp add: holdsD)
  have free: "\<And>j. holds ?h j a \<Longrightarrow> j = i" using cache_invD(6) [OF inv _ h] by simp
  have old: "holds ?h i a \<or> ce_state (ent ?h i) = CACHE_INVALID \<or> \<not> ce_dirty (ent ?h i)" using h by simp
  have inv': "cache_inv ?h" "i < 64" "a < dev_size ?h" using inv h a by (simp_all add: holdsD)
  have "cache_inv (put_ent i ?e ?h)"
    by (rule put_ent_inv_view(1) [OF inv'(1,2) _ _ inv'(3) _ _ free old])
      (use h len b in \<open>simp_all add: holdsD\<close>)
  moreover have "cache_view (put_ent i ?e ?h) c = (if c = a then ce_data ?e else cache_view ?h c)" for c
    by (rule put_ent_inv_view(2) [OF inv'(1,2) _ _ inv'(3) _ _ free old])
      (use h len b in \<open>simp_all add: holdsD\<close>)
  moreover have "cache_frame s (put_ent i ?e ?h)" by (simp add: cache_frame_def)
  ultimately show ?thesis using w inv h by (auto simp: fun_eq_iff cache_view_holds)
next
  case None
  let ?m = "s\<lparr>cache_misses := cache_misses s + 1\<rparr>"
  obtain v t where t: "cache_evict ?m = Some (v, t)" "v < 64" "cache_inv t" "cache_view t = cache_view s"
    "dev_size t = dev_size s" "\<And>i b. holds t i b = holds s i b"
    "ce_state (ent t v) = CACHE_INVALID \<or> \<not> ce_dirty (ent t v)"
    "cache_frame s t" "prefetch_queue t = prefetch_queue s"
    using cache_evict_ok [of ?m] inv by (auto simp: cache_frame_def)
  note no = cache_lookup_None [OF None]
  have len: "length (media t a) = 512" using cache_invD(1) [OF t(3)] a t(5) by auto
  have va: "cache_view s a = media t a"
    using t(4) cache_view_miss [OF t(3), of a] t(6) no by simp
  define d where "d = (if ofs = 0 \<and> n = 512 then ce_data (ent t v) else media t a)"
  define r where "r = (if ofs = 0 \<and> n = 512 then t else t\<lparr>read_cnt := read_cnt t + 1\<rparr>)"
  let ?e = "(ent t v)\<lparr>ce_sector := a, ce_data := patch (nat ofs) buf d, ce_state := CACHE_VALID,
    ce_dirty := True, ce_accessed := True\<rparr>"
  have w: "cache_write a buf ofs n s = Some (put_ent v ?e r)"
    using None t(1,2,5) a b cache_invD(2) [OF t(3)]
    by (auto simp: cache_write_def block_read_eq put_ent_def d_def r_def Let_def)
  have pd: "patch (nat ofs) buf d = patch (nat ofs) buf (media t a)"
    using b len cache_invD(5) [OF t(3,2)] by (auto simp: d_def patch_def ent_ok_def)
  have prem: "cache_inv r" "a < dev_size r" "\<And>j. holds r j a \<Longrightarrow> j = v"
    "holds r v a \<or> ce_state (ent r v) = CACHE_INVALID \<or> \<not> ce_dirty (ent r v)" "cache_view r = cache_view s"
    "dev_size r = dev_size s" "media r = media t"
    using t a no by (auto simp: r_def split: if_splits)
  have "cache_inv (put_ent v ?e r)"
    by (rule put_ent_inv_view(1) [OF prem(1) t(2) _ _ prem(2) _ _ prem(3,4)])
      (use b len in \<open>simp_all add: pd\<close>)
  moreover have "cache_view (put_ent v ?e r) c = (if c = a then ce_data ?e else cache_view r c)" for c
    by (rule put_ent_inv_view(2) [OF prem(1) t(2) _ _ prem(2) _ _ prem(3,4)])
      (use b len in \<open>simp_all add: pd\<close>)
  moreover have "cache_frame s (put_ent v ?e r)" "prefetch_queue r = prefetch_queue s"
    using t(8,9) by (simp_all add: r_def cache_frame_def)
  ultimately show ?thesis using w va prem(5,6) pd by (auto simp: fun_eq_iff)
qed

lemma cache_do_prefetch_ok:
  assumes "cache_inv s" and "a < dev_size s"
  shows "\<exists>t. cache_do_prefetch a s = Some t \<and> cache_inv t \<and> dev_size t = dev_size s \<and> cache_view t = cache_view s \<and>
    cache_frame s t \<and> prefetch_queue t = prefetch_queue s"
proof (cases "cache_lookup a s")
  case None
  with cache_load_ok [OF assms None, of False] show ?thesis by (auto simp: cache_do_prefetch_def)
qed (use assms in \<open>simp add: cache_do_prefetch_def\<close>)

interpretation bc: sector_store
  "cache_inv :: 'a cache_scheme \<Rightarrow> bool" dev_size cache_view cache_read "\<lambda>a d. cache_write a d 0 512"
proof unfold_locales
  fix s :: "'a cache_scheme" and a and d :: "byte list"
  assume s: "cache_inv s" "a < dev_size s"
  then show "length (cache_view s a) = 512" by (rule length_cache_view)
  show "\<exists>t. cache_read a s = Some (cache_view s a, t) \<and> cache_inv t \<and> dev_size t = dev_size s \<and>
          (\<forall>b<dev_size s. cache_view t b = cache_view s b)"
    using cache_read_ok [OF s] by auto
  assume "length d = 512"
  then show "\<exists>t. cache_write a d 0 512 s = Some t \<and> cache_inv t \<and> dev_size t = dev_size s \<and>
          (\<forall>b<dev_size s. cache_view t b = (if b = a then d else cache_view s b))"
    using cache_write_ok [OF s, of 0 512 d] length_cache_view [OF s] by auto
qed

section \<open>Flushing\<close>

definition dirty_at :: "'a cache_scheme \<Rightarrow> nat \<Rightarrow> bool" where
  "dirty_at s i \<longleftrightarrow> i < 64 \<and> ce_state (ent s i) = CACHE_VALID \<and> ce_dirty (ent s i)"

definition flush_frame :: "'a cache_scheme \<Rightarrow> 'a cache_scheme \<Rightarrow> bool" where
  "flush_frame s t \<longleftrightarrow> (\<exists>m w es. t = s\<lparr>media := m, write_cnt := w, entries := es\<rparr>)"

lemma flush_frame_refl [simp]: "flush_frame s s"
  unfolding flush_frame_def
  by (intro exI [of _ "media s"] exI [of _ "write_cnt s"] exI [of _ "entries s"]) simp

lemma flush_frame_step:
  "flush_frame (put_ent i e (s\<lparr>media := m, write_cnt := w\<rparr>)) t \<Longrightarrow> flush_frame s t"
  by (auto simp: flush_frame_def put_ent_def)

lemma cache_flush_loop_ok:
  assumes "cache_inv s" and "set js \<subseteq> {..<64}"
  shows "\<exists>t. cache_flush_loop js s = Some t \<and> cache_inv t \<and> cache_view t = cache_view s \<and>
    dev_size t = dev_size s \<and> (\<forall>i. dirty_at t i \<longrightarrow> dirty_at s i \<and> i \<notin> set js) \<and>
    flush_frame s t"
  using assms
proof (induction js arbitrary: s)
  case Nil
  then show ?case by simp
next
  case (Cons i js)
  show ?case
  proof (cases "ce_state (ent s i) = CACHE_VALID \<and> ce_dirty (ent s i)")
    case False
    then have "cache_flush_loop (i # js) s = cache_flush_loop js s" by auto
    moreover obtain u where u: "cache_flush_loop js s = Some u" "cache_inv u" "cache_view u = cache_view s"
      "dev_size u = dev_size s" "\<forall>j. dirty_at u j \<longrightarrow> dirty_at s j \<and> j \<notin> set js" "flush_frame s u"
      using Cons.IH [OF Cons.prems(1)] Cons.prems(2) by auto
    moreover have "\<not> dirty_at s i" using False by (simp add: dirty_at_def)
    then have "\<forall>j. dirty_at u j \<longrightarrow> dirty_at s j \<and> j \<notin> set (i # js)" using u(5) by auto
    ultimately show ?thesis by (intro exI [of _ u]) simp
  next
    case True
    let ?a = "ce_sector (ent s i)"
    let ?t = "put_ent i ((ent s i)\<lparr>ce_dirty := False\<rparr>)
      (s\<lparr>media := (media s)(?a := ce_data (ent s i)), write_cnt := write_cnt s + 1\<rparr>)"
    have h: "holds s i ?a" using True Cons.prems by (simp add: holds_def)
    then have t: "cache_inv ?t" "cache_view ?t = cache_view s"
      using write_back_inv_view [OF Cons.prems(1) h] by simp_all
    have "?a < dev_size s" by (rule ent_okD(1) [OF cache_invD(5) [OF Cons.prems(1) holdsD(1) [OF h]] holdsD(2) [OF h]])
    then have eq: "cache_flush_loop (i # js) s = cache_flush_loop js ?t"
      using True cache_invD(1) [OF Cons.prems(1)] by (simp add: block_write_eq block_inv_def Let_def)
    have "dirty_at ?t j \<Longrightarrow> dirty_at s j \<and> j \<noteq> i" for j
      using cache_invD(2) [OF Cons.prems(1)] by (cases "j = i") (auto simp: dirty_at_def put_ent_def)
    note dirty = this
    obtain u where u: "cache_flush_loop js ?t = Some u" "cache_inv u" "cache_view u = cache_view ?t"
      "dev_size u = dev_size s" "\<forall>j. dirty_at u j \<longrightarrow> dirty_at ?t j \<and> j \<notin> set js" "flush_frame ?t u"
      using Cons.IH [OF t(1)] Cons.prems(2) by auto
    have "\<forall>j. dirty_at u j \<longrightarrow> dirty_at s j \<and> j \<notin> set (i # js)" using u(5) dirty by auto
    with eq u t(2) flush_frame_step [OF u(6)] show ?thesis by (intro exI [of _ u]) simp
  qed
qed

lemma cache_flush_ok:
  assumes "cache_inv s"
  shows "\<exists>t. cache_flush s = Some t \<and> cache_inv t \<and> cache_view t = cache_view s \<and> dev_size t = dev_size s \<and>
    (\<forall>i < 64. \<not> dirty_at t i) \<and> (\<forall>a. media t a = cache_view s a) \<and>
    flush_frame s t"
proof -
  have sub: "set [0..<64] \<subseteq> {..<64 :: nat}" by auto
  obtain t where t: "cache_flush s = Some t" "cache_inv t" "cache_view t = cache_view s"
    "dev_size t = dev_size s" "\<forall>i < 64. \<not> dirty_at t i"
    "flush_frame s t"
    using cache_flush_loop_ok [OF assms sub] by (auto simp: cache_flush_def)
  have "media t a = cache_view t a" for a
  proof (cases "\<exists>i. holds t i a")
    case True
    then obtain i where i: "holds t i a" by blast
    with t(5) have "\<not> ce_dirty (ent t i)" by (auto simp: dirty_at_def holds_def)
    with i ent_okD(3) [OF cache_invD(5) [OF t(2)]] show ?thesis
      using t(2) by (auto simp: cache_view_holds holds_def)
  next
    case False
    with t(2) show ?thesis by (simp add: cache_view_miss)
  qed
  with t show ?thesis by auto
qed

text \<open>
  (C2) Durability of a flush: after \<^verbatim>\<open>cache_flush\<close> the device holds, at every sector, exactly
  what readers saw before it; readers see the same as before and no entry is dirty.
\<close>

theorem cache_flush_durable:
  assumes "cache_inv s"
  shows "\<exists>t. cache_flush s = Some t \<and> cache_inv t \<and> (\<forall>a. media t a = cache_view s a) \<and>
    cache_view t = cache_view s \<and> (\<forall>e \<in> set (entries t). \<not> (ce_state e = CACHE_VALID \<and> ce_dirty e))"
proof -
  obtain t where t: "cache_flush s = Some t" "cache_inv t" "cache_view t = cache_view s"
    "\<forall>i < 64. \<not> dirty_at t i" "\<forall>a. media t a = cache_view s a"
    using cache_flush_ok [OF assms] by blast
  then have "\<forall>e \<in> set (entries t). \<not> (ce_state e = CACHE_VALID \<and> ce_dirty e)"
    using cache_invD(2) [OF t(2)] by (auto simp: in_set_conv_nth dirty_at_def)
  with t show ?thesis by blast
qed

lemma sample_cache_inv: "cache_inv sample_cache"
proof -
  have inj: "i = j" if "i < 64" "j < 64" "(word_of_nat i :: block_sector_t) = word_of_nat j" for i j :: nat
    using that by (simp add: word_of_nat_eq_iff take_bit_nat_eq_self)
  have lt: "(word_of_nat i :: block_sector_t) < 1000" if "i < 64" for i :: nat
    using that by (simp add: word_less_nat_alt unat_of_nat take_bit_nat_eq_self)
  have uc: "(ucast (word_of_nat i :: block_sector_t) :: byte) = word_of_nat i" if "i < 64" for i :: nat
    using that by (simp add: unsigned_of_nat take_bit_nat_eq_self)
  show ?thesis
    unfolding cache_inv_def
    by (auto simp: sample_cache_def block_inv_def ent_ok_def holds_def lt uc dest: inj)
qed

lemma cache_flush_durable_witness:
  "\<exists>t. cache_flush sample_cache = Some t \<and> (\<forall>a. media t a = cache_view sample_cache a)"
  using cache_flush_durable [OF sample_cache_inv] by blast

section \<open>The cache implements an uncached store\<close>

text \<open>
  The specification is a plain store: a map from sectors to bytes on which reads and writes act at
  once and the background threads do nothing. The implementation runs the same operations through
  the cache, with prefetching and flushing at any points in between.
\<close>

datatype cache_op =
    OpRead block_sector_t
  | OpReadAt block_sector_t int int
  | OpWrite block_sector_t "byte list" int int
  | OpFlusher
  | OpPrefetcher

fun spec_op :: "cache_op \<Rightarrow> (block_sector_t \<Rightarrow> byte list) \<Rightarrow> byte list \<times> (block_sector_t \<Rightarrow> byte list)" where
  "spec_op (OpRead a) m = (m a, m)"
| "spec_op (OpReadAt a ofs n) m = (take (nat n) (drop (nat ofs) (m a)), m)"
| "spec_op (OpWrite a buf ofs n) m = ([], m(a := patch (nat ofs) buf (m a)))"
| "spec_op OpFlusher m = ([], m)"
| "spec_op OpPrefetcher m = ([], m)"

fun exec_op :: "cache_op \<Rightarrow> 'a cache_scheme \<Rightarrow> (byte list \<times> 'a cache_scheme) option" where
  "exec_op (OpRead a) s = cache_read a s"
| "exec_op (OpReadAt a ofs n) s = cache_read_at a ofs n s"
| "exec_op (OpWrite a buf ofs n) s = map_option (Pair []) (cache_write a buf ofs n s)"
| "exec_op OpFlusher s = map_option (Pair []) (cache_flusher_step s)"
| "exec_op OpPrefetcher s = map_option (Pair []) (cache_prefetcher_step s)"

text \<open>Sectors accessed are on the device, and the one after a sector read is too:
  reading the last sector queues a prefetch past the end of the device.\<close>

fun op_ok :: "block_sector_t \<Rightarrow> cache_op \<Rightarrow> bool" where
  "op_ok sz (OpRead a) \<longleftrightarrow> a < sz \<and> a + 1 < sz"
| "op_ok sz (OpReadAt a ofs n) \<longleftrightarrow> a < sz \<and> a + 1 < sz \<and> 0 \<le> ofs \<and> 0 < n \<and> ofs + n \<le> 512"
| "op_ok sz (OpWrite a buf ofs n) \<longleftrightarrow> a < sz \<and> 0 \<le> ofs \<and> 0 < n \<and> ofs + n \<le> 512 \<and> length buf = nat n"
| "op_ok sz OpFlusher \<longleftrightarrow> True"
| "op_ok sz OpPrefetcher \<longleftrightarrow> True"

fun spec_run :: "cache_op list \<Rightarrow> (block_sector_t \<Rightarrow> byte list) \<Rightarrow> byte list list \<times> (block_sector_t \<Rightarrow> byte list)" where
  "spec_run [] m = ([], m)"
| "spec_run (x # xs) m = (let (r, m) = spec_op x m; (rs, m) = spec_run xs m in (r # rs, m))"

fun cache_run :: "cache_op list \<Rightarrow> 'a cache_scheme \<Rightarrow> (byte list list \<times> 'a cache_scheme) option" where
  "cache_run [] s = Some ([], s)"
| "cache_run (x # xs) s = do { (r, s) \<leftarrow> exec_op x s; (rs, s) \<leftarrow> cache_run xs s; Some (r # rs, s) }"

definition queue_ok :: "'a cache_scheme \<Rightarrow> bool" where
  "queue_ok s \<longleftrightarrow> (\<forall>a \<in> set (prefetch_queue s). a < dev_size s)"

lemma cache_frame_flush: "flush_frame s t \<Longrightarrow> cache_frame s t \<and> prefetch_queue t = prefetch_queue s"
  by (auto simp: flush_frame_def cache_frame_def)

lemma cache_inv_prefetch_head [simp]:
  "h < 16 \<Longrightarrow> cache_inv s \<Longrightarrow> cache_inv (s\<lparr>prefetch_head := h\<rparr>)"
  by (rule same_contents_inv [of s]) (auto simp: same_contents_def cache_inv_def)

lemma cache_view_prefetch_head [simp]: "cache_view (s\<lparr>prefetch_head := h\<rparr>) = cache_view s"
  by (auto simp: cache_view_def cache_lookup_def fun_eq_iff split: option.split)

lemma cache_prefetcher_step_ok:
  assumes "cache_inv s" and "queue_ok s"
  shows "\<exists>t. cache_prefetcher_step s = Some t \<and> cache_inv t \<and> cache_view t = cache_view s \<and>
    cache_frame s t \<and> prefetch_queue t = prefetch_queue s"
proof (cases "prefetch_head s = prefetch_tail s \<or> \<not> prefetcher_running s")
  case True
  with assms show ?thesis by (auto simp: cache_prefetcher_step_def)
next
  case False
  let ?a = "prefetch_queue s ! prefetch_head s"
  let ?s = "s\<lparr>prefetch_head := (prefetch_head s + 1) mod 16\<rparr>"
  have len: "length (prefetch_queue s) = 16" "prefetch_head s < 16" using assms(1) unfolding cache_inv_def by blast+
  then have "?a < dev_size ?s" using assms(2) by (auto simp: queue_ok_def)
  moreover have "cache_inv ?s" using assms(1) by simp
  ultimately obtain t where "cache_do_prefetch ?a ?s = Some t" "cache_inv t" "cache_view t = cache_view s"
    "cache_frame ?s t" "prefetch_queue t = prefetch_queue s"
    using cache_do_prefetch_ok [of ?s ?a] by auto
  with False show ?thesis by (auto simp: cache_prefetcher_step_def cache_frame_def Let_def)
qed

lemma queue_ok_insert:
  assumes "queue_ok s" "set (prefetch_queue t) \<subseteq> insert a (set (prefetch_queue s))" "a < dev_size s"
    "dev_size t = dev_size s"
  shows "queue_ok t"
  using assms unfolding queue_ok_def by (metis insertE subsetD)

lemma exec_op_ok:
  assumes "cache_inv s" "queue_ok s" and "op_ok (dev_size s) x"
  shows "\<exists>t. exec_op x s = Some (fst (spec_op x (cache_view s)), t) \<and>
    cache_view t = snd (spec_op x (cache_view s)) \<and> cache_inv t \<and> queue_ok t \<and> cache_frame s t"
proof (cases x)
  case (OpRead a)
  with assms cache_read_ok [OF assms(1), of a] show ?thesis
    by (auto intro: queue_ok_insert)
next
  case (OpReadAt a ofs n)
  with assms cache_read_ok [OF assms(1), of a] show ?thesis
    by (auto simp: cache_read_at_eq intro: queue_ok_insert)
next
  case (OpWrite a buf ofs n)
  with assms cache_write_ok [OF assms(1), of a ofs n buf] show ?thesis by (auto simp: queue_ok_def)
next
  case OpFlusher
  show ?thesis
  proof (cases "flusher_running s")
    case True
    obtain t where t: "cache_flush s = Some t" "cache_inv t" "cache_view t = cache_view s"
      "dev_size t = dev_size s" "flush_frame s t" using cache_flush_ok [OF assms(1)] by blast
    with cache_frame_flush [OF t(5)] True OpFlusher assms show ?thesis
      by (simp add: cache_flusher_step_def queue_ok_def)
  qed (use OpFlusher assms in \<open>simp add: cache_flusher_step_def\<close>)
next
  case OpPrefetcher
  with cache_prefetcher_step_ok [OF assms(1,2)] assms(2) show ?thesis
    by (auto simp: queue_ok_def cache_frame_size)
qed

lemma cache_run_ok:
  assumes "cache_inv s" "queue_ok s" and "\<forall>x \<in> set xs. op_ok (dev_size s) x"
  shows "\<exists>t. cache_run xs s = Some (fst (spec_run xs (cache_view s)), t) \<and>
    cache_view t = snd (spec_run xs (cache_view s)) \<and> cache_inv t \<and> queue_ok t \<and> cache_frame s t"
  using assms
proof (induction xs arbitrary: s)
  case Nil
  then show ?case by simp
next
  case (Cons x xs)
  obtain t where t: "exec_op x s = Some (fst (spec_op x (cache_view s)), t)"
    "cache_view t = snd (spec_op x (cache_view s))" "cache_inv t" "queue_ok t" "cache_frame s t"
    using exec_op_ok [OF Cons.prems(1,2), of x] Cons.prems(3) by auto
  obtain u where u: "cache_run xs t = Some (fst (spec_run xs (cache_view t)), u)"
    "cache_view u = snd (spec_run xs (cache_view t))" "cache_inv u" "queue_ok u" "cache_frame t u"
    using Cons.IH [OF t(3,4)] Cons.prems(3) cache_frame_size [OF t(5)] by auto
  with t cache_frame_trans [OF t(5) u(5)] show ?case by (simp add: case_prod_beta)
qed



section \<open>Prefetching past the end\<close>

text \<open>Loading a sector and reading leave the queue as it is, but for the request that a read adds.\<close>

definition queue_of :: "'a cache_scheme \<Rightarrow> block_sector_t list \<times> nat \<times> nat" where
  "queue_of s = (prefetch_queue s, prefetch_head s, prefetch_tail s)"

lemma queue_of_simps [simp]:
  "queue_of (put_ent i e s) = queue_of s" "queue_of (s\<lparr>clock_hand := h\<rparr>) = queue_of s"
  "queue_of (s\<lparr>cache_hits := n\<rparr>) = queue_of s" "queue_of (s\<lparr>cache_misses := n\<rparr>) = queue_of s"
  "queue_of (s\<lparr>cache_evictions := n\<rparr>) = queue_of s" "queue_of (s\<lparr>cache_writebacks := n\<rparr>) = queue_of s"
  "queue_of (s\<lparr>fifo_hand := h\<rparr>) = queue_of s"
  by (simp_all add: queue_of_def)

lemma block_queue:
  "block_write a d s = Some t \<Longrightarrow> queue_of t = queue_of s"
  "block_read a s = Some (d', t) \<Longrightarrow> queue_of t = queue_of s"
  by (auto simp: block_write_def block_read_def queue_of_def Let_def split: Option.bind_splits)

lemma evict_clock_queue: "evict_clock n s = Some (v, t) \<Longrightarrow> queue_of t = queue_of s"
  by (induction n s rule: evict_clock.induct)
    (subst (asm) (2) evict_clock.simps, auto simp: Let_def split: if_splits)

lemma cache_load_queue:
  assumes "replacement_policy s = CACHE_REPLACE_CLOCK" and "cache_load a acc s = Some (v, t)"
  shows "queue_of t = queue_of s"
proof -
  have "cache_evict s = Some (v, u) \<Longrightarrow> queue_of u = queue_of s" for v u
    using assms(1)
    by (auto simp: cache_evict_def select_victim_def Let_def dest!: evict_clock_queue block_queue
        split: option.splits Option.bind_splits if_splits)
  with assms(2) show ?thesis
    by (auto simp: cache_load_def Let_def dest!: block_queue split: Option.bind_splits)
qed

lemma cache_read_queue:
  assumes "cache_inv s" and "cache_read a s = Some (d, t)"
  shows "\<exists>u. queue_of u = queue_of s \<and> t = cache_request_prefetch (a + 1) u"
  using assms(2) cache_load_queue [of "s\<lparr>cache_misses := cache_misses s + 1\<rparr>" a True] cache_invD(4) [OF assms(1)]
  by (auto simp: cache_read_def Let_def split: option.splits Option.bind_splits if_splits)
    (metis queue_of_simps(1,3))

lemma cache_prefetcher_past_end:
  assumes "cache_inv s" "prefetch_head s \<noteq> prefetch_tail s" "prefetcher_running s"
    and "\<not> prefetch_queue s ! prefetch_head s < dev_size s"
  shows "cache_prefetcher_step s = None"
proof -
  let ?a = "prefetch_queue s ! prefetch_head s"
  let ?s = "s\<lparr>prefetch_head := (prefetch_head s + 1) mod 16\<rparr>"
  have inv: "cache_inv ?s" using assms(1) by simp
  have miss: "cache_lookup ?a ?s = None"
  proof (cases "cache_lookup ?a ?s")
    case (Some i)
    then have h: "holds ?s i ?a" using inv by (simp add: cache_lookup_Some)
    have "?a < dev_size ?s"
      using ent_okD(1) [OF cache_invD(5) [OF inv holdsD(1) [OF h]] holdsD(2) [OF h]] holdsD(3) [OF h] by simp
    with assms(4) show ?thesis by simp
  qed simp
  obtain v u where "cache_evict ?s = Some (v, u)" "dev_size u = dev_size s"
    using cache_evict_ok [OF inv] by auto
  then have "cache_load ?a False ?s = None"
    using assms(4) by (simp add: cache_load_def block_read_def check_sector_def ASSERT_def not_less)
  with miss assms(2,3) show ?thesis
    by (simp add: cache_prefetcher_step_def cache_do_prefetch_def Let_def)
qed

text \<open>
  (C5) Reading the last sector of the device stops the kernel: the read itself succeeds, but it
  queues the sector after the last one, and the next round of the prefetcher thread reads that sector
  from the device, whose bounds check panics.
\<close>

theorem prefetch_past_end_panics:
  assumes "cache_inv s" "prefetch_head s = prefetch_tail s" "prefetcher_running s"
    and "a < dev_size s" and "a + 1 = dev_size s"
  shows "\<exists>t. cache_read a s = Some (cache_view s a, t) \<and> cache_prefetcher_step t = None"
proof -
  obtain t where t: "cache_read a s = Some (cache_view s a, t)" "cache_inv t" "dev_size t = dev_size s"
    "cache_frame s t" using cache_read_ok [OF assms(1,4)] by blast
  obtain u where u: "queue_of u = queue_of s" "t = cache_request_prefetch (a + 1) u"
    using cache_read_queue [OF assms(1) t(1)] by blast
  have b: "length (prefetch_queue s) = 16" "prefetch_tail s < 16" using assms(1) unfolding cache_inv_def by blast+
  have "(prefetch_tail s + 1) mod 16 \<noteq> prefetch_tail s" using b(2) by presburger
  with u b assms(2) have "prefetch_head t \<noteq> prefetch_tail t" "prefetch_queue t ! prefetch_head t = a + 1"
    by (auto simp: queue_of_def cache_request_prefetch_def Let_def)
  with t assms(3,5) have "cache_prefetcher_step t = None"
    by (intro cache_prefetcher_past_end) (simp_all add: cache_frame_def)
  with t(1) show ?thesis by blast
qed

lemma prefetch_past_end_panics_witness:
  "\<exists>t. cache_read 999 sample_cache = Some (replicate 512 (ucast (999 :: block_sector_t)), t) \<and>
    cache_prefetcher_step t = None"
proof -
  have n: "\<not> holds sample_cache i 999" for i
  proof
    assume "holds sample_cache i 999"
    then have i: "i < 64" and "(word_of_nat i :: block_sector_t) = 999" by (auto simp: holds_def sample_cache_def)
    then have "unat (word_of_nat i :: block_sector_t) = unat (999 :: block_sector_t)" by simp
    with i show False by (simp add: unat_of_nat take_bit_nat_eq_self)
  qed
  have "cache_view sample_cache 999 = replicate 512 (ucast (999 :: block_sector_t))"
    using cache_view_miss [OF sample_cache_inv n] by (simp add: sample_cache_def)
  then show ?thesis
    using prefetch_past_end_panics [OF sample_cache_inv, of 999] by (simp add: sample_cache_def)
qed

end
