(* ===== verification/Wal.thy ===== *)
theory Wal
  imports Wal_Record Buffer_Cache
begin

text \<open>
  The write-ahead log (\<^verbatim>\<open>filesys/wal.c\<close>): the log manager's state, the log buffer and its flush to
  the 64 log sectors, transactions, checkpoints, and crash recovery.

  The log buffer is the memory the code allocates, a list of bytes; a transaction handle is an
  address in a small heap, and \<open>current_txn\<close> is the field of the running thread. Messages printed
  during recovery are not part of the state.
\<close>

section \<open>State\<close>

datatype txn_state = TXN_ACTIVE | TXN_COMMITTED | TXN_ABORTED

record wal_txn =
  txn_id :: txn_id_t
  txn_st :: txn_state
  first_lsn :: lsn_t
  last_lsn :: lsn_t

record wal_metadata =
  magic :: u32
  clean_shutdown :: u32
  meta_last_lsn :: lsn_t
  meta_last_txn_id :: txn_id_t
  meta_padding :: "byte list"

record wal = cache +
  next_lsn :: lsn_t
  flushed_lsn :: lsn_t
  next_txn_id :: txn_id_t
  log_buffer :: "byte list option"
  buffer_size :: nat
  buffer_used :: nat
  active_txns :: "nat list"
  checkpoint_lsn :: lsn_t
  checkpointing :: bool
  stats_txn_begun :: u32
  stats_txn_committed :: u32
  stats_txn_aborted :: u32
  stats_writes_logged :: u32
  checkpoint_pending :: bool
  txn_heap :: "nat \<Rightarrow> wal_txn option"
  current_txn :: "nat option"

record undo_entry =
  ue_sector :: block_sector_t
  ue_offset :: u16
  ue_length :: u16
  ue_old_data :: "byte list"
  ue_lsn :: lsn_t

section \<open>Metadata\<close>

definition encode_meta :: "wal_metadata \<Rightarrow> byte list" where
  "encode_meta m = le_bytes 4 (magic m) @ le_bytes 4 (clean_shutdown m) @ le_bytes 8 (meta_last_lsn m) @
     le_bytes 4 (meta_last_txn_id m) @ meta_padding m"

definition decode_meta :: "byte list \<Rightarrow> wal_metadata" where
  "decode_meta bs = \<lparr>magic = le_word (bytes_at 0 4 bs), clean_shutdown = le_word (bytes_at 4 4 bs),
     meta_last_lsn = le_word (bytes_at 8 8 bs), meta_last_txn_id = le_word (bytes_at 16 4 bs),
     meta_padding = bytes_at 20 492 bs\<rparr>"

definition wal_read_metadata :: "'a wal_scheme \<Rightarrow> (wal_metadata \<times> 'a wal_scheme) option" where
  "wal_read_metadata s = do { (d, s) \<leftarrow> block_read WAL_METADATA_SECTOR s; Some (decode_meta d, s) }"

definition wal_write_metadata :: "wal_metadata \<Rightarrow> 'a wal_scheme \<Rightarrow> 'a wal_scheme option" where
  "wal_write_metadata meta s = block_write WAL_METADATA_SECTOR (encode_meta meta) s"

definition wal_init_metadata :: "'a wal_scheme \<Rightarrow> 'a wal_scheme option" where
  "wal_init_metadata s = wal_write_metadata
     \<lparr>magic = WAL_METADATA_MAGIC, clean_shutdown = 1, meta_last_lsn = 0, meta_last_txn_id = 0,
      meta_padding = replicate 492 0\<rparr> s"

section \<open>The log buffer\<close>

definition log_slot :: "lsn_t \<Rightarrow> block_sector_t" where
  "log_slot n = ucast (2 + (n - 1) mod 64 :: lsn_t)"

fun wal_flush_loop :: "nat list \<Rightarrow> byte list \<Rightarrow> lsn_t \<Rightarrow> 'a wal_scheme \<Rightarrow> (lsn_t \<times> 'a wal_scheme) option" where
  "wal_flush_loop [] buf max_lsn_written s = Some (max_lsn_written, s)"
| "wal_flush_loop (i # js) buf max_lsn_written s = do {
     let rec = bytes_at (i * BLOCK_SECTOR_SIZE) BLOCK_SECTOR_SIZE buf;
     let n = lsn (decode rec);
     s \<leftarrow> block_write (log_slot n) rec s;
     wal_flush_loop js buf (if n > max_lsn_written then n else max_lsn_written) s
   }"

definition wal_flush :: "lsn_t \<Rightarrow> 'a wal_scheme \<Rightarrow> 'a wal_scheme option" where
  "wal_flush up_to_lsn s =
    (if up_to_lsn \<le> flushed_lsn s then Some s
     else if buffer_used s = 0 then Some s
     else do {
       buf \<leftarrow> log_buffer s;
       let num_records = buffer_used s div BLOCK_SECTOR_SIZE;
       (max_lsn_written, s) \<leftarrow> wal_flush_loop [0..<num_records] buf (flushed_lsn s) s;
       Some (s\<lparr>flushed_lsn := max_lsn_written\<rparr>)
     })"

text \<open>The tail of \<^verbatim>\<open>wal_append_record\<close>: the checkpoint mark, the next LSN, and the test for a log that is 75 per cent full.\<close>

definition wal_count_record :: "lsn_t \<Rightarrow> bool \<Rightarrow> 'a wal_scheme \<Rightarrow> 'a wal_scheme" where
  "wal_count_record assigned_lsn is_checkpoint s =
    (let s = (if is_checkpoint then s\<lparr>checkpoint_lsn := assigned_lsn\<rparr> else s);
         s = s\<lparr>next_lsn := next_lsn s + 1\<rparr>;
         log_used = (if checkpoint_lsn s = 0 then next_lsn s - 1 else next_lsn s - checkpoint_lsn s)
     in if log_used \<ge> 48 \<and> \<not> checkpointing s then s\<lparr>checkpoint_pending := True\<rparr> else s)"

lemma wal_count_record_eq:
  "\<exists>c p. wal_count_record n b s = s\<lparr>checkpoint_lsn := c, next_lsn := next_lsn s + 1, checkpoint_pending := p\<rparr>"
proof -
  let ?c = "if b then n else checkpoint_lsn s"
  let ?t = "s\<lparr>checkpoint_lsn := ?c, next_lsn := next_lsn s + 1\<rparr>"
  have "wal_count_record n b s = ?t\<lparr>checkpoint_pending := True\<rparr> \<or>
      wal_count_record n b s = ?t\<lparr>checkpoint_pending := checkpoint_pending s\<rparr>"
    by (cases b) (simp_all add: wal_count_record_def Let_def)
  then show ?thesis by blast
qed

definition wal_append_record :: "wal_record \<Rightarrow> 'a wal_scheme \<Rightarrow> (lsn_t \<times> 'a wal_scheme) option" where
  "wal_append_record record s = do {
     let assigned_lsn = next_lsn s;
     let record = seal assigned_lsn record;
     s \<leftarrow> (if buffer_used s + BLOCK_SECTOR_SIZE > buffer_size s
          then do { s \<leftarrow> wal_flush (next_lsn s - 1) s; Some (s\<lparr>buffer_used := 0\<rparr>) }
          else Some s);
     buf \<leftarrow> log_buffer s;
     ASSERT (buffer_used s + BLOCK_SECTOR_SIZE \<le> length buf);
     let s = s\<lparr>log_buffer := Some (patch (buffer_used s) (encode record) buf),
               buffer_used := buffer_used s + BLOCK_SECTOR_SIZE\<rparr>;
     let s = wal_count_record assigned_lsn (rec_type record = type_code WAL_CHECKPOINT) s;
     Some (assigned_lsn, s)
   }"

definition wal_read_record :: "lsn_t \<Rightarrow> 'a wal_scheme \<Rightarrow> (wal_record option \<times> 'a wal_scheme) option" where
  "wal_read_record n s =
    (if n = 0 then Some (None, s)
     else do {
       (d, s) \<leftarrow> block_read (log_slot n) s;
       let record = decode d;
       if lsn record \<noteq> n then Some (None, s)
       else Some (if checksum_ok record then Some record else None, s)
     })"

section \<open>Checkpoint\<close>

definition wal_checkpoint :: "'a wal_scheme \<Rightarrow> 'a wal_scheme option" where
  "wal_checkpoint s =
    (if checkpointing s then Some s
     else do {
       let s = s\<lparr>checkpointing := True\<rparr>;
       s \<leftarrow> cache_flush s;
       s \<leftarrow> (if next_lsn s > 0 then wal_flush (next_lsn s - 1) s else Some s);
       (_, s) \<leftarrow> wal_append_record (zero_record\<lparr>rec_type := type_code WAL_CHECKPOINT, rec_txn := 0\<rparr>) s;
       let checkpoint_lsn = next_lsn s - 1;
       s \<leftarrow> wal_flush checkpoint_lsn s;
       Some (s\<lparr>checkpointing := False\<rparr>)
     })"

section \<open>Transactions\<close>

definition wal_set_current_txn :: "nat option \<Rightarrow> 'a wal_scheme \<Rightarrow> 'a wal_scheme" where
  "wal_set_current_txn txn s = s\<lparr>current_txn := txn\<rparr>"

definition wal_get_current_txn :: "'a wal_scheme \<Rightarrow> nat option" where
  "wal_get_current_txn s = current_txn s"

text \<open>A new handle lives at the address the allocator's counter gives it.\<close>

definition wal_txn_begin :: "'a wal_scheme \<Rightarrow> (nat option \<times> 'a wal_scheme) option" where
  "wal_txn_begin s0 = do {
     let (ok, s) = malloc s0;
     let txn = mallocs s0;
     if \<not> ok then Some (None, s)
     else do {
       let id = next_txn_id s;
       let s = s\<lparr>next_txn_id := next_txn_id s + 1, stats_txn_begun := stats_txn_begun s + 1\<rparr>;
       (begin_lsn, s) \<leftarrow> wal_append_record (zero_record\<lparr>rec_type := type_code WAL_BEGIN, rec_txn := id\<rparr>) s;
       let t = \<lparr>txn_id = id, txn_st = TXN_ACTIVE, first_lsn = begin_lsn, last_lsn = begin_lsn\<rparr>;
       Some (Some txn, s\<lparr>txn_heap := (txn_heap s)(txn := Some t), active_txns := active_txns s @ [txn]\<rparr>)
     }
   }"

definition wal_txn_commit :: "nat option \<Rightarrow> 'a wal_scheme \<Rightarrow> (bool \<times> 'a wal_scheme) option" where
  "wal_txn_commit txn s = (case txn of
     None \<Rightarrow> Some (False, s)
   | Some p \<Rightarrow> do {
       t \<leftarrow> txn_heap s p;
       if txn_st t \<noteq> TXN_ACTIVE then Some (False, s)
       else do {
         (commit_lsn, s) \<leftarrow> wal_append_record (zero_record\<lparr>rec_type := type_code WAL_COMMIT, rec_txn := txn_id t\<rparr>) s;
         s \<leftarrow> wal_flush commit_lsn s;
         let s = s\<lparr>active_txns := remove1 p (active_txns s), stats_txn_committed := stats_txn_committed s + 1\<rparr>;
         let s = s\<lparr>txn_heap := (txn_heap s)(p := None)\<rparr>;
         if checkpoint_pending s
         then do {
           let s = wal_set_current_txn None s;
           s \<leftarrow> wal_checkpoint (s\<lparr>checkpoint_pending := False\<rparr>);
           Some (True, s)
         }
         else Some (True, s)
       }
     })"

definition MAX_UNDO_RECORDS :: nat where "MAX_UNDO_RECORDS = 64"

function wal_collect_undo ::
  "txn_id_t \<Rightarrow> lsn_t \<Rightarrow> lsn_t \<Rightarrow> lsn_t list \<Rightarrow> 'a wal_scheme \<Rightarrow> (lsn_t list \<times> 'a wal_scheme) option" where
  "wal_collect_undo tid n end_lsn undo_lsns s =
    (if n < end_lsn \<and> length undo_lsns < MAX_UNDO_RECORDS
     then do {
       (r, s) \<leftarrow> wal_read_record n s;
       let undo_lsns = (case r of
           Some rec \<Rightarrow> if rec_txn rec = tid \<and> rec_type rec = type_code WAL_WRITE then undo_lsns @ [n] else undo_lsns
         | None \<Rightarrow> undo_lsns);
       wal_collect_undo tid (n + 1) end_lsn undo_lsns s
     }
     else Some (undo_lsns, s))"
  by pat_completeness auto
termination
  by (relation "measure (\<lambda>(tid, n, end_lsn, undo_lsns, s). unat end_lsn - unat n)")
    (auto simp: unat_Suc_less word_less_nat_alt)

declare wal_collect_undo.simps [simp del]

text \<open>
  Restoring the before images through the cache; the list is in the order of the loop, newest first.
  A record whose length exceeds its data array makes the copy read outside the array.
\<close>

fun wal_undo_writes :: "lsn_t list \<Rightarrow> 'a wal_scheme \<Rightarrow> 'a wal_scheme option" where
  "wal_undo_writes [] s = Some s"
| "wal_undo_writes (n # ns) s = do {
     (r, s) \<leftarrow> wal_read_record n s;
     s \<leftarrow> (case r of
         None \<Rightarrow> Some s
       | Some rec \<Rightarrow> do {
           ASSERT (unat (rec_length rec) \<le> WAL_MAX_DATA_SIZE);
           cache_write (rec_sector rec) (old_data rec) (int (unat (rec_offset rec))) (int (unat (rec_length rec))) s
         });
     wal_undo_writes ns s
   }"

definition wal_txn_abort :: "nat option \<Rightarrow> 'a wal_scheme \<Rightarrow> 'a wal_scheme option" where
  "wal_txn_abort txn s = (case txn of
     None \<Rightarrow> Some s
   | Some p \<Rightarrow> do {
       t \<leftarrow> txn_heap s p;
       let drop_txn = (\<lambda>s. s\<lparr>active_txns := remove1 p (active_txns s), stats_txn_aborted := stats_txn_aborted s + 1,
                            txn_heap := (txn_heap s)(p := None)\<rparr>);
       if txn_st t \<noteq> TXN_ACTIVE then Some s
       else do {
         let (ok, s) = malloc s;
         if \<not> ok then Some (drop_txn s)
         else do {
           let end_lsn = next_lsn s;
           s \<leftarrow> wal_flush end_lsn s;
           let (ok, s) = malloc s;
           if \<not> ok then Some (drop_txn s)
           else do {
             (undo_lsns, s) \<leftarrow> wal_collect_undo (txn_id t) (first_lsn t) end_lsn [] s;
             s \<leftarrow> wal_undo_writes (rev undo_lsns) s;
             s \<leftarrow> cache_flush s;
             (_, s) \<leftarrow> wal_append_record (zero_record\<lparr>rec_type := type_code WAL_ABORT, rec_txn := txn_id t\<rparr>) s;
             Some (drop_txn s)
           }
         }
       }
     })"

section \<open>Logging a write\<close>

text \<open>
  The loop of \<^verbatim>\<open>wal_log_write\<close>, with the 16-bit counter \<open>bytes_logged\<close>; \<open>last_n\<close> is the handle's
  \<^verbatim>\<open>last_lsn\<close>. Reading past the end of a data argument does not return.
\<close>

definition chunk_size :: "u16 \<Rightarrow> u16 \<Rightarrow> u16" where
  "chunk_size len bytes_logged = (if len - bytes_logged > 232 then 232 else len - bytes_logged)"

definition write_record ::
  "txn_id_t \<Rightarrow> block_sector_t \<Rightarrow> byte list \<Rightarrow> byte list \<Rightarrow> u16 \<Rightarrow> u16 \<Rightarrow> u16 \<Rightarrow> wal_record" where
  "write_record tid sector old new offset bytes_logged c =
    zero_record\<lparr>rec_type := type_code WAL_WRITE, rec_txn := tid, rec_sector := sector,
      rec_offset := offset + bytes_logged, rec_length := c,
      old_data := patch 0 (bytes_at (unat bytes_logged) (unat c) old) (old_data zero_record),
      new_data := patch 0 (bytes_at (unat bytes_logged) (unat c) new) (new_data zero_record)\<rparr>"

lemma chunk_size_bounds:
  assumes "b < l"
  shows "unat (b + chunk_size l b) = unat b + unat (chunk_size l b)" "0 < unat (chunk_size l b)"
    "unat b + unat (chunk_size l b) \<le> unat l" "unat (chunk_size l b) = min 232 (unat l - unat b)"
proof -
  have d: "unat (l - b) = unat l - unat b" using assms by (simp add: unat_sub)
  show c: "unat (chunk_size l b) = min 232 (unat l - unat b)"
    using d by (auto simp: chunk_size_def word_less_nat_alt min_def)
  have "unat b < unat l" using assms by (simp add: word_less_nat_alt)
  then show "0 < unat (chunk_size l b)" "unat b + unat (chunk_size l b) \<le> unat l" using c by auto
  then show "unat (b + chunk_size l b) = unat b + unat (chunk_size l b)" by (intro unat_add_bounded [of b _ l])
qed

function wal_log_chunks ::
  "txn_id_t \<Rightarrow> block_sector_t \<Rightarrow> byte list \<Rightarrow> byte list \<Rightarrow> u16 \<Rightarrow> u16 \<Rightarrow> u16 \<Rightarrow> lsn_t \<Rightarrow> 'a wal_scheme \<Rightarrow>
   (lsn_t \<times> 'a wal_scheme) option" where
  "wal_log_chunks tid sector old new offset len bytes_logged last_n s =
    (if bytes_logged < len
     then do {
       let c = chunk_size len bytes_logged;
       ASSERT (unat bytes_logged + unat c \<le> length old \<and> unat bytes_logged + unat c \<le> length new);
       (n, s) \<leftarrow> wal_append_record (write_record tid sector old new offset bytes_logged c) s;
       wal_log_chunks tid sector old new offset len (bytes_logged + c) n s
     }
     else Some (last_n, s))"
  by pat_completeness auto
termination wal_log_chunks
proof (relation "measure (\<lambda>(tid, sector, old, new, offset, len, b, n, s). unat len - unat b)", goal_cases)
  case (2 tid sector old new offset len b n s c u x y z)
  then show ?case using chunk_size_bounds(1-3) [of b len] by (simp add: word_less_nat_alt)
qed simp

declare wal_log_chunks.simps [simp del]

definition wal_log_write ::
  "nat option \<Rightarrow> block_sector_t \<Rightarrow> byte list \<Rightarrow> byte list \<Rightarrow> u16 \<Rightarrow> u16 \<Rightarrow> 'a wal_scheme \<Rightarrow>
   (bool \<times> 'a wal_scheme) option" where
  "wal_log_write txn sector old new offset len s = (case txn of
     None \<Rightarrow> Some (False, s)
   | Some p \<Rightarrow> do {
       t \<leftarrow> txn_heap s p;
       if txn_st t \<noteq> TXN_ACTIVE then Some (False, s)
       else do {
         (n, s) \<leftarrow> wal_log_chunks (txn_id t) sector old new offset len 0 (last_lsn t) s;
         Some (True, s\<lparr>txn_heap := (txn_heap s)(p := Some (t\<lparr>last_lsn := n\<rparr>)),
                       stats_writes_logged := stats_writes_logged s + 1\<rparr>)
       }
     })"

section \<open>Recovery\<close>

definition MAX_TXNS :: nat where "MAX_TXNS = 256"
definition MAX_UNDO :: nat where "MAX_UNDO = 512"

text \<open>
  Each phase scans the log sectors in order. \<open>seen\<close> holds the parallel arrays \<^verbatim>\<open>seen_txns\<close>,
  \<^verbatim>\<open>txn_committed\<close> and \<^verbatim>\<open>txn_aborted\<close>.
\<close>

definition wal_scan_sector :: "nat \<Rightarrow> 'a wal_scheme \<Rightarrow> (wal_record \<times> 'a wal_scheme) option" where
  "wal_scan_sector i s = do {
     (d, s) \<leftarrow> block_read (WAL_LOG_START_SECTOR + word_of_nat i) s;
     Some (decode d, s)
   }"

definition note_txn :: "wal_record \<Rightarrow> (txn_id_t \<times> bool \<times> bool) list \<Rightarrow> (txn_id_t \<times> bool \<times> bool) list" where
  "note_txn rec seen =
    (let seen = (if rec_txn rec \<notin> set (map fst seen) \<and> length seen < MAX_TXNS \<and> rec_txn rec \<noteq> 0
                 then seen @ [(rec_txn rec, False, False)] else seen)
     in map (\<lambda>(tid, c, a).
          if tid = rec_txn rec then
            if rec_type rec = type_code WAL_COMMIT then (tid, True, a)
            else if rec_type rec = type_code WAL_ABORT then (tid, c, True)
            else (tid, c, a)
          else (tid, c, a)) seen)"

fun wal_analysis ::
  "nat list \<Rightarrow> lsn_t \<Rightarrow> (txn_id_t \<times> bool \<times> bool) list \<Rightarrow> 'a wal_scheme \<Rightarrow>
   (lsn_t \<times> (txn_id_t \<times> bool \<times> bool) list \<times> 'a wal_scheme) option" where
  "wal_analysis [] max_lsn seen s = Some (max_lsn, seen, s)"
| "wal_analysis (i # js) max_lsn seen s = do {
     (rec, s) \<leftarrow> wal_scan_sector i s;
     if \<not> checksum_ok rec \<or> lsn rec = 0 then wal_analysis js max_lsn seen s
     else wal_analysis js (if lsn rec > max_lsn then lsn rec else max_lsn) (note_txn rec seen) s
   }"

definition committed_txns :: "(txn_id_t \<times> bool \<times> bool) list \<Rightarrow> txn_id_t list" where
  "committed_txns seen = [tid. (tid, c, a) \<leftarrow> seen, c]"

definition uncommitted_txns :: "(txn_id_t \<times> bool \<times> bool) list \<Rightarrow> txn_id_t list" where
  "uncommitted_txns seen = [tid. (tid, c, a) \<leftarrow> seen, \<not> c \<and> \<not> a]"

text \<open>Read a sector, copy \<open>n\<close> bytes over it at an offset, write it; a copy outside the arrays does not return.\<close>

definition wal_patch_sector ::
  "block_sector_t \<Rightarrow> u16 \<Rightarrow> u16 \<Rightarrow> byte list \<Rightarrow> 'a wal_scheme \<Rightarrow> 'a wal_scheme option" where
  "wal_patch_sector sector offset n data s = do {
     (sector_data, s) \<leftarrow> block_read sector s;
     ASSERT (unat n \<le> length data \<and> unat offset + unat n \<le> length sector_data);
     block_write sector (patch (unat offset) (take (unat n) data) sector_data) s
   }"

fun wal_redo :: "nat list \<Rightarrow> txn_id_t list \<Rightarrow> 'a wal_scheme \<Rightarrow> 'a wal_scheme option" where
  "wal_redo [] committed s = Some s"
| "wal_redo (i # js) committed s = do {
     (rec, s) \<leftarrow> wal_scan_sector i s;
     if \<not> checksum_ok rec \<or> rec_type rec \<noteq> type_code WAL_WRITE then wal_redo js committed s
     else if rec_txn rec \<in> set committed
     then do {
       s \<leftarrow> wal_patch_sector (rec_sector rec) (rec_offset rec) (rec_length rec) (new_data rec) s;
       wal_redo js committed s
     }
     else wal_redo js committed s
   }"

definition undo_entry_of :: "wal_record \<Rightarrow> undo_entry" where
  "undo_entry_of rec = \<lparr>ue_sector = rec_sector rec, ue_offset = rec_offset rec, ue_length = rec_length rec,
     ue_old_data = take (unat (rec_length rec)) (old_data rec), ue_lsn = lsn rec\<rparr>"

fun wal_undo_collect ::
  "nat list \<Rightarrow> txn_id_t list \<Rightarrow> undo_entry list \<Rightarrow> 'a wal_scheme \<Rightarrow> (undo_entry list \<times> 'a wal_scheme) option" where
  "wal_undo_collect [] uncommitted acc s = Some (acc, s)"
| "wal_undo_collect (i # js) uncommitted acc s = do {
     (rec, s) \<leftarrow> wal_scan_sector i s;
     if \<not> checksum_ok rec \<or> rec_type rec \<noteq> type_code WAL_WRITE then wal_undo_collect js uncommitted acc s
     else if rec_txn rec \<in> set uncommitted \<and> length acc < MAX_UNDO
     then do {
       ASSERT (unat (rec_length rec) \<le> WAL_MAX_DATA_SIZE);
       wal_undo_collect js uncommitted (acc @ [undo_entry_of rec]) s
     }
     else wal_undo_collect js uncommitted acc s
   }"

text \<open>
  The exchange sort, largest LSN first: \<open>undo_sort_pass\<close> is the inner loop for a fixed \<^verbatim>\<open>i\<close>, with the
  element at \<^verbatim>\<open>i\<close> in hand; it returns that element and the rest of the array after the exchanges.
\<close>

fun undo_sort_pass :: "undo_entry \<Rightarrow> undo_entry list \<Rightarrow> undo_entry \<times> undo_entry list" where
  "undo_sort_pass x [] = (x, [])"
| "undo_sort_pass x (y # ys) =
    (if ue_lsn y > ue_lsn x
     then let (m, zs) = undo_sort_pass y ys in (m, x # zs)
     else let (m, zs) = undo_sort_pass x ys in (m, y # zs))"

lemma length_undo_sort_pass [simp]: "length (snd (undo_sort_pass x ys)) = length ys"
  by (induction x ys rule: undo_sort_pass.induct) (auto simp: case_prod_beta Let_def)

function undo_sort :: "undo_entry list \<Rightarrow> undo_entry list" where
  "undo_sort [] = []"
| "undo_sort (x # xs) = (let (m, ys) = undo_sort_pass x xs in m # undo_sort ys)"
  by pat_completeness auto
termination undo_sort
proof (relation "measure length", goal_cases)
  case (2 x xs r m ys)
  then show ?case using length_undo_sort_pass [of x xs] by (metis in_measure length_Cons less_Suc_eq snd_conv)
qed simp

fun wal_undo_apply :: "undo_entry list \<Rightarrow> 'a wal_scheme \<Rightarrow> 'a wal_scheme option" where
  "wal_undo_apply [] s = Some s"
| "wal_undo_apply (u # us) s = do {
     s \<leftarrow> wal_patch_sector (ue_sector u) (ue_offset u) (ue_length u) (ue_old_data u) s;
     wal_undo_apply us s
   }"

definition next_txn_after :: "(txn_id_t \<times> bool \<times> bool) list \<Rightarrow> txn_id_t" where
  "next_txn_after seen = foldl (\<lambda>nxt (tid, c, a). if tid \<ge> nxt then tid + 1 else nxt) 1 seen"

definition wal_recover :: "'a wal_scheme \<Rightarrow> 'a wal_scheme option" where
  "wal_recover s = do {
     (max_lsn, seen, s) \<leftarrow> wal_analysis [0..<WAL_LOG_SECTORS] 0 [] s;
     s \<leftarrow> wal_redo [0..<WAL_LOG_SECTORS] (committed_txns seen) s;
     let finish = (\<lambda>s. s\<lparr>next_lsn := max_lsn + 1, flushed_lsn := max_lsn, next_txn_id := next_txn_after seen\<rparr>);
     let (ok, s) = malloc s;
     if \<not> ok then Some (finish s)
     else do {
       (undo_records, s) \<leftarrow> wal_undo_collect [0..<WAL_LOG_SECTORS] (uncommitted_txns seen) [] s;
       s \<leftarrow> wal_undo_apply (undo_sort undo_records) s;
       Some (finish s)
     }
   }"

section \<open>Start and stop\<close>

text \<open>\<open>junk\<close> is what the allocated buffer happens to contain.\<close>

definition wal_init_buffer :: "byte list \<Rightarrow> 'a wal_scheme \<Rightarrow> 'a wal_scheme option" where
  "wal_init_buffer junk s = do {
     let (ok, s) = malloc s;
     ASSERT ok;
     Some (s\<lparr>log_buffer := Some junk, buffer_size := WAL_BUFFER_SIZE, buffer_used := 0,
             stats_txn_begun := 0, stats_txn_committed := 0, stats_txn_aborted := 0, stats_writes_logged := 0,
             active_txns := [], checkpoint_lsn := 0, checkpointing := False\<rparr>)
   }"

definition wal_init :: "bool \<Rightarrow> byte list \<Rightarrow> 'a wal_scheme \<Rightarrow> 'a wal_scheme option" where
  "wal_init format junk s =
    (if format then wal_init_buffer junk (s\<lparr>next_lsn := 1, flushed_lsn := 0, next_txn_id := 1\<rparr>)
     else do {
       (meta, s) \<leftarrow> wal_read_metadata s;
       s \<leftarrow> (if magic meta \<noteq> WAL_METADATA_MAGIC
            then do {
              s \<leftarrow> wal_init_metadata s;
              let s = s\<lparr>next_lsn := 1, flushed_lsn := 0, next_txn_id := 1\<rparr>;
              wal_write_metadata (meta\<lparr>clean_shutdown := 0\<rparr>) s
            }
            else do {
              s \<leftarrow> (if clean_shutdown meta \<noteq> 1 then wal_recover s
                   else Some ((if meta_last_lsn meta > 0
                               then s\<lparr>next_lsn := meta_last_lsn meta + 1, flushed_lsn := meta_last_lsn meta\<rparr>
                               else s\<lparr>next_lsn := 1, flushed_lsn := 0\<rparr>)
                              \<lparr>next_txn_id := meta_last_txn_id meta + 1\<rparr>));
              wal_write_metadata (meta\<lparr>clean_shutdown := 0\<rparr>) s
            });
       wal_init_buffer junk s
     })"

definition wal_shutdown :: "'a wal_scheme \<Rightarrow> 'a wal_scheme option" where
  "wal_shutdown s = do {
     s \<leftarrow> (if next_lsn s > 0 then wal_flush (next_lsn s - 1) s else Some s);
     (meta, s) \<leftarrow> wal_read_metadata s;
     let meta = meta\<lparr>magic := WAL_METADATA_MAGIC, clean_shutdown := 1,
       meta_last_lsn := (if next_lsn s > 0 then next_lsn s - 1 else 0),
       meta_last_txn_id := (if next_txn_id s > 0 then next_txn_id s - 1 else 0)\<rparr>;
     s \<leftarrow> wal_write_metadata meta s;
     Some (if log_buffer s \<noteq> None then s\<lparr>log_buffer := None, buffer_size := 0, buffer_used := 0\<rparr> else s)
   }"

record wal_stats =
  txn_begun :: u32
  txn_committed :: u32
  txn_aborted :: u32
  writes_logged :: u32

definition wal_get_stats :: "'a wal_scheme \<Rightarrow> wal_stats" where
  "wal_get_stats s = \<lparr>txn_begun = stats_txn_begun s, txn_committed = stats_txn_committed s,
     txn_aborted = stats_txn_aborted s, writes_logged = stats_writes_logged s\<rparr>"

definition wal_reset_stats :: "'a wal_scheme \<Rightarrow> 'a wal_scheme" where
  "wal_reset_stats s =
    s\<lparr>stats_txn_begun := 0, stats_txn_committed := 0, stats_txn_aborted := 0, stats_writes_logged := 0\<rparr>"

end
