(* ===== verification/Wal_Log.thy ===== *)
theory Wal_Log
  imports Wal
begin

text \<open>
  The log as a map from sequence numbers to records. \<open>log_view\<close> combines the records still in the log
  buffer with those on disk; appending adds one record to it, flushing leaves it as it is and makes
  the disk agree with it. The circular log has 64 sectors, so the statements are about the last 64
  records.
\<close>

section \<open>Slots\<close>

lemma unat_log_slot: "n \<noteq> 0 \<Longrightarrow> unat (log_slot n) = 2 + (unat n - 1) mod 64"
proof -
  assume n: "n \<noteq> 0"
  then have p: "unat (n - 1) = unat n - 1" by (simp add: unat_minus_one)
  have "unat ((n - 1) mod 64) = (unat n - 1) mod 64" by (simp add: unat_mod p)
  then have "unat (2 + (n - 1) mod 64 :: lsn_t) = 2 + (unat n - 1) mod 64"
    by (simp add: unat_word_ariths)
  moreover have "(2 + (unat n - 1) mod 64) < 2 ^ 32" by (simp add: less_imp_add_positive)
  ultimately show ?thesis by (simp add: log_slot_def unsigned_ucast_eq take_bit_nat_eq_self)
qed

lemma mod_window: "x < y \<Longrightarrow> y < x + 64 \<Longrightarrow> x mod 64 \<noteq> y mod (64 :: nat)"
proof
  assume w: "x < y" "y < x + 64" and eq: "x mod 64 = y mod 64"
  then have "64 dvd y - x" using mod_eq_dvd_iff_nat [of x y 64] by simp
  with w show False using dvd_imp_le [of 64 "y - x"] by simp
qed

lemma log_slot_inj:
  assumes "0 < unat a" "unat a < unat b" "unat b < unat a + 64"
  shows "log_slot a \<noteq> log_slot b"
proof
  assume "log_slot a = log_slot b"
  then have "unat (log_slot a) = unat (log_slot b)" by simp
  moreover have "a \<noteq> 0" "b \<noteq> 0" using assms by auto
  ultimately have "(unat a - 1) mod 64 = (unat b - 1) mod 64" by (simp add: unat_log_slot)
  moreover have "unat a - 1 < unat b - 1" "unat b - 1 < unat a - 1 + 64" using assms by auto
  ultimately show False using mod_window by blast
qed

definition is_log_sector :: "block_sector_t \<Rightarrow> bool" where
  "is_log_sector a \<longleftrightarrow> 2 \<le> a \<and> a < 66"

lemma is_log_sector_slot [simp]: "n \<noteq> 0 \<Longrightarrow> is_log_sector (log_slot n)"
  by (simp add: is_log_sector_def word_le_nat_alt word_less_nat_alt unat_log_slot)

section \<open>The log as a map\<close>

definition buffered :: "byte list \<Rightarrow> nat \<Rightarrow> wal_record" where
  "buffered buf i = decode (bytes_at (i * 512) 512 buf)"

definition pending :: "'a wal_scheme \<Rightarrow> wal_record list" where
  "pending s = (case log_buffer s of None \<Rightarrow> []
     | Some buf \<Rightarrow> map (buffered buf) [0..<buffer_used s div 512])"

definition disk_log :: "'a wal_scheme \<Rightarrow> lsn_t \<Rightarrow> wal_record option" where
  "disk_log s n = (let r = decode (media s (log_slot n)) in
     if n \<noteq> 0 \<and> lsn r = n \<and> checksum_ok r then Some r else None)"

definition log_view :: "'a wal_scheme \<Rightarrow> lsn_t \<Rightarrow> wal_record option" where
  "log_view s n = (case find (\<lambda>r. lsn r = n) (pending s) of Some r \<Rightarrow> Some r | None \<Rightarrow> disk_log s n)"

text \<open>Sequence numbers whose slots are not yet reused.\<close>

definition in_window :: "'a wal_scheme \<Rightarrow> lsn_t \<Rightarrow> bool" where
  "in_window s n \<longleftrightarrow> 0 < n \<and> n < next_lsn s \<and> unat (next_lsn s) \<le> unat n + 64"

definition log_inv :: "'a wal_scheme \<Rightarrow> bool" where
  "log_inv s \<longleftrightarrow> block_inv s \<and> 67 \<le> dev_size s \<and>
    (\<exists>buf. log_buffer s = Some buf \<and> length buf = 4096) \<and> buffer_size s = 4096 \<and>
    buffer_used s \<le> 4096 \<and> 512 dvd buffer_used s \<and>
    0 < next_lsn s \<and> flushed_lsn s < next_lsn s \<and>
    unat (next_lsn s) \<le> unat (flushed_lsn s) + length (pending s) + 1 \<and>
    length (pending s) < unat (next_lsn s) \<and>
    (\<forall>i < length (pending s). checksum_ok (pending s ! i) \<and>
       unat (lsn (pending s ! i)) + length (pending s) = unat (next_lsn s) + i \<and>
       (lsn (pending s ! i) \<le> flushed_lsn s \<longrightarrow> disk_log s (lsn (pending s ! i)) = Some (pending s ! i)))"

lemma log_invD:
  assumes "log_inv s"
  shows "block_inv s" "67 \<le> dev_size s" "\<exists>buf. log_buffer s = Some buf \<and> length buf = 4096"
    "buffer_size s = 4096" "buffer_used s \<le> 4096" "512 dvd buffer_used s" "0 < next_lsn s"
    "flushed_lsn s < next_lsn s" "unat (next_lsn s) \<le> unat (flushed_lsn s) + length (pending s) + 1"
    "length (pending s) < unat (next_lsn s)"
    and "i < length (pending s) \<Longrightarrow> checksum_ok (pending s ! i)"
    and "i < length (pending s) \<Longrightarrow> unat (lsn (pending s ! i)) + length (pending s) = unat (next_lsn s) + i"
    and "i < length (pending s) \<Longrightarrow> lsn (pending s ! i) \<le> flushed_lsn s \<Longrightarrow>
      disk_log s (lsn (pending s ! i)) = Some (pending s ! i)"
  using assms unfolding log_inv_def by blast+

lemma wal_read_record_eq:
  assumes "log_inv s" and "n \<noteq> 0"
  shows "wal_read_record n s = Some (disk_log s n, s\<lparr>read_cnt := read_cnt s + 1\<rparr>)"
proof -
  have "is_log_sector (log_slot n)" using assms by simp
  then have "log_slot n < dev_size s"
    using log_invD(2) [OF assms(1)] by (auto simp: is_log_sector_def word_le_nat_alt word_less_nat_alt)
  with assms(2) show ?thesis by (simp add: wal_read_record_def block_read_eq disk_log_def Let_def)
qed

lemma pending_eq: "log_buffer s = Some buf \<Longrightarrow> pending s = map (buffered buf) [0..<buffer_used s div 512]"
  by (simp add: pending_def)

lemma length_pending: "log_inv s \<Longrightarrow> length (pending s) = buffer_used s div 512"
  using log_invD(3) [of s] by (auto simp: pending_def)

lemma length_pending_le: "log_inv s \<Longrightarrow> length (pending s) \<le> 8"
  using log_invD(5) [of s] by (simp add: length_pending)

section \<open>Flushing\<close>

text \<open>The records the loop writes, and the device after it.\<close>

definition put_records :: "byte list list \<Rightarrow> (block_sector_t \<Rightarrow> byte list) \<Rightarrow> block_sector_t \<Rightarrow> byte list" where
  "put_records ds m = foldl (\<lambda>m d. m(log_slot (lsn (decode d)) := d)) m ds"

lemma put_records_simps [simp]:
  "put_records [] m = m" "put_records (d # ds) m = put_records ds (m(log_slot (lsn (decode d)) := d))"
  by (simp_all add: put_records_def)

lemma wal_flush_loop_eq:
  assumes "67 \<le> dev_size s" "dev_type s \<noteq> BLOCK_FOREIGN" "\<forall>i \<in> set js. lsn (buffered buf i) \<noteq> 0"
  shows "wal_flush_loop js buf mx s =
    Some (foldl max mx (map (lsn \<circ> buffered buf) js),
          s\<lparr>media := put_records (map (\<lambda>i. bytes_at (i * 512) 512 buf) js) (media s),
            write_cnt := write_cnt s + word_of_nat (length js)\<rparr>)"
  using assms
proof (induction js arbitrary: mx s)
  case Nil
  then show ?case by (simp add: put_records_def)
next
  case (Cons i js)
  let ?d = "bytes_at (i * 512) 512 buf"
  let ?t = "s\<lparr>media := (media s)(log_slot (lsn (decode ?d)) := ?d), write_cnt := write_cnt s + 1\<rparr>"
  have "is_log_sector (log_slot (lsn (buffered buf i)))" using Cons.prems by simp
  then have "log_slot (lsn (buffered buf i)) < dev_size s"
    using Cons.prems(1) by (auto simp: is_log_sector_def word_le_nat_alt word_less_nat_alt)
  then have w: "block_write (log_slot (lsn (decode ?d))) ?d s = Some ?t"
    using Cons.prems by (simp add: block_write_eq buffered_def)
  have mx: "(if lsn (decode ?d) > mx then lsn (decode ?d) else mx) = max mx (lsn (decode ?d))" by auto
  have step: "wal_flush_loop (i # js) buf mx s = wal_flush_loop js buf (max mx (lsn (decode ?d))) ?t"
    using w by (simp add: Let_def mx)
  show ?case
    unfolding step using Cons.IH [of ?t "max mx (lsn (decode ?d))"] Cons.prems
    by (simp add: buffered_def add.assoc fun_upd_def)
qed

lemma put_records_other:
  "\<forall>d \<in> set ds. log_slot (lsn (decode d)) \<noteq> a \<Longrightarrow> put_records ds m a = m a"
  by (induction ds arbitrary: m) (auto simp: put_records_def)

lemma put_records_append: "put_records (xs @ ys) m = put_records ys (put_records xs m)"
  by (simp add: put_records_def)

lemma put_records_nth:
  assumes "i < length ds" and "\<forall>j < length ds. i < j \<longrightarrow> log_slot (lsn (decode (ds ! j))) \<noteq> log_slot (lsn (decode (ds ! i)))"
  shows "put_records ds m (log_slot (lsn (decode (ds ! i)))) = ds ! i"
proof -
  have "ds = take i ds @ [ds ! i] @ drop (Suc i) ds" using assms(1) by (simp add: id_take_nth_drop)
  then have "put_records ds m = put_records (drop (Suc i) ds) (put_records [ds ! i] (put_records (take i ds) m))"
    by (metis put_records_append)
  moreover have "\<forall>e \<in> set (drop (Suc i) ds). log_slot (lsn (decode e)) \<noteq> log_slot (lsn (decode (ds ! i)))"
    using assms(2) by (auto simp: in_set_conv_nth)
  ultimately show ?thesis using put_records_other by (simp add: put_records_def)
qed

lemma foldl_max_top:
  "m \<le> M \<Longrightarrow> \<forall>x \<in> set xs. x \<le> M \<Longrightarrow> M = m \<or> M \<in> set xs \<Longrightarrow> foldl max m xs = M"
  for M :: "'a::linorder"
  by (induction xs arbitrary: m) (auto simp: max_def)

lemma pending_lsn_nonzero: "log_inv s \<Longrightarrow> i < length (pending s) \<Longrightarrow> lsn (pending s ! i) \<noteq> 0"
  using log_invD(10) [of s] log_invD(12) [of s i] by auto

text \<open>Which record of the buffer has a given sequence number.\<close>

lemma find_pending:
  assumes "log_inv s"
  shows "unat n + length (pending s) < unat (next_lsn s) \<Longrightarrow> find (\<lambda>r. lsn r = n) (pending s) = None"
    and "i < length (pending s) \<Longrightarrow> find (\<lambda>r. lsn r = lsn (pending s ! i)) (pending s) = Some (pending s ! i)"
proof -
  note l = log_invD(12) [OF assms]
  show "find (\<lambda>r. lsn r = n) (pending s) = None" if "unat n + length (pending s) < unat (next_lsn s)"
    using that l by (fastforce simp: find_None_iff in_set_conv_nth)
  show "find (\<lambda>r. lsn r = lsn (pending s ! i)) (pending s) = Some (pending s ! i)" if i: "i < length (pending s)"
    unfolding find_Some_iff
  proof (intro exI [of _ i] conjI allI impI)
    fix j assume "j < i"
    with i l [of i] l [of j] show "lsn (pending s ! j) \<noteq> lsn (pending s ! i)" by auto
  qed (use i in auto)
qed

lemma in_window_cases:
  assumes "log_inv s" and "in_window s n"
  obtains (buffer) i where "i < length (pending s)" "n = lsn (pending s ! i)"
    | (disk) "unat n + length (pending s) < unat (next_lsn s)"
proof (cases "unat n + length (pending s) < unat (next_lsn s)")
  case False
  let ?i = "unat n + length (pending s) - unat (next_lsn s)"
  have i: "?i < length (pending s)" using False assms(2) by (auto simp: in_window_def word_less_nat_alt)
  then have "unat (lsn (pending s ! ?i)) = unat n" using log_invD(12) [OF assms(1) i] False by simp
  then have "n = lsn (pending s ! ?i)" by (metis word_unat_eq_iff)
  with i show thesis by (rule buffer)
qed (rule disk)

lemma flushed_disk_log:
  assumes inv: "log_inv s" and buf: "log_buffer s = Some buf"
    and m: "media t = put_records (map (\<lambda>i. bytes_at (i * 512) 512 buf) [0..<length (pending s)]) (media s)"
    and n: "in_window s n"
  shows "disk_log t n = log_view s n"
proof -
  let ?ds = "map (\<lambda>i. bytes_at (i * 512) 512 buf) [0..<length (pending s)]"
  let ?k = "length (pending s)"
  have d: "decode (?ds ! i) = pending s ! i" if "i < ?k" for i
    using that pending_eq [OF buf] by (simp add: buffered_def)
  note l = log_invD(12) [OF inv]
  have N: "unat (next_lsn s) \<le> unat n + 64" "0 < unat n" using n by (auto simp: in_window_def word_less_nat_alt)
  show ?thesis
    using inv n
  proof (cases rule: in_window_cases)
    case (buffer i)
    have "\<forall>j < length ?ds. i < j \<longrightarrow> log_slot (lsn (decode (?ds ! j))) \<noteq> log_slot (lsn (decode (?ds ! i)))"
    proof (intro allI impI)
      fix j assume j: "j < length ?ds" "i < j"
      then have "unat (lsn (pending s ! i)) < unat (lsn (pending s ! j))"
        "unat (lsn (pending s ! j)) < unat (lsn (pending s ! i)) + 64" "0 < unat (lsn (pending s ! i))"
        using l [of i] l [of j] buffer(1) length_pending_le [OF inv] log_invD(10) [OF inv] by auto
      then have "log_slot (lsn (pending s ! i)) \<noteq> log_slot (lsn (pending s ! j))" by (intro log_slot_inj)
      then show "log_slot (lsn (decode (?ds ! j))) \<noteq> log_slot (lsn (decode (?ds ! i)))"
        using d [of i] d [of j] j buffer(1) by simp
    qed
    then have "media t (log_slot (lsn (decode (?ds ! i)))) = ?ds ! i"
      unfolding m by (intro put_records_nth) (use buffer(1) in auto)
    then have "decode (media t (log_slot n)) = pending s ! i" using d buffer by simp
    then have "disk_log t n = Some (pending s ! i)"
      using buffer log_invD(11) [OF inv buffer(1)] pending_lsn_nonzero [OF inv buffer(1)]
      by (simp add: disk_log_def Let_def)
    with buffer find_pending(2) [OF inv buffer(1)] show ?thesis by (simp add: log_view_def)
  next
    case disk
    have "\<forall>d \<in> set ?ds. log_slot (lsn (decode d)) \<noteq> log_slot n"
    proof
      fix x assume "x \<in> set ?ds"
      then obtain j where j: "j < ?k" "x = ?ds ! j" by (auto simp: in_set_conv_nth)
      then have "unat n < unat (lsn (pending s ! j))" "unat (lsn (pending s ! j)) < unat n + 64"
        using l [OF j(1)] disk N by auto
      then have "log_slot n \<noteq> log_slot (lsn (pending s ! j))" using N(2) by (intro log_slot_inj)
      then show "log_slot (lsn (decode x)) \<noteq> log_slot n" using d [of j] j by simp
    qed
    then have "media t (log_slot n) = media s (log_slot n)" unfolding m by (rule put_records_other)
    then have "disk_log t n = disk_log s n" by (simp add: disk_log_def)
    with find_pending(1) [OF inv disk] show ?thesis by (simp add: log_view_def)
  qed
qed

text \<open>What a flush may change: log sectors, the write counter and the flushed mark.\<close>

definition log_write_frame :: "'a wal_scheme \<Rightarrow> 'a wal_scheme \<Rightarrow> bool" where
  "log_write_frame s t \<longleftrightarrow> (\<exists>m w f. t = s\<lparr>media := m, write_cnt := w, flushed_lsn := f\<rparr> \<and>
     (\<forall>a. \<not> is_log_sector a \<longrightarrow> m a = media s a))"

lemma log_write_frame_refl [simp]: "log_write_frame s s"
  unfolding log_write_frame_def
  by (intro exI [of _ "media s"] exI [of _ "write_cnt s"] exI [of _ "flushed_lsn s"]) simp

lemma pending_frame: "log_buffer t = log_buffer s \<Longrightarrow> buffer_used t = buffer_used s \<Longrightarrow> pending t = pending s"
  by (simp add: pending_def split: option.split)

lemma unat_pred: "0 < b \<Longrightarrow> unat (b - 1) = unat b - 1" for b :: lsn_t
  by (intro unat_minus_one) auto

lemma le_pred: "a < b \<Longrightarrow> a \<le> b - 1" for a b :: lsn_t
proof -
  assume "a < b"
  moreover from this have "0 < b" by (metis word_gt_0 word_not_simps(1))
  ultimately show ?thesis by (simp add: word_le_nat_alt word_less_nat_alt unat_pred)
qed

lemma pending_in_window:
  assumes "log_inv s" "i < length (pending s)"
  shows "in_window s (lsn (pending s ! i))"
  using log_invD(10,12) [OF assms(1)] assms length_pending_le [OF assms(1)]
  by (fastforce simp: in_window_def word_less_nat_alt)

lemma put_records_length:
  "\<forall>d \<in> set ds. length d = 512 \<Longrightarrow> length (m a) = 512 \<Longrightarrow> length (put_records ds m a) = 512"
  by (induction ds arbitrary: m) auto

lemma wal_flush_ok:
  assumes inv: "log_inv s" and up: "next_lsn s - 1 \<le> up"
  shows "\<exists>t. wal_flush up s = Some t \<and> log_inv t \<and> pending t = pending s \<and> flushed_lsn t = next_lsn s - 1 \<and>
    (\<forall>n. in_window s n \<longrightarrow> disk_log t n = log_view s n) \<and> log_write_frame s t"
proof (cases "up \<le> flushed_lsn s \<or> buffer_used s = 0")
  case True
  have "flushed_lsn s \<le> next_lsn s - 1" using log_invD(8) [OF inv] by (rule le_pred)
  moreover have "buffer_used s = 0 \<Longrightarrow> next_lsn s - 1 \<le> flushed_lsn s"
    using log_invD(7,9) [OF inv] length_pending [OF inv] by (simp add: word_le_nat_alt unat_minus_one)
  ultimately have f: "flushed_lsn s = next_lsn s - 1" using True up by force
  have "disk_log s n = log_view s n" if n: "in_window s n" for n
    using inv n
  proof (cases rule: in_window_cases)
    case (buffer i)
    have "n \<le> flushed_lsn s" using n f by (simp add: in_window_def le_pred)
    then have "disk_log s n = Some (pending s ! i)" using log_invD(13) [OF inv buffer(1)] buffer(2) by simp
    with buffer find_pending(2) [OF inv buffer(1)] show ?thesis by (simp add: log_view_def)
  next
    case disk
    with find_pending(1) [OF inv disk] show ?thesis by (simp add: log_view_def)
  qed
  moreover have "wal_flush up s = Some s" using True by (auto simp: wal_flush_def)
  ultimately show ?thesis using inv f by auto
next
  case False
  obtain buf where buf: "log_buffer s = Some buf" "length buf = 4096" using log_invD(3) [OF inv] by blast
  let ?k = "length (pending s)"
  let ?ds = "map (\<lambda>i. bytes_at (i * 512) 512 buf) [0..<?k]"
  have k: "buffer_used s div 512 = ?k" "0 < ?k" using length_pending [OF inv] False log_invD(6) [OF inv] by auto
  have p: "pending s ! i = buffered buf i" if "i < ?k" for i using that pending_eq [OF buf(1)] by simp
  have nz: "\<forall>i \<in> set [0..<?k]. lsn (buffered buf i) \<noteq> 0" using pending_lsn_nonzero [OF inv] p by auto
  have lt: "lsn (pending s ! i) \<le> next_lsn s - 1" if "i < ?k" for i
    using log_invD(12) [OF inv that] that log_invD(7) [OF inv] by (simp add: word_le_nat_alt unat_minus_one)
  have top: "lsn (pending s ! (?k - 1)) = next_lsn s - 1"
    using log_invD(12) [OF inv, of "?k - 1"] k(2) log_invD(7) [OF inv]
    by (simp add: word_unat_eq_iff unat_pred)
  let ?t = "s\<lparr>media := put_records ?ds (media s), write_cnt := write_cnt s + word_of_nat ?k, flushed_lsn := next_lsn s - 1\<rparr>"
  have mx: "foldl max (flushed_lsn s) (map (lsn \<circ> buffered buf) [0..<?k]) = next_lsn s - 1"
  proof (rule foldl_max_top)
    show "flushed_lsn s \<le> next_lsn s - 1" using log_invD(8) [OF inv] by (rule le_pred)
    show "\<forall>x \<in> set (map (lsn \<circ> buffered buf) [0..<?k]). x \<le> next_lsn s - 1" using lt p by auto
    show "next_lsn s - 1 = flushed_lsn s \<or> next_lsn s - 1 \<in> set (map (lsn \<circ> buffered buf) [0..<?k])"
      using top p [of "?k - 1"] k(2) by (intro disjI2) (auto intro!: rev_image_eqI [of "?k - 1"])
  qed
  have fl: "wal_flush up s = Some ?t"
    using False buf(1) k wal_flush_loop_eq [of s "[0..<?k]" buf "flushed_lsn s"] log_invD(1,2) [OF inv] nz mx
    by (simp add: wal_flush_def block_inv_def)
  have disk: "in_window s n \<Longrightarrow> disk_log ?t n = log_view s n" for n
    using inv buf(1) by (rule flushed_disk_log) simp
  have pend: "pending ?t = pending s" by (rule pending_frame) simp_all
  have "disk_log ?t (lsn (pending s ! i)) = Some (pending s ! i)" if "i < ?k" for i
    using disk [OF pending_in_window [OF inv that]] find_pending(2) [OF inv that] by (simp add: log_view_def)
  moreover have "\<forall>d \<in> set ?ds. length d = 512"
    using buf(2) log_invD(5) [OF inv] k(1) by (auto simp: bytes_at_def)
  then have "block_inv ?t" using log_invD(1) [OF inv] by (auto simp: block_inv_def put_records_length)
  ultimately have "log_inv ?t"
    using inv k unfolding log_inv_def pend by (auto simp: unat_pred word_less_nat_alt)
  moreover have "log_write_frame s ?t"
    unfolding log_write_frame_def
  proof (intro exI conjI allI impI)
    fix a assume "\<not> is_log_sector a"
    then show "put_records ?ds (media s) a = media s a"
      by (intro put_records_other) (use nz in \<open>auto simp: buffered_def\<close>)
  qed auto
  ultimately show ?thesis using fl pend disk by auto
qed

section \<open>Appending\<close>

lemma bytes_at_patch_before:
  "ofs + n \<le> k \<Longrightarrow> k + length src \<le> length dst \<Longrightarrow> bytes_at ofs n (patch k src dst) = bytes_at ofs n dst"
  by (auto simp: bytes_at_def patch_def drop_take intro!: nth_equalityI)

lemma bytes_at_patch: "k + length src \<le> length dst \<Longrightarrow> bytes_at k (length src) (patch k src dst) = src"
  by (simp add: bytes_at_def slice_patch)

lemma pending_put:
  assumes "log_buffer s = Some buf" "length buf = 4096" "512 dvd buffer_used s" "buffer_used s + 512 \<le> 4096"
    and "log_buffer t = Some (patch (buffer_used s) (encode r) buf)" "buffer_used t = buffer_used s + 512"
    and "wal_record_wf r"
  shows "pending t = pending s @ [r]"
proof -
  obtain k where k: "buffer_used s = 512 * k" using assms(3) by auto
  let ?b = "patch (512 * k) (encode r) buf"
  have "buffered ?b i = buffered buf i" if "i < k" for i
    using that k assms(2,4,7) by (simp add: buffered_def bytes_at_patch_before)
  moreover have "buffered ?b k = r"
    using bytes_at_patch [of "512 * k" "encode r" buf] k assms(2,4,7) by (simp add: buffered_def mult.commute)
  moreover have "buffer_used t div 512 = Suc k" "buffer_used s div 512 = k" using assms(6) k by simp_all
  ultimately show ?thesis using assms(1,5) k by (simp add: pending_def)
qed

lemma log_put:
  assumes inv: "log_inv s" and room: "buffer_used s + 512 \<le> 4096" and wf: "wal_record_wf r"
    and big: "unat (next_lsn s) + 1 < 2 ^ 64" and buf: "log_buffer s = Some buf"
    and t: "log_buffer t = Some (patch (buffer_used s) (encode (seal (next_lsn s) r)) buf)"
      "buffer_used t = buffer_used s + 512" "next_lsn t = next_lsn s + 1" "flushed_lsn t = flushed_lsn s"
      "media t = media s" "dev_size t = dev_size s" "dev_type t = dev_type s" "buffer_size t = buffer_size s"
  shows "log_inv t" and "pending t = pending s @ [seal (next_lsn s) r]"
    and "log_view t (next_lsn s) = Some (seal (next_lsn s) r)"
    and "n < next_lsn s \<Longrightarrow> log_view t n = log_view s n"
proof -
  have len: "length buf = 4096" using log_invD(3) [OF inv] buf by simp
  show pend: "pending t = pending s @ [seal (next_lsn s) r]"
    using buf len log_invD(6) [OF inv] room t(1,2) wf by (intro pending_put [of s buf]) auto
  have disk: "disk_log t = disk_log s" using t(5) by (simp add: disk_log_def fun_eq_iff)
  have un: "unat (next_lsn t) = unat (next_lsn s) + 1"
    using big t(3) by (simp add: unat_word_ariths)
  note l = log_invD(12) [OF inv]
  have lt: "lsn x < next_lsn s" if "x \<in> set (pending s)" for x
    using that l by (fastforce simp: in_set_conv_nth word_less_nat_alt)
  have nf: "\<not> next_lsn s \<le> flushed_lsn s" using log_invD(8) [OF inv] by simp
  have items: "checksum_ok (pending t ! i) \<and> unat (lsn (pending t ! i)) + length (pending t) = unat (next_lsn t) + i \<and>
     (lsn (pending t ! i) \<le> flushed_lsn t \<longrightarrow> disk_log t (lsn (pending t ! i)) = Some (pending t ! i))"
    if "i < length (pending t)" for i
  proof (cases "i < length (pending s)")
    case True
    with l [OF True] log_invD(11,13) [OF inv True] show ?thesis by (simp add: pend nth_append disk t(4) un)
  next
    case False
    then have "i = length (pending s)" using that pend by simp
    with nf show ?thesis by (simp add: pend nth_append un t(4))
  qed
  have "block_inv t" using log_invD(1) [OF inv] t by (simp add: block_inv_def)
  moreover have "0 < next_lsn t" "flushed_lsn t < next_lsn t"
    using un log_invD(8) [OF inv] t(4) by (auto simp: word_less_nat_alt)
  moreover have "unat (next_lsn t) \<le> unat (flushed_lsn t) + length (pending t) + 1" "length (pending t) < unat (next_lsn t)"
    using un log_invD(9,10) [OF inv] t(4) pend by auto
  moreover have "\<exists>b. log_buffer t = Some b \<and> length b = 4096" using t(1) len room wf by simp
  moreover have "512 dvd buffer_used t" "buffer_used t \<le> 4096" "67 \<le> dev_size t" "buffer_size t = 4096"
    using log_invD(2,4,6) [OF inv] t(2,6,8) room by auto
  ultimately show "log_inv t" unfolding log_inv_def using items by blast
  have none: "find (\<lambda>x. lsn x = next_lsn s) (pending s) = None" using lt by (fastforce simp: find_None_iff)
  then show "log_view t (next_lsn s) = Some (seal (next_lsn s) r)"
    by (simp add: log_view_def pend find_append)
  show "log_view t n = log_view s n" if "n < next_lsn s"
    using that by (auto simp: log_view_def pend find_append disk split: option.split)
qed

text \<open>
  What logging may change: the log sectors and the log manager's own fields. \<open>log_erase\<close> forgets them;
  two states with the same erasure agree on everything else.
\<close>

definition log_erase :: "'a wal_scheme \<Rightarrow> 'a wal_scheme" where
  "log_erase s = s\<lparr>media := (\<lambda>_. []), read_cnt := 0, write_cnt := 0, next_lsn := 0, flushed_lsn := 0, log_buffer := None,
     buffer_used := 0, checkpoint_lsn := 0, checkpoint_pending := False\<rparr>"

definition append_frame :: "'a wal_scheme \<Rightarrow> 'a wal_scheme \<Rightarrow> bool" where
  "append_frame s t \<longleftrightarrow> log_erase t = log_erase s \<and> (\<forall>a. \<not> is_log_sector a \<longrightarrow> media t a = media s a)"

lemma append_frame_refl [simp]: "append_frame s s"
  by (simp add: append_frame_def)

lemma append_frame_trans [trans]: "append_frame s t \<Longrightarrow> append_frame t u \<Longrightarrow> append_frame s u"
  by (simp add: append_frame_def)

lemma append_frameD:
  assumes "append_frame s t"
  shows "entries t = entries s" "dev_size t = dev_size s" "dev_type t = dev_type s" "oom t = oom s"
    "mallocs t = mallocs s" "next_txn_id t = next_txn_id s" "active_txns t = active_txns s"
    "checkpointing t = checkpointing s" "txn_heap t = txn_heap s" "current_txn t = current_txn s"
    "\<not> is_log_sector a \<Longrightarrow> media t a = media s a" "clock_hand t = clock_hand s"
    "prefetch_queue t = prefetch_queue s" "prefetch_head t = prefetch_head s" "prefetch_tail t = prefetch_tail s"
    "replacement_policy t = replacement_policy s" "wal.more t = wal.more s"
proof -
  have e: "log_erase t = log_erase s" using assms by (simp add: append_frame_def)
  show "\<not> is_log_sector a \<Longrightarrow> media t a = media s a" using assms by (simp add: append_frame_def)
  show "entries t = entries s" using arg_cong [OF e, of entries] by (simp add: log_erase_def)
  show "dev_size t = dev_size s" using arg_cong [OF e, of dev_size] by (simp add: log_erase_def)
  show "dev_type t = dev_type s" using arg_cong [OF e, of dev_type] by (simp add: log_erase_def)
  show "oom t = oom s" using arg_cong [OF e, of oom] by (simp add: log_erase_def)
  show "mallocs t = mallocs s" using arg_cong [OF e, of mallocs] by (simp add: log_erase_def)
  show "next_txn_id t = next_txn_id s" using arg_cong [OF e, of next_txn_id] by (simp add: log_erase_def)
  show "active_txns t = active_txns s" using arg_cong [OF e, of active_txns] by (simp add: log_erase_def)
  show "checkpointing t = checkpointing s" using arg_cong [OF e, of checkpointing] by (simp add: log_erase_def)
  show "txn_heap t = txn_heap s" using arg_cong [OF e, of txn_heap] by (simp add: log_erase_def)
  show "current_txn t = current_txn s" using arg_cong [OF e, of current_txn] by (simp add: log_erase_def)
  show "clock_hand t = clock_hand s" using arg_cong [OF e, of clock_hand] by (simp add: log_erase_def)
  show "prefetch_queue t = prefetch_queue s" using arg_cong [OF e, of prefetch_queue] by (simp add: log_erase_def)
  show "prefetch_head t = prefetch_head s" using arg_cong [OF e, of prefetch_head] by (simp add: log_erase_def)
  show "prefetch_tail t = prefetch_tail s" using arg_cong [OF e, of prefetch_tail] by (simp add: log_erase_def)
  show "replacement_policy t = replacement_policy s"
    using arg_cong [OF e, of replacement_policy] by (simp add: log_erase_def)
  show "wal.more t = wal.more s" using arg_cong [OF e, of wal.more] by (simp add: log_erase_def)
qed

lemma append_frame_flush: "log_write_frame s t \<Longrightarrow> append_frame s t"
  by (auto simp: log_write_frame_def append_frame_def log_erase_def)

lemma wal_append_finish:
  assumes u: "(if buffer_used s + 512 > buffer_size s
      then do { s \<leftarrow> wal_flush (next_lsn s - 1) s; Some (s\<lparr>buffer_used := 0\<rparr>) } else Some s) = Some u"
    and "next_lsn u = next_lsn s" "log_buffer u = Some buf" "length buf = 4096" "buffer_used u + 512 \<le> 4096"
  shows "\<exists>c p. wal_append_record r s = Some (next_lsn s,
      u\<lparr>log_buffer := Some (patch (buffer_used u) (encode (seal (next_lsn s) r)) buf),
        buffer_used := buffer_used u + 512, checkpoint_lsn := c, next_lsn := next_lsn u + 1, checkpoint_pending := p\<rparr>)"
proof -
  let ?v = "u\<lparr>log_buffer := Some (patch (buffer_used u) (encode (seal (next_lsn s) r)) buf), buffer_used := buffer_used u + 512\<rparr>"
  have "wal_append_record r s =
      Some (next_lsn s, wal_count_record (next_lsn s) (rec_type r = type_code WAL_CHECKPOINT) ?v)"
    unfolding wal_append_record_def Let_def BLOCK_SECTOR_SIZE_simp u bind.bind_lunit assms(3)
    using assms(2,4,5) by simp
  moreover obtain c p where "wal_count_record (next_lsn s) (rec_type r = type_code WAL_CHECKPOINT) ?v =
      ?v\<lparr>checkpoint_lsn := c, next_lsn := next_lsn ?v + 1, checkpoint_pending := p\<rparr>"
    using wal_count_record_eq by blast
  ultimately have "wal_append_record r s =
      Some (next_lsn s, ?v\<lparr>checkpoint_lsn := c, next_lsn := next_lsn u + 1, checkpoint_pending := p\<rparr>)" by simp
  then show ?thesis by blast
qed

lemma wal_append_ok:
  assumes inv: "log_inv s" and wf: "wal_record_wf r" and big: "unat (next_lsn s) + 1 < 2 ^ 64"
  shows "\<exists>t. wal_append_record r s = Some (next_lsn s, t) \<and> log_inv t \<and> next_lsn t = next_lsn s + 1 \<and>
    log_view t (next_lsn s) = Some (seal (next_lsn s) r) \<and>
    (\<forall>n. in_window s n \<longrightarrow> log_view t n = log_view s n) \<and> flushed_lsn t < next_lsn s \<and> append_frame s t"
proof -
  let ?full = "buffer_used s + 512 > buffer_size s"
  obtain u where u: "(if ?full then do { s \<leftarrow> wal_flush (next_lsn s - 1) s; Some (s\<lparr>buffer_used := 0\<rparr>) } else Some s) = Some u"
    and iu: "log_inv u" and nu: "next_lsn u = next_lsn s" and room: "buffer_used u + 512 \<le> 4096"
    and view: "\<forall>n. in_window s n \<longrightarrow> log_view u n = log_view s n" and fr: "append_frame s u"
  proof (cases ?full)
    case False
    then show thesis using that [of s] inv log_invD(4) [OF inv] by simp
  next
    case True
    obtain v where v: "wal_flush (next_lsn s - 1) s = Some v" "log_inv v" "flushed_lsn v = next_lsn s - 1"
      "\<forall>n. in_window s n \<longrightarrow> disk_log v n = log_view s n" "log_write_frame s v"
      using wal_flush_ok [OF inv order_refl] by blast
    have nv: "next_lsn v = next_lsn s" using v(5) by (auto simp: log_write_frame_def)
    let ?u = "v\<lparr>buffer_used := 0\<rparr>"
    have p: "pending ?u = []" by (simp add: pending_def split: option.split)
    have "log_inv ?u"
      using v(2,3) nv unat_pred [OF log_invD(7) [OF inv]] unfolding log_inv_def p by (auto simp: block_inv_def)
    moreover have "log_view ?u n = log_view s n" if "in_window s n" for n
      using v(4) that by (simp add: log_view_def p disk_log_def)
    moreover have "append_frame s ?u" using append_frame_flush [OF v(5)] by (simp add: append_frame_def log_erase_def)
    ultimately show thesis using that [of ?u] v(1) True nv by simp
  qed
  obtain buf where buf: "log_buffer u = Some buf" "length buf = 4096" using log_invD(3) [OF iu] by blast
  let ?r = "seal (next_lsn s) r"
  obtain c p where t: "wal_append_record r s = Some (next_lsn s, u\<lparr>log_buffer := Some (patch (buffer_used u) (encode ?r) buf),
      buffer_used := buffer_used u + 512, checkpoint_lsn := c, next_lsn := next_lsn u + 1, checkpoint_pending := p\<rparr>)"
    using wal_append_finish [OF u nu buf room] that by blast
  let ?t = "u\<lparr>log_buffer := Some (patch (buffer_used u) (encode ?r) buf),
      buffer_used := buffer_used u + 512, checkpoint_lsn := c, next_lsn := next_lsn u + 1, checkpoint_pending := p\<rparr>"
  note put = log_put [OF iu room wf _ buf(1), of ?t]
  have "log_inv ?t" "log_view ?t (next_lsn s) = Some ?r"
    using put(1) put(3) big nu by simp_all
  moreover have "log_view ?t n = log_view s n" if "in_window s n" for n
    using put(4) [of n] view that big nu by (simp add: in_window_def)
  moreover have "append_frame s ?t" using fr by (simp add: append_frame_def log_erase_def)
  moreover have "flushed_lsn ?t < next_lsn s" using log_invD(8) [OF iu] nu by simp
  ultimately show ?thesis using t nu by (intro exI [of _ ?t]) simp
qed

section \<open>Sequences of records\<close>

fun append_all :: "wal_record list \<Rightarrow> 'a wal_scheme \<Rightarrow> 'a wal_scheme option" where
  "append_all [] s = Some s"
| "append_all (r # rs) s = do { (n, s) \<leftarrow> wal_append_record r s; append_all rs s }"

lemma append_all_ok:
  assumes "log_inv s" "\<forall>r \<in> set rs. wal_record_wf r" "unat (next_lsn s) + length rs < 2 ^ 64"
  shows "\<exists>t. append_all rs s = Some t \<and> log_inv t \<and> unat (next_lsn t) = unat (next_lsn s) + length rs \<and>
    (\<forall>i < length rs. length rs \<le> i + 64 \<longrightarrow>
       log_view t (next_lsn s + word_of_nat i) = Some (seal (next_lsn s + word_of_nat i) (rs ! i))) \<and>
    (\<forall>n. 0 < n \<and> n < next_lsn s \<and> unat (next_lsn s) + length rs \<le> unat n + 64 \<longrightarrow> log_view t n = log_view s n) \<and>
    append_frame s t"
  using assms
proof (induction rs arbitrary: s)
  case Nil
  then show ?case by simp
next
  case (Cons r rs)
  obtain u where u: "wal_append_record r s = Some (next_lsn s, u)" "log_inv u" "next_lsn u = next_lsn s + 1"
    "log_view u (next_lsn s) = Some (seal (next_lsn s) r)"
    "\<forall>n. in_window s n \<longrightarrow> log_view u n = log_view s n" "append_frame s u"
    using wal_append_ok [OF Cons.prems(1), of r] Cons.prems(2,3) by auto
  have un: "unat (next_lsn u) = unat (next_lsn s) + 1" using u(3) Cons.prems(3) by (simp add: unat_word_ariths)
  obtain t where t: "append_all rs u = Some t" "log_inv t" "unat (next_lsn t) = unat (next_lsn u) + length rs"
    "\<forall>i < length rs. length rs \<le> i + 64 \<longrightarrow>
       log_view t (next_lsn u + word_of_nat i) = Some (seal (next_lsn u + word_of_nat i) (rs ! i))"
    "\<forall>n. 0 < n \<and> n < next_lsn u \<and> unat (next_lsn u) + length rs \<le> unat n + 64 \<longrightarrow> log_view t n = log_view u n"
    "append_frame u t"
    using Cons.IH [OF u(2)] Cons.prems(2,3) un by auto
  have pos: "0 < next_lsn s" "next_lsn s < next_lsn u"
    using log_invD(7) [OF Cons.prems(1)] un by (simp_all add: word_less_nat_alt)
  have "log_view t (next_lsn s + word_of_nat i) = Some (seal (next_lsn s + word_of_nat i) ((r # rs) ! i))"
    if i: "i < length (r # rs)" "length (r # rs) \<le> i + 64" for i
  proof (cases i)
    case 0
    then show ?thesis using t(5) pos i(2) u(4) un by simp
  next
    case (Suc j)
    then show ?thesis using t(4) i u(3) by (simp add: add.assoc)
  qed
  moreover have "log_view t n = log_view s n"
    if n: "0 < n" "n < next_lsn s" "unat (next_lsn s) + length (r # rs) \<le> unat n + 64" for n
  proof -
    have "in_window s n" using n by (simp add: in_window_def)
    moreover have "n < next_lsn u" using n(2) pos(2) by (rule less_trans)
    ultimately show ?thesis using t(5) u(5) n un by auto
  qed
  ultimately show ?case
    using t(1-3) u(1) un append_frame_trans [OF u(6) t(6)] by (intro exI [of _ t]) simp
qed

text \<open>
  (C12) Durability of the log: append any sequence of records and flush up to the last sequence
  number. Then every one of the last 64 records appended is read back from disk exactly as it was
  assigned its number and checksum, whatever the buffer, the position in the circular log and the
  contents of the disk were; sectors outside the log are untouched.
\<close>

theorem wal_log_durable:
  assumes "log_inv s" "\<forall>r \<in> set rs. wal_record_wf r" "unat (next_lsn s) + length rs < 2 ^ 64"
    and "i < length rs" "length rs \<le> i + WAL_LOG_SECTORS"
  shows "\<exists>t u v. append_all rs s = Some t \<and> wal_flush (next_lsn t - 1) t = Some u \<and>
    wal_read_record (next_lsn s + word_of_nat i) u = Some (Some (seal (next_lsn s + word_of_nat i) (rs ! i)), v) \<and>
    (\<forall>a. \<not> is_log_sector a \<longrightarrow> media u a = media s a)"
proof -
  let ?n = "next_lsn s + word_of_nat i"
  obtain t where t: "append_all rs s = Some t" "log_inv t" "unat (next_lsn t) = unat (next_lsn s) + length rs"
    "log_view t ?n = Some (seal ?n (rs ! i))" "append_frame s t"
    using append_all_ok [OF assms(1-3)] assms(4,5) by auto
  obtain u where u: "wal_flush (next_lsn t - 1) t = Some u" "log_inv u"
    "\<forall>n. in_window t n \<longrightarrow> disk_log u n = log_view t n" "log_write_frame t u"
    using wal_flush_ok [OF t(2) order_refl] by blast
  have "unat (word_of_nat i :: lsn_t) = i" using assms(3,4) by (simp add: unat_of_nat take_bit_nat_eq_self)
  then have un: "unat ?n = unat (next_lsn s) + i" using assms(3,4) by (simp add: unat_word_ariths)
  then have "in_window t ?n"
    using assms(4,5) t(3) log_invD(7) [OF assms(1)] by (simp add: in_window_def word_less_nat_alt)
  moreover from this have "?n \<noteq> 0" by (auto simp: in_window_def)
  ultimately have "wal_read_record ?n u = Some (Some (seal ?n (rs ! i)), u\<lparr>read_cnt := read_cnt u + 1\<rparr>)"
    using wal_read_record_eq [OF u(2)] u(3) t(4) by simp
  moreover have "append_frame s u" using t(5) append_frame_flush [OF u(4)] by (rule append_frame_trans)
  ultimately show ?thesis using t(1) u(1) append_frameD(11) by blast
qed

definition sample_wal :: wal where
  "sample_wal = cache.extend sample_cache
     (wal.fields 1 0 1 (Some (replicate 4096 0)) 4096 0 [] 0 False 0 0 0 0 False (\<lambda>_. None) None)"

lemma sample_wal_sel [simp]:
  "dev_size sample_wal = 1000" "dev_type sample_wal = BLOCK_FILESYS" "media sample_wal = (\<lambda>a. replicate 512 (ucast a))"
  "entries sample_wal = entries sample_cache" "next_lsn sample_wal = 1" "flushed_lsn sample_wal = 0"
  "log_buffer sample_wal = Some (replicate 4096 0)" "buffer_size sample_wal = 4096" "buffer_used sample_wal = 0"
  "oom sample_wal = (\<lambda>_. False)" "mallocs sample_wal = 0" "checkpointing sample_wal = False"
  "txn_heap sample_wal = (\<lambda>_. None)" "next_txn_id sample_wal = 1" "checkpoint_pending sample_wal = False"
  by (simp_all add: sample_wal_def cache.defs wal.defs sample_cache_def)

lemma sample_wal_inv: "log_inv sample_wal"
  by (simp add: log_inv_def block_inv_def pending_def)

lemma wal_log_durable_witness:
  "\<exists>t u v. append_all [zero_record, zero_record] sample_wal = Some t \<and> wal_flush (next_lsn t - 1) t = Some u \<and>
    wal_read_record 2 u = Some (Some (seal 2 zero_record), v)"
proof -
  have "\<exists>t u v. append_all [zero_record, zero_record] sample_wal = Some t \<and> wal_flush (next_lsn t - 1) t = Some u \<and>
    wal_read_record (next_lsn sample_wal + word_of_nat 1) u =
      Some (Some (seal (next_lsn sample_wal + word_of_nat 1) ([zero_record, zero_record] ! 1)), v) \<and>
    (\<forall>a. \<not> is_log_sector a \<longrightarrow> media u a = media sample_wal a)"
    by (rule wal_log_durable [OF sample_wal_inv]) simp_all
  then show ?thesis by auto
qed

section \<open>Commit and checkpoint\<close>

text \<open>
  Checkpoints flush the buffer cache as well. They leave the log alone as long as no dirty entry of
  the cache is a log sector, which the file system guarantees by never writing there.
\<close>

definition log_safe :: "'a wal_scheme \<Rightarrow> bool" where
  "log_safe s \<longleftrightarrow> length (entries s) = 64 \<and> (\<forall>i. dirty_at s i \<longrightarrow> length (ce_data (ent s i)) = 512 \<and>
     ce_sector (ent s i) < dev_size s \<and> \<not> is_log_sector (ce_sector (ent s i)))"

lemma cache_flush_loop_safe:
  assumes "log_safe s" "block_inv s" "set js \<subseteq> {..<64}"
  shows "\<exists>t. cache_flush_loop js s = Some t \<and> flush_frame s t \<and> block_inv t \<and> log_safe t \<and>
    (\<forall>a. is_log_sector a \<longrightarrow> media t a = media s a)"
  using assms
proof (induction js arbitrary: s)
  case Nil
  then show ?case by simp
next
  case (Cons i js)
  show ?case
  proof (cases "ce_state (ent s i) = CACHE_VALID \<and> ce_dirty (ent s i)")
    case False
    then have "cache_flush_loop (i # js) s = cache_flush_loop js s" by auto
    then show ?thesis using Cons.IH [OF Cons.prems(1,2)] Cons.prems(3) by auto
  next
    case True
    let ?e = "ent s i"
    let ?t = "put_ent i (?e\<lparr>ce_dirty := False\<rparr>)
      (s\<lparr>media := (media s)(ce_sector ?e := ce_data ?e), write_cnt := write_cnt s + 1\<rparr>)"
    have "dirty_at s i" using True Cons.prems(3) by (simp add: dirty_at_def)
    then have e: "length (ce_data ?e) = 512" "ce_sector ?e < dev_size s" "\<not> is_log_sector (ce_sector ?e)"
      and len: "length (entries s) = 64" using Cons.prems(1) by (auto simp: log_safe_def)
    have eq: "cache_flush_loop (i # js) s = cache_flush_loop js ?t"
      using True e(2) Cons.prems(2) by (simp add: block_write_eq block_inv_def Let_def)
    have d: "dirty_at s j \<and> ent ?t j = ent s j" if "dirty_at ?t j" for j
      using that len by (cases "j = i") (auto simp: dirty_at_def put_ent_def)
    have "length (entries ?t) = 64" "dev_size ?t = dev_size s" using len by (simp_all add: put_ent_def)
    then have "log_safe ?t" using Cons.prems(1) d unfolding log_safe_def by metis
    moreover have "block_inv ?t" using Cons.prems(2) e(1) by (auto simp: block_inv_def put_ent_def)
    ultimately obtain u where u: "cache_flush_loop js ?t = Some u" "flush_frame ?t u" "block_inv u" "log_safe u"
      "\<forall>a. is_log_sector a \<longrightarrow> media u a = media ?t a"
      using Cons.IH [of ?t] Cons.prems(3) by auto
    then show ?thesis using eq flush_frame_step [OF u(2)] e(3) by (auto simp: put_ent_def)
  qed
qed

lemma log_inv_frame:
  assumes "log_inv s" "block_inv t" "dev_size t = dev_size s" "log_buffer t = log_buffer s"
    "buffer_size t = buffer_size s" "buffer_used t = buffer_used s" "next_lsn t = next_lsn s"
    "flushed_lsn t = flushed_lsn s" "\<forall>a. is_log_sector a \<longrightarrow> media t a = media s a"
  shows "log_inv t" "disk_log t n = disk_log s n" "log_view t n = log_view s n"
proof -
  have d: "disk_log t n = disk_log s n" for n
    using assms(9) by (cases "n = 0") (auto simp: disk_log_def Let_def)
  have p: "pending t = pending s" using assms(4,6) by (rule pending_frame)
  show "disk_log t n = disk_log s n" by (rule d)
  show "log_view t n = log_view s n" by (simp add: log_view_def p d split: option.split)
  show "log_inv t" using assms(1-8) unfolding log_inv_def p d by simp
qed

lemma cache_flush_safe:
  assumes "log_safe s" "log_inv s"
  shows "\<exists>t. cache_flush s = Some t \<and> log_inv t \<and> log_safe t \<and> log_view t = log_view s \<and>
    disk_log t = disk_log s \<and> flush_frame s t"
proof -
  have sub: "set [0..<64] \<subseteq> {..<64 :: nat}" by auto
  obtain t where t: "cache_flush s = Some t" "flush_frame s t" "block_inv t" "log_safe t"
    "\<forall>a. is_log_sector a \<longrightarrow> media t a = media s a"
    using cache_flush_loop_safe [OF assms(1) log_invD(1) [OF assms(2)] sub] by (auto simp: cache_flush_def)
  obtain m w es where e: "t = s\<lparr>media := m, write_cnt := w, entries := es\<rparr>" using t(2) by (auto simp: flush_frame_def)
  have "log_inv t" "\<And>n. disk_log t n = disk_log s n" "\<And>n. log_view t n = log_view s n"
    using log_inv_frame [OF assms(2) t(3) _ _ _ _ _ _ t(5)] e by simp_all
  with t show ?thesis by (auto simp: fun_eq_iff)
qed

text \<open>Fields that commits and checkpoints change but the log does not depend on.\<close>

lemma log_inv_simps [simp]:
  "log_inv (s\<lparr>checkpointing := b\<rparr>) = log_inv s" "log_inv (s\<lparr>checkpoint_pending := b\<rparr>) = log_inv s"
  "log_inv (s\<lparr>txn_heap := h\<rparr>) = log_inv s" "log_inv (s\<lparr>current_txn := c\<rparr>) = log_inv s"
  "log_inv (s\<lparr>active_txns := l\<rparr>) = log_inv s" "log_inv (s\<lparr>stats_txn_committed := n\<rparr>) = log_inv s"
  "log_inv (s\<lparr>read_cnt := w\<rparr>) = log_inv s" "log_inv (s\<lparr>next_txn_id := t\<rparr>) = log_inv s"
  "log_inv (s\<lparr>stats_txn_begun := n\<rparr>) = log_inv s" "log_inv (s\<lparr>mallocs := k\<rparr>) = log_inv s"
  "log_inv (s\<lparr>stats_writes_logged := n\<rparr>) = log_inv s" "log_inv (s\<lparr>stats_txn_aborted := n\<rparr>) = log_inv s"
  by (auto simp: log_inv_def block_inv_def pending_def disk_log_def split: option.splits)

lemma log_view_simps [simp]:
  "log_view (s\<lparr>checkpointing := b\<rparr>) = log_view s" "log_view (s\<lparr>checkpoint_pending := b\<rparr>) = log_view s"
  "log_view (s\<lparr>txn_heap := h\<rparr>) = log_view s" "log_view (s\<lparr>current_txn := c\<rparr>) = log_view s"
  "log_view (s\<lparr>active_txns := l\<rparr>) = log_view s" "log_view (s\<lparr>stats_txn_committed := n\<rparr>) = log_view s"
  "log_view (s\<lparr>next_txn_id := t\<rparr>) = log_view s" "log_view (s\<lparr>stats_txn_begun := n\<rparr>) = log_view s"
  "log_view (s\<lparr>mallocs := k\<rparr>) = log_view s"
  by (auto simp: fun_eq_iff log_view_def pending_def disk_log_def split: option.splits)

lemma disk_log_simps [simp]:
  "disk_log (s\<lparr>checkpointing := b\<rparr>) = disk_log s" "disk_log (s\<lparr>checkpoint_pending := b\<rparr>) = disk_log s"
  "disk_log (s\<lparr>txn_heap := h\<rparr>) = disk_log s" "disk_log (s\<lparr>current_txn := c\<rparr>) = disk_log s"
  "disk_log (s\<lparr>active_txns := l\<rparr>) = disk_log s" "disk_log (s\<lparr>stats_txn_committed := n\<rparr>) = disk_log s"
  by (simp_all add: fun_eq_iff disk_log_def)

lemma log_safe_frame:
  "entries t = entries s \<Longrightarrow> dev_size t = dev_size s \<Longrightarrow> log_safe t = log_safe s"
  by (simp add: log_safe_def dirty_at_def)

text \<open>Appending a record and flushing it at once, as commits and checkpoints do.\<close>

lemma append_flush_ok:
  assumes inv: "log_inv s" and wf: "wal_record_wf r" and big: "unat (next_lsn s) + 1 < 2 ^ 64"
  shows "\<exists>t u. wal_append_record r s = Some (next_lsn s, t) \<and> wal_flush (next_lsn s) t = Some u \<and>
    next_lsn t = next_lsn s + 1 \<and>
    log_inv u \<and> next_lsn u = next_lsn s + 1 \<and> disk_log u (next_lsn s) = Some (seal (next_lsn s) r) \<and>
    (\<forall>n. 0 < n \<and> n < next_lsn s \<and> unat (next_lsn s) + 1 \<le> unat n + 64 \<longrightarrow>
       disk_log u n = log_view s n \<and> log_view u n = log_view s n) \<and>
    log_view u (next_lsn s) = Some (seal (next_lsn s) r) \<and> append_frame s u"
proof -
  obtain t where t: "wal_append_record r s = Some (next_lsn s, t)" "log_inv t" "next_lsn t = next_lsn s + 1"
    "log_view t (next_lsn s) = Some (seal (next_lsn s) r)" "\<forall>n. in_window s n \<longrightarrow> log_view t n = log_view s n"
    "append_frame s t"
    using wal_append_ok [OF assms] by blast
  have un: "unat (next_lsn t) = unat (next_lsn s) + 1" using t(3) big by (simp add: unat_word_ariths)
  obtain u where u: "wal_flush (next_lsn s) t = Some u" "log_inv u" "pending u = pending t"
    "\<forall>n. in_window t n \<longrightarrow> disk_log u n = log_view t n" "log_write_frame t u"
    using wal_flush_ok [OF t(2), of "next_lsn s"] t(3) by auto
  have view: "log_view u n = log_view t n" if "in_window t n" for n
    using u(3,4) that by (auto simp: log_view_def split: option.split)
  have w: "in_window t (next_lsn s)"
    using un log_invD(7) [OF inv] by (simp add: in_window_def word_less_nat_alt)
  have n: "in_window t n \<and> in_window s n" if "0 < n" "n < next_lsn s" "unat (next_lsn s) + 1 \<le> unat n + 64" for n
    using that un by (auto simp: in_window_def word_less_nat_alt)
  have "next_lsn u = next_lsn s + 1" using u(5) t(3) by (auto simp: log_write_frame_def)
  moreover have "append_frame s u" using t(6) append_frame_flush [OF u(5)] by (rule append_frame_trans)
  ultimately show ?thesis using t u view w n by (intro exI [of _ t] exI [of _ u]) auto
qed

definition checkpoint_record :: wal_record where
  "checkpoint_record = zero_record\<lparr>rec_type := type_code WAL_CHECKPOINT, rec_txn := 0\<rparr>"

definition commit_record :: "txn_id_t \<Rightarrow> wal_record" where
  "commit_record tid = zero_record\<lparr>rec_type := type_code WAL_COMMIT, rec_txn := tid\<rparr>"

lemma mark_records_wf [simp]: "wal_record_wf checkpoint_record" "wal_record_wf (commit_record tid)"
  by (simp_all add: checkpoint_record_def commit_record_def wal_record_wf_def zero_record_def)

text \<open>The record with number \<open>n\<close> survives \<open>k\<close> more appends.\<close>

definition survives :: "nat \<Rightarrow> 'a wal_scheme \<Rightarrow> lsn_t \<Rightarrow> bool" where
  "survives k s n \<longleftrightarrow> 0 < n \<and> n < next_lsn s \<and> unat (next_lsn s) + k \<le> unat n + 64"

lemma wal_checkpoint_ok:
  assumes inv: "log_inv s" and safe: "log_safe s" and c: "\<not> checkpointing s" and big: "unat (next_lsn s) + 1 < 2 ^ 64"
  shows "\<exists>t. wal_checkpoint s = Some t \<and> log_inv t \<and> log_safe t \<and> txn_heap t = txn_heap s \<and>
    next_lsn t = next_lsn s + 1 \<and> disk_log t (next_lsn s) = Some (seal (next_lsn s) checkpoint_record) \<and>
    (\<forall>n. survives 1 s n \<longrightarrow> disk_log t n = log_view s n)"
proof -
  let ?s = "s\<lparr>checkpointing := True\<rparr>"
  obtain u where u: "cache_flush ?s = Some u" "log_inv u" "log_safe u" "log_view u = log_view s" "flush_frame ?s u"
    using cache_flush_safe [of ?s] inv safe log_safe_frame [of ?s s] by auto
  have nu: "next_lsn u = next_lsn s" "txn_heap u = txn_heap s" using u(5) by (auto simp: flush_frame_def)
  have pos: "next_lsn u > 0" using log_invD(7) [OF u(2)] .
  obtain v where v: "wal_flush (next_lsn u - 1) u = Some v" "log_inv v" "pending v = pending u"
    "\<forall>n. in_window u n \<longrightarrow> disk_log v n = log_view u n" "log_write_frame u v"
    using wal_flush_ok [OF u(2) order_refl] by blast
  have "log_view v n = log_view u n" if "in_window u n" for n
    using v(3,4) that by (auto simp: log_view_def split: option.split)
  then have view: "log_view v n = log_view s n" if "in_window u n" for n using that u(4) by simp
  have nv: "next_lsn v = next_lsn s" using v(5) nu by (auto simp: log_write_frame_def)
  obtain x w where w: "wal_append_record checkpoint_record v = Some (next_lsn s, x)" "wal_flush (next_lsn s) x = Some w"
    "next_lsn x = next_lsn s + 1"
    "log_inv w" "next_lsn w = next_lsn s + 1" "disk_log w (next_lsn s) = Some (seal (next_lsn s) checkpoint_record)"
    "\<forall>n. survives 1 v n \<longrightarrow> disk_log w n = log_view v n" "append_frame v w"
    using append_flush_ok [OF v(2), of checkpoint_record] big nv by (auto simp: survives_def)
  have fr: "append_frame u w" using append_frame_flush [OF v(5)] w(8) by (rule append_frame_trans)
  have "wal_checkpoint s = Some (w\<lparr>checkpointing := False\<rparr>)"
    using c u(1) pos v(1) w(1,2,3) by (simp add: wal_checkpoint_def checkpoint_record_def)
  moreover have "log_safe (w\<lparr>checkpointing := False\<rparr>)"
    using u(3) append_frameD(1,2) [OF fr] by (subst log_safe_frame [of _ u]) simp_all
  moreover have "disk_log w n = log_view s n" if "survives 1 s n" for n
    using that w(7) view nu nv by (auto simp: survives_def in_window_def)
  ultimately show ?thesis
    using w append_frameD(9) [OF fr] nu by (intro exI [of _ "w\<lparr>checkpointing := False\<rparr>"]) simp
qed

text \<open>The path of \<^verbatim>\<open>wal_txn_commit\<close> for an active transaction, up to the deferred checkpoint.\<close>

lemma wal_txn_commit_ok:
  assumes inv: "log_inv s" and safe: "log_safe s" and c: "\<not> checkpointing s" and big: "unat (next_lsn s) + 2 < 2 ^ 64"
    and p: "txn_heap s p = Some t" "txn_st t = TXN_ACTIVE"
  shows "\<exists>u. wal_txn_commit (Some p) s = Some (True, u) \<and> log_inv u \<and> log_safe u \<and> txn_heap u p = None \<and>
    disk_log u (next_lsn s) = Some (seal (next_lsn s) (commit_record (txn_id t))) \<and>
    (\<forall>n. survives 2 s n \<longrightarrow> disk_log u n = log_view s n)"
proof -
  let ?r = "commit_record (txn_id t)"
  obtain x w where w: "wal_append_record ?r s = Some (next_lsn s, x)" "wal_flush (next_lsn s) x = Some w"
    "log_inv w" "next_lsn w = next_lsn s + 1" "disk_log w (next_lsn s) = Some (seal (next_lsn s) ?r)"
    "\<forall>n. survives 1 s n \<longrightarrow> disk_log w n = log_view s n \<and> log_view w n = log_view s n"
    "log_view w (next_lsn s) = Some (seal (next_lsn s) ?r)" "append_frame s w"
    using append_flush_ok [OF inv, of ?r] big by (auto simp: survives_def)
  let ?v = "w\<lparr>active_txns := remove1 p (active_txns w), stats_txn_committed := stats_txn_committed w + 1,
      txn_heap := (txn_heap w)(p := None)\<rparr>"
  have un: "unat (next_lsn w) = unat (next_lsn s) + 1" using w(4) big by (simp add: unat_word_ariths)
  have sv: "log_safe ?v" using safe append_frameD(1,2) [OF w(8)] by (subst log_safe_frame [of _ s]) simp_all
  have s12: "survives 1 s n" if "survives 2 s n" for n using that by (simp add: survives_def)
  show ?thesis
  proof (cases "checkpoint_pending w")
    case False
    then have "wal_txn_commit (Some p) s = Some (True, ?v)"
      using p w(1,2) by (simp add: wal_txn_commit_def commit_record_def Let_def)
    then show ?thesis using w(3,5,6) sv s12 by (intro exI [of _ ?v]) simp
  next
    case True
    let ?x = "?v\<lparr>current_txn := None, checkpoint_pending := False\<rparr>"
    have "log_safe ?x" using sv by (subst log_safe_frame [of _ ?v]) simp_all
    then obtain y where y: "wal_checkpoint ?x = Some y" "log_inv y" "log_safe y" "txn_heap y = txn_heap ?x"
      "\<forall>n. survives 1 ?x n \<longrightarrow> disk_log y n = log_view ?x n"
      using wal_checkpoint_ok [of ?x] w(3) append_frameD(8) [OF w(8)] c un big by auto
    have "wal_txn_commit (Some p) s = Some (True, y)"
      using p w(1,2) y(1) True
      by (simp add: wal_txn_commit_def wal_set_current_txn_def commit_record_def Let_def)
    moreover have "survives 1 ?x (next_lsn s)"
      using log_invD(7) [OF inv] un by (simp add: survives_def word_less_nat_alt)
    moreover have "survives 1 ?x n" if "survives 2 s n" for n
      using that un by (auto simp: survives_def word_less_nat_alt)
    ultimately show ?thesis using y w(6,7) s12 by (intro exI [of _ y]) auto
  qed
qed

text \<open>
  (C11) A commit is durable when it returns: \<^verbatim>\<open>wal_txn_commit\<close> on an active transaction returns
  true, its COMMIT record is on disk under the next sequence number with a valid checksum, and so is
  every earlier record of the log that the COMMIT record and a deferred checkpoint did not push out of
  the circular log; the handle is released.
\<close>

theorem wal_commit_durable:
  assumes "log_inv s" "log_safe s" "\<not> checkpointing s" "unat (next_lsn s) + 2 < 2 ^ 64"
    and "txn_heap s p = Some t" "txn_st t = TXN_ACTIVE"
  shows "\<exists>u. wal_txn_commit (Some p) s = Some (True, u) \<and> log_inv u \<and> log_safe u \<and> txn_heap u p = None \<and>
    disk_log u (next_lsn s) = Some (seal (next_lsn s) (commit_record (txn_id t))) \<and>
    (\<forall>n. survives 2 s n \<longrightarrow> disk_log u n = log_view s n)"
  using assms by (rule wal_txn_commit_ok)

definition sample_txn :: wal_txn where
  "sample_txn = \<lparr>txn_id = 1, txn_st = TXN_ACTIVE, first_lsn = 0, last_lsn = 0\<rparr>"

lemma sample_log_safe: "log_safe (sample_wal\<lparr>txn_heap := h\<rparr>)"
  by (auto simp: log_safe_def dirty_at_def sample_cache_def)

lemma wal_commit_durable_witness:
  "\<exists>u. wal_txn_commit (Some 7) (sample_wal\<lparr>txn_heap := [7 \<mapsto> sample_txn]\<rparr>) = Some (True, u) \<and>
    disk_log u 1 = Some (seal 1 (commit_record 1))"
  using wal_commit_durable [of "sample_wal\<lparr>txn_heap := [7 \<mapsto> sample_txn]\<rparr>" 7 sample_txn]
  by (auto simp: sample_wal_inv sample_log_safe sample_txn_def)

section \<open>Logging a write\<close>

text \<open>The records of a write, and what replaying or reverting one does to a sector.\<close>

function chunk_records ::
  "txn_id_t \<Rightarrow> block_sector_t \<Rightarrow> byte list \<Rightarrow> byte list \<Rightarrow> u16 \<Rightarrow> u16 \<Rightarrow> u16 \<Rightarrow> wal_record list" where
  "chunk_records tid sector old new offset len b =
    (if b < len
     then write_record tid sector old new offset b (chunk_size len b) #
          chunk_records tid sector old new offset len (b + chunk_size len b)
     else [])"
  by pat_completeness auto
termination chunk_records
proof (relation "measure (\<lambda>(tid, sector, old, new, offset, len, b). unat len - unat b)", goal_cases)
  case (2 tid sector old new offset len b)
  then show ?case using chunk_size_bounds(1-3) [of b len] by (simp add: word_less_nat_alt)
qed simp

declare chunk_records.simps [simp del]

definition redo_rec :: "wal_record \<Rightarrow> byte list \<Rightarrow> byte list" where
  "redo_rec r d = patch (unat (rec_offset r)) (take (unat (rec_length r)) (new_data r)) d"

definition undo_rec :: "wal_record \<Rightarrow> byte list \<Rightarrow> byte list" where
  "undo_rec r d = patch (unat (rec_offset r)) (take (unat (rec_length r)) (old_data r)) d"

lemma write_record_wf:
  "unat c \<le> 232 \<Longrightarrow> wal_record_wf (write_record tid sector old new offset b c)"
  by (simp add: wal_record_wf_def write_record_def zero_record_def bytes_at_def)

lemma write_record_data:
  fixes tid sector
  assumes "b < len" "unat len \<le> length old" "unat len \<le> length new" "unat offset + unat len \<le> 512"
  defines "r \<equiv> write_record tid sector old new offset b (chunk_size len b)"
  shows "rec_offset r = offset + b" "unat (offset + b) = unat offset + unat b"
    "take (unat (rec_length r)) (old_data r) = bytes_at (unat b) (unat (chunk_size len b)) old"
    "take (unat (rec_length r)) (new_data r) = bytes_at (unat b) (unat (chunk_size len b)) new"
    "length (bytes_at (unat b) (unat (chunk_size len b)) old) = unat (chunk_size len b)"
    "length (bytes_at (unat b) (unat (chunk_size len b)) new) = unat (chunk_size len b)"
proof -
  note c = chunk_size_bounds [OF assms(1)]
  show "rec_offset r = offset + b" by (simp add: r_def write_record_def)
  have "unat b < unat len" using assms(1) by (simp add: word_less_nat_alt)
  then show "unat (offset + b) = unat offset + unat b"
    using assms(4) by (simp add: unat_word_ariths)
  show l: "length (bytes_at (unat b) (unat (chunk_size len b)) old) = unat (chunk_size len b)"
    "length (bytes_at (unat b) (unat (chunk_size len b)) new) = unat (chunk_size len b)"
    using c(3) assms(2,3) by (auto simp: bytes_at_def)
  then show "take (unat (rec_length r)) (old_data r) = bytes_at (unat b) (unat (chunk_size len b)) old"
    "take (unat (rec_length r)) (new_data r) = bytes_at (unat b) (unat (chunk_size len b)) new"
    using c(4) by (simp_all add: r_def write_record_def zero_record_def patch_def)
qed

lemma drop_take_join:
  "b + c \<le> n \<Longrightarrow> drop b (take n xs) = bytes_at b c xs @ drop (b + c) (take n xs)"
proof -
  assume "b + c \<le> n"
  then have "n - b = c + (n - (b + c))" by simp
  then show ?thesis unfolding bytes_at_def drop_take by (simp add: take_add add.commute)
qed

lemma patch_join:
  assumes "k + length a + length b \<le> length d"
  shows "patch (k + length a) b (patch k a d) = patch k (a @ b) d" "patch k a (patch (k + length a) b d) = patch k (a @ b) d"
  using patch_append [OF assms] patch_commute [of k a "k + length a" b d] assms by simp_all

lemma chunk_records_replay:
  assumes "unat len \<le> length old" "unat len \<le> length new" "unat offset + unat len \<le> 512" "length d = 512" "b \<le> len"
  shows "foldl (\<lambda>d r. redo_rec r d) d (chunk_records tid sector old new offset len b) =
      patch (unat offset + unat b) (drop (unat b) (take (unat len) new)) d \<and>
    foldr undo_rec (chunk_records tid sector old new offset len b) d =
      patch (unat offset + unat b) (drop (unat b) (take (unat len) old)) d"
  using assms
proof (induction tid sector old new offset len b arbitrary: d rule: chunk_records.induct)
  case (1 tid sector old new offset len b)
  show ?case
  proof (cases "b < len")
    case False
    then have "b = len" using "1.prems"(5) by simp
    then show ?thesis by (simp add: chunk_records.simps)
  next
    case True
    let ?c = "chunk_size len b"
    let ?r = "write_record tid sector old new offset b ?c"
    let ?rs = "chunk_records tid sector old new offset len (b + ?c)"
    note c = chunk_size_bounds [OF True]
    note w = write_record_data(2,5,6) [OF True "1.prems"(1-3)]
    note d = write_record_data(1,3,4) [OF True "1.prems"(1-3), where tid = tid and sector = sector]
    let ?no = "bytes_at (unat b) (unat ?c) old" and ?nn = "bytes_at (unat b) (unat ?c) new"
    let ?ro = "drop (unat b + unat ?c) (take (unat len) old)" and ?rn = "drop (unat b + unat ?c) (take (unat len) new)"
    let ?k = "unat offset + unat b"
    have le: "b + ?c \<le> len" using c(1,3) by (simp add: word_le_nat_alt)
    have split: "chunk_records tid sector old new offset len b = ?r # ?rs"
      using True by (simp add: chunk_records.simps [of tid sector old new offset len b])
    have r: "redo_rec ?r d = patch ?k ?nn d" "undo_rec ?r x = patch ?k ?no x" for x
      using d w(1) by (simp_all add: redo_rec_def undo_rec_def)
    have fit: "?k + length ?nn + length ?rn \<le> 512" "?k + length ?no + length ?ro \<le> 512"
      using w(2,3) c(3) "1.prems"(1-3) by auto
    have off: "unat offset + unat (b + ?c) = ?k + unat ?c" "unat (b + ?c) = unat b + unat ?c" using c(1) by auto
    have rd: "length (redo_rec ?r d) = 512" using r(1) fit "1.prems"(4) by simp
    have "foldl (\<lambda>d r. redo_rec r d) d (?r # ?rs) = patch (?k + length ?nn) ?rn (patch ?k ?nn d)"
      using "1.IH" [OF True "1.prems"(1-3) rd le] r(1) off w(3) by (simp add: add.assoc)
    moreover have "foldr undo_rec (?r # ?rs) d = patch ?k ?no (patch (?k + length ?no) ?ro d)"
      using "1.IH" [OF True "1.prems"(1-4) le] r(2) off w(2) by (simp add: add.assoc)
    ultimately show ?thesis
      unfolding split drop_take_join [OF c(3), of old] drop_take_join [OF c(3), of new]
      using patch_join(1) [of ?k ?nn ?rn d] patch_join(2) [of ?k ?no ?ro d] fit "1.prems"(4) by simp
  qed
qed

lemma chunk_records_props:
  "r \<in> set (chunk_records tid sector old new offset len b) \<Longrightarrow>
    wal_record_wf r \<and> rec_txn r = tid \<and> rec_sector r = sector \<and> rec_type r = type_code WAL_WRITE \<and>
    unat (rec_length r) \<le> WAL_MAX_DATA_SIZE"
proof (induction tid sector old new offset len b rule: chunk_records.induct)
  case (1 tid sector old new offset len b)
  show ?case
  proof (cases "b < len")
    case False
    with "1.prems" show ?thesis by (simp add: chunk_records.simps)
  next
    case True
    have c: "unat (chunk_size len b) \<le> 232" using chunk_size_bounds(4) [OF True] by simp
    from True "1.prems" have "r = write_record tid sector old new offset b (chunk_size len b) \<or>
        r \<in> set (chunk_records tid sector old new offset len (b + chunk_size len b))"
      by (simp add: chunk_records.simps [of tid sector old new offset len b])
    then show ?thesis
      using "1.IH" [OF True] c write_record_wf [OF c] by (auto simp: write_record_def zero_record_def)
  qed
qed

lemma wal_log_chunks_append:
  assumes "unat len \<le> length old" "unat len \<le> length new"
    and "append_all (chunk_records tid sector old new offset len b) s = Some t"
  shows "\<exists>n'. wal_log_chunks tid sector old new offset len b n s = Some (n', t)"
  using assms
proof (induction tid sector old new offset len b arbitrary: s n rule: chunk_records.induct)
  case (1 tid sector old new offset len b)
  show ?case
  proof (cases "b < len")
    case False
    with "1.prems"(3) show ?thesis by (simp add: chunk_records.simps wal_log_chunks.simps)
  next
    case True
    let ?c = "chunk_size len b"
    from True "1.prems"(3) obtain m u where u: "wal_append_record (write_record tid sector old new offset b ?c) s = Some (m, u)"
      "append_all (chunk_records tid sector old new offset len (b + ?c)) u = Some t"
      by (auto simp: chunk_records.simps [of tid sector old new offset len b] split: Option.bind_splits)
    have "unat b + unat ?c \<le> length old \<and> unat b + unat ?c \<le> length new"
      using chunk_size_bounds(3) [OF True] "1.prems"(1,2) by simp
    with True u(1) have "wal_log_chunks tid sector old new offset len b n s =
        wal_log_chunks tid sector old new offset len (b + ?c) m u"
      by (simp add: wal_log_chunks.simps [of tid sector old new offset len b])
    with "1.IH" [OF True "1.prems"(1,2) u(2), of m] show ?thesis by simp
  qed
qed

lemma wal_log_write_ok:
  assumes "log_inv s" "txn_heap s p = Some x" "txn_st x = TXN_ACTIVE" "unat (next_lsn s) + 65536 < 2 ^ 64"
    and "unat len \<le> length old" "unat len \<le> length new" "unat offset + unat len \<le> 512"
  shows "\<exists>rs t u. append_all rs s = Some u \<and> wal_log_write (Some p) sector old new offset len s = Some (True, t) \<and>
    log_inv t \<and> log_view t = log_view u \<and> length rs \<le> 65535 \<and>
    (\<forall>r \<in> set rs. wal_record_wf r \<and> rec_txn r = txn_id x \<and> rec_sector r = sector \<and>
       rec_type r = type_code WAL_WRITE \<and> unat (rec_length r) \<le> WAL_MAX_DATA_SIZE) \<and>
    (\<forall>d. length d = BLOCK_SECTOR_SIZE \<longrightarrow>
       foldl (\<lambda>d r. redo_rec r d) d rs = patch (unat offset) (take (unat len) new) d \<and>
       foldl (\<lambda>d r. undo_rec r d) d (rev rs) = patch (unat offset) (take (unat len) old) d)"
proof -
  let ?rs = "chunk_records (txn_id x) sector old new offset len 0"
  have cnt: "length (chunk_records tid sector old new offset len b) \<le> unat len - unat b" for tid b
  proof (induction tid sector old new offset len b rule: chunk_records.induct)
    case (1 tid sector old new offset len b)
    then show ?case
      using chunk_size_bounds(1-3) [of b len] by (cases "b < len") (auto simp: chunk_records.simps [of tid sector old new offset len b])
  qed
  have len: "length ?rs \<le> 65535" using cnt [of "txn_id x" 0] unat_bound [of len] by simp
  obtain u where u: "append_all ?rs s = Some u" "log_inv u" "append_frame s u"
    using append_all_ok [OF assms(1), of ?rs] chunk_records_props len assms(4) by fastforce
  obtain n where n: "wal_log_chunks (txn_id x) sector old new offset len 0 (last_lsn x) s = Some (n, u)"
    using wal_log_chunks_append [OF assms(5,6) u(1)] by blast
  let ?t = "u\<lparr>txn_heap := (txn_heap u)(p := Some (x\<lparr>last_lsn := n\<rparr>)), stats_writes_logged := stats_writes_logged u + 1\<rparr>"
  have "wal_log_write (Some p) sector old new offset len s = Some (True, ?t)"
    using assms(2,3) n by (simp add: wal_log_write_def)
  moreover have "log_view ?t = log_view u"
    by (auto simp: fun_eq_iff log_view_def pending_def disk_log_def split: option.splits)
  moreover have "foldl (\<lambda>d r. redo_rec r d) d ?rs = patch (unat offset) (take (unat len) new) d \<and>
      foldl (\<lambda>d r. undo_rec r d) d (rev ?rs) = patch (unat offset) (take (unat len) old) d" if "length d = 512" for d
    using chunk_records_replay [OF assms(5-7) that, of 0] by (simp add: foldl_conv_fold foldr_conv_fold)
  moreover have "\<forall>r \<in> set ?rs. wal_record_wf r \<and> rec_txn r = txn_id x \<and> rec_sector r = sector \<and>
       rec_type r = type_code WAL_WRITE \<and> unat (rec_length r) \<le> WAL_MAX_DATA_SIZE"
    using chunk_records_props by blast
  moreover have "log_inv ?t" using u(2) by simp
  ultimately show ?thesis
    using u(1) len by (intro exI [of _ ?rs] exI [of _ ?t] exI [of _ u]) (simp del: wal_constants)
qed

text \<open>
  (C13) Logging a write captures it: \<^verbatim>\<open>wal_log_write\<close> appends a sequence of WRITE records of the
  transaction, each with at most 232 bytes, such that replaying their after images in order writes
  exactly the new bytes over any sector, and restoring their before images in reverse order writes
  exactly the old bytes, whatever the length and offset inside the sector.
\<close>

theorem wal_log_write_captures:
  assumes "log_inv s" "txn_heap s p = Some x" "txn_st x = TXN_ACTIVE" "unat (next_lsn s) + 65536 < 2 ^ 64"
    and "unat len \<le> length old" "unat len \<le> length new" "unat offset + unat len \<le> BLOCK_SECTOR_SIZE"
  shows "\<exists>rs t u. append_all rs s = Some u \<and> wal_log_write (Some p) sector old new offset len s = Some (True, t) \<and>
    log_inv t \<and> log_view t = log_view u \<and>
    (\<forall>r \<in> set rs. wal_record_wf r \<and> rec_txn r = txn_id x \<and> rec_sector r = sector \<and>
       rec_type r = type_code WAL_WRITE \<and> unat (rec_length r) \<le> WAL_MAX_DATA_SIZE) \<and>
    (\<forall>d. length d = BLOCK_SECTOR_SIZE \<longrightarrow>
       foldl (\<lambda>d r. redo_rec r d) d rs = patch (unat offset) (take (unat len) new) d \<and>
       foldl (\<lambda>d r. undo_rec r d) d (rev rs) = patch (unat offset) (take (unat len) old) d)"
  using wal_log_write_ok [OF assms(1-6), of offset sector] assms(7) by auto

lemma wal_log_write_captures_witness:
  "\<exists>t. wal_log_write (Some 7) 100 (replicate 512 0) (replicate 512 9) 0 512
      (sample_wal\<lparr>txn_heap := [7 \<mapsto> sample_txn]\<rparr>) = Some (True, t) \<and> log_inv t"
proof -
  have inv: "log_inv (sample_wal\<lparr>txn_heap := [7 \<mapsto> sample_txn]\<rparr>)" by (simp add: sample_wal_inv)
  show ?thesis
    using wal_log_write_captures [OF inv, of 7 sample_txn 512 "replicate 512 0" "replicate 512 9" 0 100]
    by (auto simp: sample_txn_def)
qed

end
