(* ===== verification/Wal_Recovery.thy ===== *)
theory Wal_Recovery
  imports Wal_Log "HOL-Library.Multiset"
begin

text \<open>
  Crash recovery. The recovery procedure is first shown to compute a function of the log records
  found on disk: the after images of committed transactions are written in the order of the log
  sectors, then the before images of unfinished ones from the newest to the oldest. From this, byte by
  byte, follow what recovery restores, that it can be repeated, and where its guarantees end.
\<close>

section \<open>Byte writes\<close>

text \<open>A write of some bytes at an offset of a sector, and sequences of such writes.\<close>

type_synonym wop = "block_sector_t \<times> nat \<times> byte list"

definition apply_op :: "wop \<Rightarrow> (block_sector_t \<Rightarrow> byte list) \<Rightarrow> block_sector_t \<Rightarrow> byte list" where
  "apply_op w m = (case w of (a, ofs, d) \<Rightarrow> m(a := patch ofs d (m a)))"

definition apply_ops :: "wop list \<Rightarrow> (block_sector_t \<Rightarrow> byte list) \<Rightarrow> block_sector_t \<Rightarrow> byte list" where
  "apply_ops ws m = foldl (\<lambda>m w. apply_op w m) m ws"

definition covers :: "block_sector_t \<Rightarrow> nat \<Rightarrow> wop \<Rightarrow> bool" where
  "covers a k w \<longleftrightarrow> (case w of (b, ofs, d) \<Rightarrow> b = a \<and> ofs \<le> k \<and> k < ofs + length d)"

definition byte_of :: "nat \<Rightarrow> wop \<Rightarrow> byte" where
  "byte_of k w = (case w of (b, ofs, d) \<Rightarrow> d ! (k - ofs))"

definition op_fits :: "wop \<Rightarrow> bool" where
  "op_fits w \<longleftrightarrow> (case w of (b, ofs, d) \<Rightarrow> ofs + length d \<le> 512)"

lemma apply_ops_simps [simp]:
  "apply_ops [] m = m" "apply_ops (w # ws) m = apply_ops ws (apply_op w m)"
  "apply_ops (xs @ ys) m = apply_ops ys (apply_ops xs m)"
  by (simp_all add: apply_ops_def)

lemma length_apply_op: "op_fits w \<Longrightarrow> length (m a) = 512 \<Longrightarrow> length (apply_op w m a) = 512"
  by (auto simp: apply_op_def op_fits_def split: prod.splits)

lemma length_apply_ops: "\<forall>w \<in> set ws. op_fits w \<Longrightarrow> length (m a) = 512 \<Longrightarrow> length (apply_ops ws m a) = 512"
  by (induction ws arbitrary: m) (simp_all add: length_apply_op)

lemma apply_op_nth:
  assumes "op_fits w" "length (m a) = 512" "k < 512"
  shows "apply_op w m a ! k = (if covers a k w then byte_of k w else m a ! k)"
  using assms by (auto simp: apply_op_def op_fits_def covers_def byte_of_def nth_patch split: prod.splits)

text \<open>The last write that covers a byte decides it.\<close>

lemma apply_ops_nth:
  assumes "\<forall>w \<in> set ws. op_fits w" "length (m a) = 512" "k < 512"
  shows "apply_ops ws m a ! k =
    (case find (covers a k) (rev ws) of Some w \<Rightarrow> byte_of k w | None \<Rightarrow> m a ! k)"
  using assms
proof (induction ws rule: rev_induct)
  case (snoc w ws)
  then show ?case
    using apply_op_nth [of w "apply_ops ws m" a k] length_apply_ops [of ws m a] by simp
qed simp

lemma apply_ops_other: "\<forall>w \<in> set ws. fst w \<noteq> a \<Longrightarrow> apply_ops ws m a = m a"
  by (induction ws arbitrary: m) (auto simp: apply_op_def split: prod.splits)

section \<open>The records on disk\<close>

definition slot_rec :: "(block_sector_t \<Rightarrow> byte list) \<Rightarrow> nat \<Rightarrow> wal_record" where
  "slot_rec m i = decode (m (2 + word_of_nat i))"

definition log_recs :: "(block_sector_t \<Rightarrow> byte list) \<Rightarrow> wal_record list" where
  "log_recs m = filter checksum_ok (map (slot_rec m) [0..<64])"

definition is_write :: "wal_record \<Rightarrow> bool" where
  "is_write r \<longleftrightarrow> rec_type r = type_code WAL_WRITE"

definition committed_in :: "wal_record list \<Rightarrow> txn_id_t \<Rightarrow> bool" where
  "committed_in rs tid \<longleftrightarrow> tid \<noteq> 0 \<and> (\<exists>r \<in> set rs. lsn r \<noteq> 0 \<and> rec_txn r = tid \<and> rec_type r = type_code WAL_COMMIT)"

definition aborted_in :: "wal_record list \<Rightarrow> txn_id_t \<Rightarrow> bool" where
  "aborted_in rs tid \<longleftrightarrow> tid \<noteq> 0 \<and> (\<exists>r \<in> set rs. lsn r \<noteq> 0 \<and> rec_txn r = tid \<and> rec_type r = type_code WAL_ABORT)"

definition unfinished_in :: "wal_record list \<Rightarrow> txn_id_t \<Rightarrow> bool" where
  "unfinished_in rs tid \<longleftrightarrow> tid \<noteq> 0 \<and> (\<exists>r \<in> set rs. lsn r \<noteq> 0 \<and> rec_txn r = tid) \<and>
     \<not> committed_in rs tid \<and> \<not> aborted_in rs tid"

definition redo_op :: "wal_record \<Rightarrow> wop" where
  "redo_op r = (rec_sector r, unat (rec_offset r), take (unat (rec_length r)) (new_data r))"

definition undo_op :: "wal_record \<Rightarrow> wop" where
  "undo_op r = (rec_sector r, unat (rec_offset r), take (unat (rec_length r)) (old_data r))"

text \<open>Log sectors hold only records whose writes stay inside a data sector of the device.\<close>

definition write_ok :: "block_sector_t \<Rightarrow> wal_record \<Rightarrow> bool" where
  "write_ok sz r \<longleftrightarrow> rec_sector r < sz \<and> \<not> is_log_sector (rec_sector r) \<and> unat (rec_length r) \<le> 232 \<and>
     unat (rec_offset r) + unat (rec_length r) \<le> 512"

definition log_wf :: "'a wal_scheme \<Rightarrow> bool" where
  "log_wf s \<longleftrightarrow> block_inv s \<and> 67 \<le> dev_size s \<and>
     (\<forall>r \<in> set (log_recs (media s)). is_write r \<longrightarrow> write_ok (dev_size s) r)"

lemma slot_is_log_sector: "i < 64 \<Longrightarrow> is_log_sector (2 + word_of_nat i)"
proof -
  assume i: "i < 64"
  have "unat (word_of_nat i :: block_sector_t) = i" using i by (simp add: unat_of_nat take_bit_nat_eq_self)
  then have "unat (2 + word_of_nat i :: block_sector_t) = 2 + i" using i by (simp add: unat_word_ariths)
  with i show ?thesis by (simp add: is_log_sector_def word_le_nat_alt word_less_nat_alt)
qed

lemma log_sector_on_device: "is_log_sector a \<Longrightarrow> 67 \<le> sz \<Longrightarrow> a < sz"
  by (auto simp: is_log_sector_def word_le_nat_alt word_less_nat_alt)

lemma wal_scan_sector_eq:
  assumes "i < 64" "67 \<le> dev_size s"
  shows "wal_scan_sector i s = Some (slot_rec (media s) i, s\<lparr>read_cnt := read_cnt s + 1\<rparr>)"
  using log_sector_on_device [OF slot_is_log_sector [OF assms(1)] assms(2)]
  by (simp add: wal_scan_sector_def block_read_eq slot_rec_def)

section \<open>Analysis\<close>

definition seen_ok :: "wal_record list \<Rightarrow> (txn_id_t \<times> bool \<times> bool) list \<Rightarrow> bool" where
  "seen_ok rs seen \<longleftrightarrow> length seen \<le> length rs \<and>
     set (map fst seen) = {tid. tid \<noteq> 0 \<and> tid \<in> rec_txn ` set rs} \<and>
     (\<forall>(tid, c, a) \<in> set seen.
        c = (\<exists>r \<in> set rs. rec_txn r = tid \<and> rec_type r = type_code WAL_COMMIT) \<and>
        a = (\<exists>r \<in> set rs. rec_txn r = tid \<and> rec_type r = type_code WAL_ABORT))"

lemma seen_okD:
  assumes "seen_ok rs seen"
  shows "(tid, c, a) \<in> set seen \<Longrightarrow> tid \<noteq> 0 \<and> (\<exists>r \<in> set rs. rec_txn r = tid) \<and>
      c = (\<exists>r \<in> set rs. rec_txn r = tid \<and> rec_type r = type_code WAL_COMMIT) \<and>
      a = (\<exists>r \<in> set rs. rec_txn r = tid \<and> rec_type r = type_code WAL_ABORT)"
    and "tid \<noteq> 0 \<Longrightarrow> r \<in> set rs \<Longrightarrow> rec_txn r = tid \<Longrightarrow> \<exists>c a. (tid, c, a) \<in> set seen"
proof -
  have ids: "set (map fst seen) = {tid. tid \<noteq> 0 \<and> tid \<in> rec_txn ` set rs}" using assms by (simp add: seen_ok_def)
  have val: "\<forall>(tid, c, a) \<in> set seen.
        c = (\<exists>r \<in> set rs. rec_txn r = tid \<and> rec_type r = type_code WAL_COMMIT) \<and>
        a = (\<exists>r \<in> set rs. rec_txn r = tid \<and> rec_type r = type_code WAL_ABORT)"
    using assms unfolding seen_ok_def by (elim conjE)
  show "tid \<noteq> 0 \<and> (\<exists>r \<in> set rs. rec_txn r = tid) \<and>
      c = (\<exists>r \<in> set rs. rec_txn r = tid \<and> rec_type r = type_code WAL_COMMIT) \<and>
      a = (\<exists>r \<in> set rs. rec_txn r = tid \<and> rec_type r = type_code WAL_ABORT)" if m: "(tid, c, a) \<in> set seen"
  proof -
    have "tid \<in> set (map fst seen)" using m by force
    then have "tid \<noteq> 0 \<and> (\<exists>r \<in> set rs. rec_txn r = tid)" unfolding ids by auto
    then show ?thesis using bspec [OF val m] by simp
  qed
  show "\<exists>c a. (tid, c, a) \<in> set seen" if "tid \<noteq> 0" "r \<in> set rs" "rec_txn r = tid"
  proof -
    have "tid \<in> set (map fst seen)" unfolding ids using that by auto
    then obtain x where "x \<in> set seen" "fst x = tid" by auto
    then show ?thesis by (metis prod.collapse)
  qed
qed

definition mark_txn :: "wal_record \<Rightarrow> txn_id_t \<times> bool \<times> bool \<Rightarrow> txn_id_t \<times> bool \<times> bool" where
  "mark_txn r = (\<lambda>(tid, c, a). (tid, c \<or> tid = rec_txn r \<and> rec_type r = type_code WAL_COMMIT,
     a \<or> tid = rec_txn r \<and> rec_type r = type_code WAL_ABORT))"

lemma note_txn_mark:
  "note_txn r seen = map (mark_txn r) (if rec_txn r \<notin> set (map fst seen) \<and> length seen < 256 \<and> rec_txn r \<noteq> 0
     then seen @ [(rec_txn r, False, False)] else seen)"
  by (auto simp: note_txn_def mark_txn_def Let_def MAX_TXNS_def)

lemma fst_mark_txn: "map fst (map (mark_txn r) xs) = map fst xs"
  by (simp add: mark_txn_def case_prod_beta)

lemma seen_ok_note:
  assumes "seen_ok rs seen" and "length rs < 256"
  shows "seen_ok (rs @ [r]) (note_txn r seen)"
proof -
  let ?new = "rec_txn r \<notin> set (map fst seen) \<and> rec_txn r \<noteq> 0"
  let ?xs = "if ?new then seen @ [(rec_txn r, False, False)] else seen"
  have ids: "set (map fst seen) = {tid. tid \<noteq> 0 \<and> tid \<in> rec_txn ` set rs}" and len: "length seen \<le> length rs"
    using assms(1) by (simp_all add: seen_ok_def)
  have eqn: "note_txn r seen = map (mark_txn r) ?xs" using len assms(2) by (simp add: note_txn_mark)
  have "set (map fst (note_txn r seen)) = {tid. tid \<noteq> 0 \<and> tid \<in> rec_txn ` set (rs @ [r])}"
    unfolding eqn fst_mark_txn using ids by auto
  moreover have "length (note_txn r seen) \<le> length (rs @ [r])" using eqn len by simp
  moreover have "\<forall>(tid, c, a) \<in> set (note_txn r seen).
      c = (\<exists>r \<in> set (rs @ [r]). rec_txn r = tid \<and> rec_type r = type_code WAL_COMMIT) \<and>
      a = (\<exists>r \<in> set (rs @ [r]). rec_txn r = tid \<and> rec_type r = type_code WAL_ABORT)"
  proof
    fix x assume "x \<in> set (note_txn r seen)"
    then obtain y where y: "y \<in> set ?xs" "x = mark_txn r y" unfolding eqn by auto
    obtain tid c a where yy: "y = (tid, c, a)" by (cases y)
    have "c = (\<exists>r \<in> set rs. rec_txn r = tid \<and> rec_type r = type_code WAL_COMMIT) \<and>
      a = (\<exists>r \<in> set rs. rec_txn r = tid \<and> rec_type r = type_code WAL_ABORT)"
    proof (cases "y \<in> set seen")
      case True
      then show ?thesis using assms(1) yy by (auto simp: seen_ok_def)
    next
      case False
      then have "?new" "tid = rec_txn r" "\<not> c" "\<not> a" using y(1) yy by (auto split: if_splits)
      then have "tid \<notin> {tid. tid \<noteq> 0 \<and> tid \<in> rec_txn ` set rs}" "tid \<noteq> 0" unfolding ids [symmetric] by simp_all
      then have "\<forall>r \<in> set rs. rec_txn r \<noteq> tid" by auto
      with \<open>\<not> c\<close> \<open>\<not> a\<close> show ?thesis by blast
    qed
    then show "case x of (tid, c, a) \<Rightarrow> c = (\<exists>r \<in> set (rs @ [r]). rec_txn r = tid \<and> rec_type r = type_code WAL_COMMIT) \<and>
      a = (\<exists>r \<in> set (rs @ [r]). rec_txn r = tid \<and> rec_type r = type_code WAL_ABORT)"
      using y(2) yy by (auto simp: mark_txn_def)
  qed
  ultimately show ?thesis unfolding seen_ok_def by blast
qed

lemma seen_ok_foldl:
  "seen_ok xs seen \<Longrightarrow> length xs + length rs \<le> 256 \<Longrightarrow>
    seen_ok (xs @ rs) (foldl (\<lambda>seen r. note_txn r seen) seen rs)"
proof (induction rs arbitrary: xs seen)
  case (Cons r rs)
  have "seen_ok (xs @ [r]) (note_txn r seen)" using Cons.prems by (intro seen_ok_note) auto
  then show ?case using Cons.IH [of "xs @ [r]" "note_txn r seen"] Cons.prems(2) by simp
qed simp

lemma wal_analysis_eq:
  assumes "set js \<subseteq> {..<64}" "67 \<le> dev_size s"
  shows "\<exists>w. wal_analysis js mx seen s =
    (let rs = filter (\<lambda>r. checksum_ok r \<and> lsn r \<noteq> 0) (map (slot_rec (media s)) js)
     in Some (foldl max mx (map lsn rs), foldl (\<lambda>seen r. note_txn r seen) seen rs, s\<lparr>read_cnt := w\<rparr>))"
  using assms
proof (induction js arbitrary: mx seen s)
  case Nil
  then show ?case by (auto intro!: exI [of _ "read_cnt s"])
next
  case (Cons i js)
  let ?r = "slot_rec (media s) i" and ?s = "s\<lparr>read_cnt := read_cnt s + 1\<rparr>"
  have scan: "wal_scan_sector i s = Some (?r, ?s)" using Cons.prems by (intro wal_scan_sector_eq) auto
  show ?case
  proof (cases "checksum_ok ?r \<and> lsn ?r \<noteq> 0")
    case True
    have "(if lsn ?r > mx then lsn ?r else mx) = max mx (lsn ?r)" by auto
    with Cons.IH [of ?s "max mx (lsn ?r)" "note_txn ?r seen"] Cons.prems scan True show ?thesis by (simp add: Let_def)
  next
    case False
    with Cons.IH [of ?s mx seen] Cons.prems scan show ?thesis by (auto simp: Let_def)
  qed
qed

lemma slots_subset: "set [0..<64] \<subseteq> {..<64 :: nat}"
  by auto

lemma set_committed_txns:
  "set (committed_txns seen) = {tid. \<exists>a. (tid, True, a) \<in> set seen}"
  "set (uncommitted_txns seen) = {tid. (tid, False, False) \<in> set seen}"
  by (force simp: committed_txns_def uncommitted_txns_def split: if_splits)+

lemma wal_analysis_log:
  assumes "67 \<le> dev_size s"
  shows "\<exists>mx seen w. wal_analysis [0..<64] 0 [] s = Some (mx, seen, s\<lparr>read_cnt := w\<rparr>) \<and>
    mx = foldl max 0 (map lsn (filter (\<lambda>r. lsn r \<noteq> 0) (log_recs (media s)))) \<and>
    set (committed_txns seen) = {tid. committed_in (log_recs (media s)) tid} \<and>
    set (uncommitted_txns seen) = {tid. unfinished_in (log_recs (media s)) tid}"
proof -
  let ?rs = "filter (\<lambda>r. checksum_ok r \<and> lsn r \<noteq> 0) (map (slot_rec (media s)) [0..<64])"
  let ?seen = "foldl (\<lambda>seen r. note_txn r seen) [] ?rs"
  obtain w where w: "wal_analysis [0..<64] 0 [] s = Some (foldl max 0 (map lsn ?rs), ?seen, s\<lparr>read_cnt := w\<rparr>)"
    using wal_analysis_eq [OF slots_subset assms, of 0 "[]"] by (auto simp: Let_def)
  have fl: "filter (\<lambda>r. lsn r \<noteq> 0) (log_recs (media s)) = ?rs"
    by (simp add: log_recs_def conj_commute)
  then have sl: "set ?rs = {r \<in> set (log_recs (media s)). lsn r \<noteq> 0}" by (metis set_filter)
  have "length ?rs \<le> 64" using length_filter_le [of _ "map (slot_rec (media s)) [0..<64]"] by simp
  then have ok: "seen_ok ?rs ?seen" using seen_ok_foldl [of "[]" "[]" ?rs] by (simp add: seen_ok_def)
  note val = seen_okD(1) [OF ok] and pick = seen_okD(2) [OF ok]
  have com: "set (committed_txns ?seen) = {tid. committed_in (log_recs (media s)) tid}"
  proof (intro equalityI subsetI)
    fix tid assume "tid \<in> set (committed_txns ?seen)"
    then obtain a where "(tid, True, a) \<in> set ?seen" by (auto simp: set_committed_txns)
    from val [OF this] show "tid \<in> {tid. committed_in (log_recs (media s)) tid}"
      unfolding committed_in_def sl by blast
  next
    fix tid assume "tid \<in> {tid. committed_in (log_recs (media s)) tid}"
    then obtain r where r: "tid \<noteq> 0" "r \<in> set ?rs" "rec_txn r = tid" "rec_type r = type_code WAL_COMMIT"
      unfolding committed_in_def sl by blast
    from pick [OF r(1-3)] val r show "tid \<in> set (committed_txns ?seen)" by (fastforce simp: set_committed_txns)
  qed
  have unc: "set (uncommitted_txns ?seen) = {tid. unfinished_in (log_recs (media s)) tid}"
  proof (intro equalityI subsetI)
    fix tid assume "tid \<in> set (uncommitted_txns ?seen)"
    then have "(tid, False, False) \<in> set ?seen" by (auto simp: set_committed_txns)
    from val [OF this] show "tid \<in> {tid. unfinished_in (log_recs (media s)) tid}"
      unfolding unfinished_in_def committed_in_def aborted_in_def sl by blast
  next
    fix tid assume u: "tid \<in> {tid. unfinished_in (log_recs (media s)) tid}"
    then obtain r where r: "tid \<noteq> 0" "r \<in> set ?rs" "rec_txn r = tid" unfolding unfinished_in_def sl by blast
    obtain c a where ca: "(tid, c, a) \<in> set ?seen" using pick [OF r] by blast
    have "\<not> c \<and> \<not> a" using val [OF ca] u unfolding unfinished_in_def committed_in_def aborted_in_def sl by blast
    with ca show "tid \<in> set (uncommitted_txns ?seen)" by (simp add: set_committed_txns)
  qed
  show ?thesis using w fl com unc by auto
qed

section \<open>Redo\<close>

lemma wal_patch_sector_eq:
  assumes "a < dev_size s" "block_inv s" "unat n \<le> length data" "unat ofs + unat n \<le> 512"
  shows "wal_patch_sector a ofs n data s =
    Some (s\<lparr>media := apply_op (a, unat ofs, take (unat n) data) (media s),
            read_cnt := read_cnt s + 1, write_cnt := write_cnt s + 1\<rparr>)"
  using assms block_invD [OF assms(2,1)]
  by (simp add: wal_patch_sector_def block_read_eq block_write_eq apply_op_def block_inv_def)

text \<open>Writes outside the log leave the records where they are.\<close>

definition same_log :: "(block_sector_t \<Rightarrow> byte list) \<Rightarrow> (block_sector_t \<Rightarrow> byte list) \<Rightarrow> bool" where
  "same_log m m' \<longleftrightarrow> (\<forall>a. is_log_sector a \<longrightarrow> m a = m' a)"

lemma same_log_slot: "same_log m m' \<Longrightarrow> i < 64 \<Longrightarrow> slot_rec m i = slot_rec m' i"
  by (simp add: same_log_def slot_rec_def slot_is_log_sector)

lemma same_log_recs: "same_log m m' \<Longrightarrow> log_recs m = log_recs m'"
  unfolding log_recs_def by (intro arg_cong [where f = "filter checksum_ok"] map_cong) (auto intro: same_log_slot)

lemma same_log_apply_op: "\<not> is_log_sector (fst w) \<Longrightarrow> same_log (apply_op w m) m' = same_log m m'"
  by (cases w) (simp add: same_log_def apply_op_def, metis)

lemma same_log_apply_ops: "\<forall>w \<in> set ws. \<not> is_log_sector (fst w) \<Longrightarrow> same_log (apply_ops ws m) m' = same_log m m'"
  by (induction ws arbitrary: m) (simp_all add: same_log_apply_op)

lemma block_inv_apply_op: "op_fits w \<Longrightarrow> block_inv s \<Longrightarrow> block_inv (s\<lparr>media := apply_op w (media s), read_cnt := x, write_cnt := y\<rparr>)"
  by (simp add: block_inv_def length_apply_op)

lemma slot_rec_data:
  assumes "block_inv s" "67 \<le> dev_size s" "i < 64"
  shows "length (new_data (slot_rec (media s) i)) = 232" "length (old_data (slot_rec (media s) i)) = 232"
proof -
  have "length (media s (2 + word_of_nat i)) = 512"
    using assms block_invD log_sector_on_device slot_is_log_sector by blast
  then show "length (new_data (slot_rec (media s) i)) = 232" "length (old_data (slot_rec (media s) i)) = 232"
    using decode_wf [of "media s (2 + word_of_nat i)"] by (simp_all add: slot_rec_def wal_record_wf_def)
qed

lemma wal_redo_eq:
  assumes "set js \<subseteq> {..<64}" "67 \<le> dev_size s" "block_inv s" "same_log (media s) m"
    and "\<forall>i \<in> set js. checksum_ok (slot_rec m i) \<and> is_write (slot_rec m i) \<longrightarrow> write_ok (dev_size s) (slot_rec m i)"
  shows "\<exists>x y. wal_redo js C s = Some (s\<lparr>media := apply_ops
      (map redo_op (filter (\<lambda>r. checksum_ok r \<and> is_write r \<and> rec_txn r \<in> set C) (map (slot_rec m) js))) (media s),
      read_cnt := x, write_cnt := y\<rparr>)"
  using assms
proof (induction js arbitrary: s)
  case Nil
  then show ?case by (intro exI [of _ "read_cnt s"] exI [of _ "write_cnt s"]) simp
next
  case (Cons i js)
  let ?r = "slot_rec m i" and ?s = "s\<lparr>read_cnt := read_cnt s + 1\<rparr>"
  have i: "i < 64" using Cons.prems by simp
  have r: "slot_rec (media s) i = ?r" using Cons.prems(4) i by (rule same_log_slot)
  have scan: "wal_scan_sector i s = Some (?r, ?s)" using wal_scan_sector_eq [OF i Cons.prems(2)] r by simp
  show ?case
  proof (cases "checksum_ok ?r \<and> is_write ?r \<and> rec_txn ?r \<in> set C")
    case False
    then have "wal_redo (i # js) C s = wal_redo js C ?s" using scan by (auto simp: is_write_def)
    moreover have "block_inv ?s" using Cons.prems(3) by (simp add: block_inv_def)
    ultimately show ?thesis using Cons.IH [of ?s] Cons.prems False by auto
  next
    case True
    then have ok: "write_ok (dev_size s) ?r" using Cons.prems(5) by simp
    have len: "length (new_data ?r) = 232" using slot_rec_data(1) [OF Cons.prems(3,2) i] r by simp
    let ?t = "s\<lparr>media := apply_op (redo_op ?r) (media s), read_cnt := read_cnt s + 2, write_cnt := write_cnt s + 1\<rparr>"
    have "block_inv ?s" using Cons.prems(3) by (simp add: block_inv_def)
    then have "wal_patch_sector (rec_sector ?r) (rec_offset ?r) (rec_length ?r) (new_data ?r) ?s = Some ?t"
      using wal_patch_sector_eq [of "rec_sector ?r" ?s "rec_length ?r" "new_data ?r" "rec_offset ?r"] ok len
      by (simp add: write_ok_def redo_op_def)
    then have "wal_redo (i # js) C s = wal_redo js C ?t" using scan True by (simp add: is_write_def)
    moreover have fits: "op_fits (redo_op ?r)" "\<not> is_log_sector (fst (redo_op ?r))"
      using ok len by (simp_all add: op_fits_def redo_op_def write_ok_def)
    moreover have "block_inv ?t" using fits(1) Cons.prems(3) by (rule block_inv_apply_op)
    moreover have "same_log (media ?t) m" using same_log_apply_op [OF fits(2)] Cons.prems(4) by simp
    ultimately show ?thesis using Cons.IH [of ?t] Cons.prems True by auto
  qed
qed

section \<open>Undo\<close>

lemma undo_sort_pass_props:
  assumes "undo_sort_pass x ys = (m, zs)"
  shows "mset (m # zs) = mset (x # ys)" "\<forall>z \<in> set zs. ue_lsn z \<le> ue_lsn m" "ue_lsn x \<le> ue_lsn m"
  using assms
  by (induction x ys arbitrary: m zs rule: undo_sort_pass.induct)
    (fastforce split: if_splits prod.splits simp: Let_def add_mset_commute)+

lemma undo_sort_props:
  "mset (undo_sort xs) = mset xs \<and> sorted_wrt (\<lambda>a b. ue_lsn b \<le> ue_lsn a) (undo_sort xs)"
proof (induction xs rule: undo_sort.induct)
  case (2 x xs)
  obtain m ys where p: "undo_sort_pass x xs = (m, ys)" by fastforce
  note q = undo_sort_pass_props [OF p]
  have ih: "mset (undo_sort ys) = mset ys" "sorted_wrt (\<lambda>a b. ue_lsn b \<le> ue_lsn a) (undo_sort ys)"
    using "2.IH" [OF p [symmetric] refl] by auto
  then have "set (undo_sort ys) = set ys" by (metis set_mset_mset)
  with ih q p show ?case by simp
qed simp

lemma set_undo_sort [simp]: "set (undo_sort xs) = set xs"
  using undo_sort_props [of xs] by (metis set_mset_mset)

lemma sorted_undo_asc: "sorted_wrt (\<lambda>a b. ue_lsn a \<le> ue_lsn b) (rev (undo_sort xs))"
  using undo_sort_props [of xs] by (simp add: sorted_wrt_rev)

lemma wal_undo_collect_eq:
  assumes "set js \<subseteq> {..<64}" "67 \<le> dev_size s" "length acc + length js \<le> 512"
    and "\<forall>i \<in> set js. checksum_ok (slot_rec (media s) i) \<and> is_write (slot_rec (media s) i) \<longrightarrow>
       write_ok (dev_size s) (slot_rec (media s) i)"
  shows "\<exists>x. wal_undo_collect js U acc s = Some (acc @ map undo_entry_of
      (filter (\<lambda>r. checksum_ok r \<and> is_write r \<and> rec_txn r \<in> set U) (map (slot_rec (media s)) js)), s\<lparr>read_cnt := x\<rparr>)"
  using assms
proof (induction js arbitrary: acc s)
  case Nil
  then show ?case by (intro exI [of _ "read_cnt s"]) simp
next
  case (Cons i js)
  let ?r = "slot_rec (media s) i" and ?s = "s\<lparr>read_cnt := read_cnt s + 1\<rparr>"
  have scan: "wal_scan_sector i s = Some (?r, ?s)" using Cons.prems by (intro wal_scan_sector_eq) auto
  show ?case
  proof (cases "checksum_ok ?r \<and> is_write ?r \<and> rec_txn ?r \<in> set U")
    case False
    then have "wal_undo_collect (i # js) U acc s = wal_undo_collect js U acc ?s" using scan by (auto simp: is_write_def)
    then show ?thesis using Cons.IH [of ?s acc] Cons.prems False by auto
  next
    case True
    then have "unat (rec_length ?r) \<le> 232" using Cons.prems(4) by (simp add: write_ok_def)
    then have "wal_undo_collect (i # js) U acc s = wal_undo_collect js U (acc @ [undo_entry_of ?r]) ?s"
      using scan True Cons.prems(3) by (simp add: is_write_def MAX_UNDO_def)
    then show ?thesis using Cons.IH [of ?s "acc @ [undo_entry_of ?r]"] Cons.prems True by auto
  qed
qed

definition ue_op :: "undo_entry \<Rightarrow> wop" where
  "ue_op u = (ue_sector u, unat (ue_offset u), take (unat (ue_length u)) (ue_old_data u))"

lemma ue_op_of [simp]: "ue_op (undo_entry_of r) = undo_op r" "ue_lsn (undo_entry_of r) = lsn r"
  by (simp_all add: ue_op_def undo_entry_of_def undo_op_def)

lemma wal_undo_apply_eq:
  assumes "block_inv s"
    and "\<forall>u \<in> set us. ue_sector u < dev_size s \<and> unat (ue_length u) \<le> length (ue_old_data u) \<and>
      unat (ue_offset u) + unat (ue_length u) \<le> 512"
  shows "\<exists>x y. wal_undo_apply us s = Some (s\<lparr>media := apply_ops (map ue_op us) (media s), read_cnt := x, write_cnt := y\<rparr>)"
  using assms
proof (induction us arbitrary: s)
  case Nil
  then show ?case by (intro exI [of _ "read_cnt s"] exI [of _ "write_cnt s"]) simp
next
  case (Cons u us)
  let ?t = "s\<lparr>media := apply_op (ue_op u) (media s), read_cnt := read_cnt s + 1, write_cnt := write_cnt s + 1\<rparr>"
  have p: "wal_patch_sector (ue_sector u) (ue_offset u) (ue_length u) (ue_old_data u) s = Some ?t"
    using Cons.prems by (subst wal_patch_sector_eq) (simp_all add: ue_op_def)
  have "op_fits (ue_op u)" using Cons.prems(2) by (simp add: op_fits_def ue_op_def)
  then have "block_inv ?t" using Cons.prems(1) by (rule block_inv_apply_op)
  then show ?case using Cons.IH [of ?t] Cons.prems(2) p by auto
qed

section \<open>Recovery as a function of the log\<close>

definition redo_ops :: "wal_record list \<Rightarrow> wop list" where
  "redo_ops rs = map redo_op (filter (\<lambda>r. is_write r \<and> committed_in rs (rec_txn r)) rs)"

definition undo_ops :: "wal_record list \<Rightarrow> wop list" where
  "undo_ops rs = map ue_op (undo_sort (map undo_entry_of (filter (\<lambda>r. is_write r \<and> unfinished_in rs (rec_txn r)) rs)))"

lemma log_wfD:
  assumes "log_wf s"
  shows "block_inv s" "67 \<le> dev_size s"
    and "\<forall>i \<in> set [0..<64]. checksum_ok (slot_rec (media s) i) \<and> is_write (slot_rec (media s) i) \<longrightarrow>
       write_ok (dev_size s) (slot_rec (media s) i)"
  using assms by (auto simp: log_wf_def log_recs_def)

lemma filter_log_recs:
  "filter P (log_recs m) = filter (\<lambda>r. checksum_ok r \<and> P r) (map (slot_rec m) [0..<64])"
  by (simp add: log_recs_def conj_commute)

lemma log_recs_data:
  assumes "log_wf s" "r \<in> set (log_recs (media s))"
  shows "length (new_data r) = 232" "length (old_data r) = 232" "is_write r \<Longrightarrow> write_ok (dev_size s) r"
  using assms slot_rec_data [OF log_wfD(1,2) [OF assms(1)]] by (auto simp: log_recs_def log_wf_def)

lemma redo_ops_fit:
  assumes "log_wf s" "w \<in> set (redo_ops (log_recs (media s)))"
  shows "op_fits w" "\<not> is_log_sector (fst w)"
  using assms(2) log_recs_data [OF assms(1)] by (auto simp: redo_ops_def redo_op_def op_fits_def write_ok_def)

lemma undo_ops_set:
  "set (undo_ops rs) = undo_op ` {r \<in> set rs. is_write r \<and> unfinished_in rs (rec_txn r)}"
proof -
  let ?us = "map undo_entry_of (filter (\<lambda>r. is_write r \<and> unfinished_in rs (rec_txn r)) rs)"
  have "set (undo_sort ?us) = set ?us" using undo_sort_props [of ?us] by (metis set_mset_mset)
  then show ?thesis unfolding undo_ops_def set_map by (auto simp: image_iff)
qed

lemma undo_ops_fit:
  assumes "log_wf s" "w \<in> set (undo_ops (log_recs (media s)))"
  shows "op_fits w" "\<not> is_log_sector (fst w)"
  using assms(2) log_recs_data [OF assms(1)] by (auto simp: undo_ops_set undo_op_def op_fits_def write_ok_def)

text \<open>The newest sequence number in the log.\<close>

definition max_lsn_of :: "wal_record list \<Rightarrow> lsn_t" where
  "max_lsn_of rs = foldl max 0 (map lsn (filter (\<lambda>r. lsn r \<noteq> 0) rs))"

lemma wal_recover_ok:
  assumes wf: "log_wf s" and mem: "\<not> oom s (mallocs s)"
  defines "L \<equiv> log_recs (media s)"
  shows "\<exists>t. wal_recover s = Some t \<and> media t = apply_ops (redo_ops L @ undo_ops L) (media s) \<and>
    next_lsn t = max_lsn_of L + 1 \<and> flushed_lsn t = max_lsn_of L \<and> dev_size t = dev_size s \<and>
    dev_type t = dev_type s \<and> oom t = oom s \<and> mallocs t = Suc (mallocs s)"
proof -
  note inv = log_wfD [OF wf]
  obtain mx seen x where an: "wal_analysis [0..<64] 0 [] s = Some (mx, seen, s\<lparr>read_cnt := x\<rparr>)"
    "mx = max_lsn_of L" "set (committed_txns seen) = {tid. committed_in L tid}"
    "set (uncommitted_txns seen) = {tid. unfinished_in L tid}"
    using wal_analysis_log [OF inv(2)] unfolding L_def max_lsn_of_def by blast
  let ?s1 = "s\<lparr>read_cnt := x\<rparr>"
  have rf: "map redo_op (filter (\<lambda>r. checksum_ok r \<and> is_write r \<and> rec_txn r \<in> set (committed_txns seen))
      (map (slot_rec (media s)) [0..<64])) = redo_ops L"
    unfolding redo_ops_def L_def an(3) filter_log_recs by simp
  have "block_inv ?s1" using inv(1) by (simp add: block_inv_def)
  then obtain y z where rd: "wal_redo [0..<64] (committed_txns seen) ?s1 =
      Some (s\<lparr>media := apply_ops (redo_ops L) (media s), read_cnt := y, write_cnt := z\<rparr>)"
    using wal_redo_eq [OF slots_subset, of ?s1 "media s" "committed_txns seen"] inv(2,3) rf
    by (auto simp: same_log_def)
  let ?s2 = "s\<lparr>media := apply_ops (redo_ops L) (media s), read_cnt := y, write_cnt := z\<rparr>"
  let ?s3 = "?s2\<lparr>mallocs := Suc (mallocs s)\<rparr>"
  have same: "same_log (media ?s3) (media s)"
    using same_log_apply_ops [of "redo_ops L"] redo_ops_fit(2) [OF wf] unfolding L_def by (simp add: same_log_def)
  have sl: "map (slot_rec (media ?s3)) [0..<64] = map (slot_rec (media s)) [0..<64]"
    using same_log_slot [OF same] by simp
  have inv3: "block_inv ?s3" using inv(1) redo_ops_fit(1) [OF wf] unfolding L_def
    by (simp add: block_inv_def length_apply_ops)
  have ok3: "\<forall>i \<in> set [0..<64]. checksum_ok (slot_rec (media ?s3) i) \<and> is_write (slot_rec (media ?s3) i) \<longrightarrow>
       write_ok (dev_size ?s3) (slot_rec (media ?s3) i)"
    using inv(3) same_log_slot [OF same] by auto
  let ?us = "map undo_entry_of (filter (\<lambda>r. is_write r \<and> unfinished_in L (rec_txn r)) L)"
  have uf: "map undo_entry_of (filter (\<lambda>r. checksum_ok r \<and> is_write r \<and> rec_txn r \<in> set (uncommitted_txns seen))
      (map (slot_rec (media ?s3)) [0..<64])) = ?us"
    unfolding sl unfolding an(4) L_def filter_log_recs by simp
  obtain v where uc: "wal_undo_collect [0..<64] (uncommitted_txns seen) [] ?s3 = Some (?us, ?s3\<lparr>read_cnt := v\<rparr>)"
    using wal_undo_collect_eq [OF slots_subset, of ?s3 "[]" "uncommitted_txns seen"] inv(2) ok3 uf by auto
  have us: "set (undo_sort ?us) = set ?us" using undo_sort_props [of ?us] by (metis set_mset_mset)
  have "\<forall>u \<in> set (undo_sort ?us). ue_sector u < dev_size s \<and> unat (ue_length u) \<le> length (ue_old_data u) \<and>
      unat (ue_offset u) + unat (ue_length u) \<le> 512"
    unfolding us using log_recs_data [OF wf] by (auto simp: L_def undo_entry_of_def write_ok_def)
  then obtain p q where ua: "wal_undo_apply (undo_sort ?us) (?s3\<lparr>read_cnt := v\<rparr>) =
      Some (?s3\<lparr>media := apply_ops (undo_ops L) (apply_ops (redo_ops L) (media s)), read_cnt := p, write_cnt := q\<rparr>)"
    using wal_undo_apply_eq [of "?s3\<lparr>read_cnt := v\<rparr>" "undo_sort ?us"] inv3
    by (auto simp: undo_ops_def block_inv_def)
  show ?thesis
    using an(1,2) rd mem uc ua by (simp add: wal_recover_def malloc_def)
qed

lemma recovered_byte:
  assumes wf: "log_wf s" and mem: "\<not> oom s (mallocs s)" and t: "wal_recover s = Some t"
    and a: "a < dev_size s" "k < 512"
  shows "media t a ! k = (case find (covers a k) (rev (undo_ops (log_recs (media s)))) of
      Some w \<Rightarrow> byte_of k w
    | None \<Rightarrow> (case find (covers a k) (rev (redo_ops (log_recs (media s)))) of
        Some w \<Rightarrow> byte_of k w | None \<Rightarrow> media s a ! k))"
proof -
  let ?L = "log_recs (media s)"
  have "media t = apply_ops (redo_ops ?L @ undo_ops ?L) (media s)" using wal_recover_ok [OF wf mem] t by auto
  moreover have "\<forall>w \<in> set (redo_ops ?L @ undo_ops ?L). op_fits w"
    using redo_ops_fit(1) [OF wf] undo_ops_fit(1) [OF wf] by auto
  ultimately show ?thesis
    using apply_ops_nth [of "redo_ops ?L @ undo_ops ?L" "media s" a k] block_invD [OF log_wfD(1) [OF wf] a(1)] a(2)
    by (simp add: find_append del: apply_ops_simps split: option.split)
qed

section \<open>What recovery restores\<close>

lemma find_filter_eq: "\<forall>x \<in> set xs. P x \<longrightarrow> Q x \<Longrightarrow> find P (filter Q xs) = find P xs"
  by (induction xs) auto

lemma find_map: "find P (map f xs) = map_option f (find (P \<circ> f) xs)"
  by (induction xs) auto

lemma find_sorted_least:
  "sorted_wrt R xs \<Longrightarrow> find P xs = Some x \<Longrightarrow> y \<in> set xs \<Longrightarrow> P y \<Longrightarrow> x = y \<or> R x y"
  by (induction xs) (auto split: if_splits simp: find_Some_iff)

text \<open>
  The situation after a crash in which the log has not wrapped: the log holds the records of a
  history that started from contents \<open>D\<close>. Before images were read off the contents at the time of the
  write, transactions do not overwrite each other's unfinished writes, and on disk only bytes that
  some logged write covers may differ from \<open>D\<close>; those may hold anything.
\<close>

definition crash_state :: "(block_sector_t \<Rightarrow> byte list) \<Rightarrow> 'a wal_scheme \<Rightarrow> bool" where
  "crash_state D s \<longleftrightarrow> (let L = log_recs (media s); W = filter is_write L in
     log_wf s \<and> (\<forall>a < dev_size s. length (D a) = 512) \<and>
     sorted_wrt (\<lambda>x y. lsn x < lsn y) L \<and>
     (\<forall>r \<in> set W. rec_txn r \<noteq> 0 \<and> lsn r \<noteq> 0) \<and> (\<forall>tid. \<not> aborted_in L tid) \<and>
     (\<forall>i < length W. \<forall>k. covers (rec_sector (W ! i)) k (undo_op (W ! i)) \<longrightarrow>
        byte_of k (undo_op (W ! i)) = apply_ops (map redo_op (take i W)) D (rec_sector (W ! i)) ! k) \<and>
     (\<forall>j < length W. \<forall>i < j. unfinished_in L (rec_txn (W ! i)) \<and> committed_in L (rec_txn (W ! j)) \<longrightarrow>
        (\<forall>a k. \<not> (covers a k (redo_op (W ! i)) \<and> covers a k (redo_op (W ! j))))) \<and>
     (\<forall>a < dev_size s. \<forall>k < 512. (\<forall>r \<in> set W. \<not> covers a k (redo_op r)) \<longrightarrow> media s a ! k = D a ! k))"

lemma crash_stateD:
  fixes s :: "'a wal_scheme"
  assumes "crash_state D s"
  defines "L \<equiv> log_recs (media s)" and "W \<equiv> filter is_write (log_recs (media s))"
  shows "log_wf s" "\<forall>a < dev_size s. length (D a) = 512" "sorted_wrt (\<lambda>x y. lsn x < lsn y) L"
    "\<forall>r \<in> set W. rec_txn r \<noteq> 0 \<and> lsn r \<noteq> 0" "\<forall>tid. \<not> aborted_in L tid"
    "\<forall>i < length W. \<forall>k. covers (rec_sector (W ! i)) k (undo_op (W ! i)) \<longrightarrow>
        byte_of k (undo_op (W ! i)) = apply_ops (map redo_op (take i W)) D (rec_sector (W ! i)) ! k"
    "\<forall>j < length W. \<forall>i < j. unfinished_in L (rec_txn (W ! i)) \<and> committed_in L (rec_txn (W ! j)) \<longrightarrow>
        (\<forall>a k. \<not> (covers a k (redo_op (W ! i)) \<and> covers a k (redo_op (W ! j))))"
    "\<forall>a < dev_size s. \<forall>k < 512. (\<forall>r \<in> set W. \<not> covers a k (redo_op r)) \<longrightarrow> media s a ! k = D a ! k"
  using assms(1) unfolding crash_state_def Let_def L_def W_def by - (elim conjE, assumption)+

lemma find_rev_append_None: "find P (rev ys) = None \<Longrightarrow> find P (rev (xs @ ys)) = find P (rev xs)"
  by (simp add: find_append)

lemma find_SomeD: "find P xs = Some x \<Longrightarrow> x \<in> set xs \<and> P x"
  by (induction xs) (auto split: if_splits)

lemma undo_find:
  assumes "find (covers a k) (rev (undo_ops L)) = Some w"
  shows "\<exists>r \<in> set L. is_write r \<and> unfinished_in L (rec_txn r) \<and> w = undo_op r \<and> covers a k (undo_op r) \<and>
    (\<forall>q \<in> set L. is_write q \<and> unfinished_in L (rec_txn q) \<and> covers a k (undo_op q) \<longrightarrow> lsn r \<le> lsn q)"
proof -
  let ?rs = "filter (\<lambda>r. is_write r \<and> unfinished_in L (rec_txn r)) L"
  let ?us = "rev (undo_sort (map undo_entry_of ?rs))"
  have eq: "rev (undo_ops L) = map ue_op ?us" by (simp add: undo_ops_def rev_map)
  then obtain u where u: "find (covers a k \<circ> ue_op) ?us = Some u" "w = ue_op u"
    using assms by (auto simp: find_map)
  have us: "set ?us = undo_entry_of ` set ?rs" by simp
  have "u \<in> set ?us" "covers a k (ue_op u)" using find_SomeD [OF u(1)] by auto
  then obtain r where r: "r \<in> set ?rs" "u = undo_entry_of r" unfolding us by blast
  have "lsn r \<le> lsn q" if "q \<in> set ?rs" "covers a k (undo_op q)" for q
  proof -
    have "undo_entry_of q \<in> set ?us" unfolding us using that(1) by blast
    moreover have "(covers a k \<circ> ue_op) (undo_entry_of q)" using that(2) by simp
    ultimately have "u = undo_entry_of q \<or> ue_lsn u \<le> ue_lsn (undo_entry_of q)"
      by (rule find_sorted_least [OF sorted_undo_asc u(1)])
    then have "ue_lsn u \<le> ue_lsn (undo_entry_of q)" by (elim disjE) (simp_all only: order_refl)
    then show ?thesis by (simp add: r(2))
  qed
  then show ?thesis using r u(2) \<open>covers a k (ue_op u)\<close> by auto
qed

lemma covers_redo_undo:
  "length (new_data r) = 232 \<Longrightarrow> length (old_data r) = 232 \<Longrightarrow> covers a k (redo_op r) = covers a k (undo_op r)"
  by (simp add: covers_def redo_op_def undo_op_def)

text \<open>A byte under an unfinished write gets the before image of the first such write: its last committed value.\<close>

lemma undo_byte_correct:
  assumes cs: "crash_state D s" and a: "a < dev_size s" "k < 512"
    and u: "find (covers a k) (rev (undo_ops (log_recs (media s)))) = Some w"
  shows "byte_of k w = apply_ops (redo_ops (log_recs (media s))) D a ! k"
proof -
  let ?L = "log_recs (media s)" let ?W = "filter is_write ?L"
  let ?C = "\<lambda>r. committed_in ?L (rec_txn r)"
  note c = crash_stateD [OF cs]
  have wf: "log_wf s" and len: "length (D a) = 512" using c(1,2) a(1) by auto
  note old = c(6) [rule_format] and iso = c(7) [rule_format]
  have cov: "covers a k (redo_op r) = covers a k (undo_op r)" if "r \<in> set ?W" for r
    using log_recs_data(1,2) [OF wf] that by (intro covers_redo_undo) auto
  have fits: "\<forall>x \<in> set (map redo_op ?W). op_fits x"
    using log_recs_data [OF wf] by (auto simp: op_fits_def redo_op_def write_ok_def)
  have fin: "?C r \<or> unfinished_in ?L (rec_txn r)" if "r \<in> set ?W" for r
    using c(4,5) that by (auto simp: unfinished_in_def)
  obtain r where r: "r \<in> set ?W" "unfinished_in ?L (rec_txn r)" "w = undo_op r" "covers a k (undo_op r)"
    and least: "\<And>q. q \<in> set ?W \<Longrightarrow> unfinished_in ?L (rec_txn q) \<Longrightarrow> covers a k (undo_op q) \<Longrightarrow> lsn r \<le> lsn q"
    using undo_find [OF u] by auto
  obtain i where i: "i < length ?W" "?W ! i = r" using r(1) unfolding in_set_conv_nth by blast
  have sec: "rec_sector r = a" using r(4) by (simp add: covers_def undo_op_def)
  have srtW: "sorted_wrt (\<lambda>x y. lsn x < lsn y) ?W" using c(3) by (rule sorted_wrt_filter)
  have before: "\<forall>q \<in> set (take i ?W). covers a k (redo_op q) \<longrightarrow> ?C q"
  proof (intro ballI impI)
    fix q assume q: "q \<in> set (take i ?W)" "covers a k (redo_op q)"
    then obtain j where j: "j < i" "q = ?W ! j" using i(1) by (auto simp: in_set_conv_nth)
    then have "lsn q < lsn r" using srtW i by (auto simp: sorted_wrt_iff_nth_less)
    moreover have qW: "q \<in> set ?W" using q(1) by (rule in_set_takeD)
    ultimately show "?C q" using least [OF qW] fin [OF qW] cov [OF qW] q(2) by force
  qed
  have after: "\<forall>q \<in> set (filter ?C (drop i ?W)). \<not> covers a k (redo_op q)"
  proof
    fix q assume "q \<in> set (filter ?C (drop i ?W))"
    then have q: "q \<in> set (drop i ?W)" "?C q" by auto
    then obtain j where j: "i \<le> j" "j < length ?W" "q = ?W ! j"
      by (auto simp: in_set_conv_nth) (metis add.commute le_add1 less_diff_conv)
    show "\<not> covers a k (redo_op q)"
    proof (cases "i = j")
      case True
      then show ?thesis using q(2) r(2) i(2) j(3) by (simp add: unfinished_in_def)
    next
      case False
      then show ?thesis using iso [of j i] j i r(2,4) q(2) cov [OF r(1)] by auto
    qed
  qed
  have split: "filter ?C ?W = filter ?C (take i ?W) @ filter ?C (drop i ?W)"
    by (metis append_take_drop_id filter_append)
  have ro: "redo_ops ?L = map redo_op (filter ?C ?W)" by (simp add: redo_ops_def conj_commute)
  have none_after: "find (covers a k) (rev (map redo_op (filter ?C (drop i ?W)))) = None"
    using after by (auto simp: find_None_iff)
  have "find (covers a k) (rev (redo_ops ?L)) = find (covers a k) (rev (map redo_op (take i ?W)))"
  proof -
    have "find (covers a k) (rev (redo_ops ?L)) = find (covers a k) (rev (map redo_op (filter ?C (take i ?W))))"
      unfolding ro split map_append by (rule find_rev_append_None [OF none_after])
    also have "\<dots> = map_option redo_op (find (covers a k \<circ> redo_op) (filter ?C (rev (take i ?W))))"
      by (simp only: rev_map rev_filter find_map)
    also have "find (covers a k \<circ> redo_op) (filter ?C (rev (take i ?W))) = find (covers a k \<circ> redo_op) (rev (take i ?W))"
      by (rule find_filter_eq) (use before in auto)
    finally show ?thesis by (simp only: rev_map find_map)
  qed
  moreover have "\<forall>x \<in> set (map redo_op (take i ?W)). op_fits x" "\<forall>x \<in> set (redo_ops ?L). op_fits x"
    using fits redo_ops_fit(1) [OF wf] by (auto dest: in_set_takeD)
  ultimately have "apply_ops (redo_ops ?L) D a ! k = apply_ops (map redo_op (take i ?W)) D a ! k"
    using apply_ops_nth [of "redo_ops ?L" D a k] apply_ops_nth [of "map redo_op (take i ?W)" D a k] len a(2) by simp
  also have "\<dots> = byte_of k (undo_op r)" using old [OF i(1)] i(2) sec r(4) by simp
  finally show ?thesis using r(3) by simp
qed

lemma recovery_correct:
  assumes cs: "crash_state D s" and mem: "\<not> oom s (mallocs s)"
  shows "\<exists>t. wal_recover s = Some t \<and>
    (\<forall>a < dev_size s. media t a = apply_ops (redo_ops (log_recs (media s))) D a)"
proof -
  let ?L = "log_recs (media s)"
  note c = crash_stateD [OF cs]
  obtain t where t: "wal_recover s = Some t" "media t = apply_ops (redo_ops ?L @ undo_ops ?L) (media s)"
    using wal_recover_ok [OF c(1) mem] by blast
  have fits: "\<forall>x \<in> set (redo_ops ?L). op_fits x" "\<forall>x \<in> set (redo_ops ?L @ undo_ops ?L). op_fits x"
    using redo_ops_fit(1) [OF c(1)] undo_ops_fit(1) [OF c(1)] by auto
  have "media t a = apply_ops (redo_ops ?L) D a" if a: "a < dev_size s" for a
  proof (rule nth_equalityI)
    have lm: "length (media s a) = 512" using log_wfD(1) [OF c(1)] a by auto
    have ld: "length (D a) = 512" using c(2) a by simp
    have l1: "length (media t a) = 512" unfolding t(2) using fits(2) lm by (rule length_apply_ops)
    have l2: "length (apply_ops (redo_ops ?L) D a) = 512" using fits(1) ld by (rule length_apply_ops)
    show "length (media t a) = length (apply_ops (redo_ops ?L) D a)" using l1 l2 by simp
    fix k assume "k < length (media t a)"
    then have k: "k < 512" using l1 by simp
    note rb = recovered_byte [OF c(1) mem t(1) a k]
    show "media t a ! k = apply_ops (redo_ops ?L) D a ! k"
    proof (cases "find (covers a k) (rev (undo_ops ?L))")
      case (Some w)
      then show ?thesis using undo_byte_correct [OF cs a k Some] rb by simp
    next
      case None
      have spec: "apply_ops (redo_ops ?L) D a ! k =
          (case find (covers a k) (rev (redo_ops ?L)) of Some w \<Rightarrow> byte_of k w | None \<Rightarrow> D a ! k)"
        using fits(1) ld k by (rule apply_ops_nth)
      show ?thesis
      proof (cases "find (covers a k) (rev (redo_ops ?L))")
        case (Some w)
        then show ?thesis using rb spec None by simp
      next
        case N2: None
        have "\<not> covers a k (redo_op r)" if r: "r \<in> set (filter is_write ?L)" for r
        proof (cases "committed_in ?L (rec_txn r)")
          case True
          then have "redo_op r \<in> set (redo_ops ?L)" using r by (auto simp: redo_ops_def)
          then show ?thesis using N2 by (metis set_rev find_None_iff)
        next
          case False
          then have "unfinished_in ?L (rec_txn r)" using c(4,5) r by (auto simp: unfinished_in_def)
          then have "undo_op r \<in> set (undo_ops ?L)" using r unfolding undo_ops_set by auto
          then have "\<not> covers a k (undo_op r)" using None by (metis set_rev find_None_iff)
          then show ?thesis using covers_redo_undo log_recs_data(1,2) [OF c(1)] r by auto
        qed
        then have "media s a ! k = D a ! k" using c(8) a k by blast
        then show ?thesis using rb spec None N2 by simp
      qed
    qed
  qed
  with t(1) show ?thesis by blast
qed


text \<open>A sample disk: the given records in the first log sectors, corrupt sectors in the rest of the log.\<close>

definition corrupt_sector :: "byte list" where
  "corrupt_sector = (encode (seal 5 zero_record))[0 := 77]"

definition sample_media :: "wal_record list \<Rightarrow> (block_sector_t \<Rightarrow> byte list) \<Rightarrow> block_sector_t \<Rightarrow> byte list" where
  "sample_media rs D a = (if is_log_sector a then
     (if unat a - 2 < length rs then encode (rs ! (unat a - 2)) else corrupt_sector) else D a)"

definition sample_write :: "lsn_t \<Rightarrow> txn_id_t \<Rightarrow> byte \<Rightarrow> byte \<Rightarrow> wal_record" where
  "sample_write n tid old new = seal n (zero_record\<lparr>rec_type := type_code WAL_WRITE, rec_txn := tid, rec_sector := 100,
     rec_length := 1, old_data := old # replicate 231 0, new_data := new # replicate 231 0\<rparr>)"

definition sample_commit :: "lsn_t \<Rightarrow> txn_id_t \<Rightarrow> wal_record" where
  "sample_commit n tid = seal n (commit_record tid)"

definition sample_disk :: "wal_record list \<Rightarrow> byte \<Rightarrow> wal" where
  "sample_disk rs b = sample_wal\<lparr>media := sample_media rs ((\<lambda>_. replicate 512 0)(100 := b # replicate 511 0))\<rparr>"

lemma corrupt_sector_bad: "\<not> checksum_ok (decode corrupt_sector)" "length corrupt_sector = 512"
proof -
  have "encode (seal 5 zero_record) ! 0 = 5" by (simp add: encode_def nth_append nth_le_bytes)
  then show "\<not> checksum_ok (decode corrupt_sector)"
    unfolding corrupt_sector_def by (intro single_byte_detected) simp_all
  show "length corrupt_sector = 512" by (simp add: corrupt_sector_def)
qed

lemma sample_media_recs:
  assumes "length rs \<le> 64" "\<forall>r \<in> set rs. wal_record_wf r \<and> checksum_ok r"
  shows "log_recs (sample_media rs D) = rs"
proof -
  have slot: "slot_rec (sample_media rs D) i = (if i < length rs then rs ! i else decode corrupt_sector)"
    if "i < 64" for i
  proof -
    have "unat (word_of_nat i :: block_sector_t) = i" using that by (simp add: unat_of_nat take_bit_nat_eq_self)
    then have "unat (2 + word_of_nat i :: block_sector_t) = 2 + i" using that by (simp add: unat_word_ariths)
    then show ?thesis using slot_is_log_sector [OF that] assms(2) by (simp add: slot_rec_def sample_media_def)
  qed
  have "[0..<64] = [0..<length rs] @ [length rs..<64]" using upt_add_eq_append [of 0 "length rs" "64 - length rs"] assms(1) by simp
  then have "log_recs (sample_media rs D) =
      filter checksum_ok (map (slot_rec (sample_media rs D)) [0..<length rs]) @
      filter checksum_ok (map (slot_rec (sample_media rs D)) [length rs..<64])" by (simp add: log_recs_def)
  also have "map (slot_rec (sample_media rs D)) [0..<length rs] = rs"
    using slot assms(1) by (intro nth_equalityI) auto
  also have "filter checksum_ok (map (slot_rec (sample_media rs D)) [length rs..<64]) = []"
    using slot corrupt_sector_bad(1) by (auto simp: filter_empty_conv)
  finally show ?thesis using assms(2) by (simp add: filter_id_conv)
qed

lemma sample_record_simps [simp]:
  "lsn (sample_write n tid x y) = n" "rec_txn (sample_write n tid x y) = tid" "rec_type (sample_write n tid x y) = 4"
  "lsn (sample_commit n tid) = n" "rec_txn (sample_commit n tid) = tid" "rec_type (sample_commit n tid) = 2"
  "redo_op (sample_write n tid x y) = (100, 0, [y])" "undo_op (sample_write n tid x y) = (100, 0, [x])"
  "rec_sector (sample_write n tid x y) = 100" "write_ok 1000 (sample_write n tid x y)"
  "wal_record_wf (sample_write n tid x y)" "wal_record_wf (sample_commit n tid)"
  "checksum_ok (sample_write n tid x y)" "checksum_ok (sample_commit n tid)"
  by (simp_all add: sample_write_def sample_commit_def zero_record_def commit_record_def redo_op_def undo_op_def
      write_ok_def is_log_sector_def wal_record_wf_def)

lemma sample_disk_wf:
  assumes "length rs \<le> 64" "\<forall>r \<in> set rs. (\<exists>n i x y. r = sample_write n i x y) \<or> (\<exists>n i. r = sample_commit n i)"
  shows "log_recs (media (sample_disk rs b)) = rs" "log_wf (sample_disk rs b)"
proof -
  have wf: "\<forall>r \<in> set rs. wal_record_wf r \<and> checksum_ok r" using assms(2) by auto
  show l: "log_recs (media (sample_disk rs b)) = rs"
    unfolding sample_disk_def using sample_media_recs [OF assms(1) wf] by simp
  have "length (sample_media rs ((\<lambda>_. replicate 512 0)(100 := b # replicate 511 0)) a) = 512" for a
    using wf corrupt_sector_bad(2) by (simp add: sample_media_def)
  moreover have "\<forall>r \<in> set rs. is_write r \<longrightarrow> write_ok 1000 r" using assms(2) by (auto simp: is_write_def)
  ultimately show "log_wf (sample_disk rs b)"
    unfolding log_wf_def l by (simp add: sample_disk_def block_inv_def)
qed

definition sample_history :: "wal_record list" where
  "sample_history = [sample_write 1 1 0 5, sample_commit 2 1, sample_write 3 2 5 6]"

definition sample_crash :: wal where
  "sample_crash = sample_disk sample_history 6"

definition sample_start :: "block_sector_t \<Rightarrow> byte list" where
  "sample_start = (media sample_crash)(100 := replicate 512 0)"

lemma sample_crash_simps:
  "log_recs (media sample_crash) = sample_history" "log_wf sample_crash" "dev_size sample_crash = 1000"
  "media sample_crash 100 = 6 # replicate 511 0"
  "filter is_write sample_history = [sample_write 1 1 0 5, sample_write 3 2 5 6]"
proof -
  have "length sample_history \<le> 64"
    "\<forall>r \<in> set sample_history. (\<exists>n i x y. r = sample_write n i x y) \<or> (\<exists>n i. r = sample_commit n i)"
    by (auto simp: sample_history_def)
  from sample_disk_wf [OF this, of 6] show "log_recs (media sample_crash) = sample_history" "log_wf sample_crash"
    by (simp_all add: sample_crash_def)
qed (simp_all add: sample_crash_def sample_disk_def sample_media_def is_log_sector_def sample_history_def is_write_def)

lemma sample_txns:
  "committed_in sample_history 1" "\<not> committed_in sample_history 2" "\<not> aborted_in sample_history tid"
  "\<not> unfinished_in sample_history 1" "unfinished_in sample_history 2"
  by (auto simp: committed_in_def aborted_in_def unfinished_in_def sample_history_def)

lemma sample_crash_state: "crash_state sample_start sample_crash"
proof -
  note s = sample_crash_simps
  have len: "length (sample_start a) = 512" if "a < 1000" for a
    using log_wfD(1) [OF s(2)] that s(3) by (auto simp: sample_start_def block_inv_def)
  have srt: "sorted_wrt (\<lambda>x y. lsn x < lsn y) sample_history" by (simp add: sample_history_def)
  have old: "covers 100 k (100, 0, [0]) \<Longrightarrow> byte_of k (100, 0, [0]) = sample_start 100 ! k"
    "covers 100 k (100, 0, [5]) \<Longrightarrow> byte_of k (100, 0, [5]) = apply_op (100, 0, [5]) sample_start 100 ! k" for k
    by (auto simp: covers_def byte_of_def apply_op_def sample_start_def patch_def)
  have rest: "media sample_crash a ! k = sample_start a ! k" if "k < 512" "\<not> covers a k (100, 0, [5])" for a k
    using that s(4) by (cases k) (auto simp: sample_start_def covers_def)
  show ?thesis
    unfolding crash_state_def Let_def s(1,3,5)
    using s(2) len srt old rest sample_txns by (auto simp: less_Suc_eq)
qed


section \<open>Recovering again\<close>

text \<open>Recovery decides every byte it touches; the rest it leaves alone.\<close>

lemma recovery_determined:
  assumes wf: "log_wf s" "log_wf s'" and mem: "\<not> oom s (mallocs s)" "\<not> oom s' (mallocs s')"
    and same: "same_log (media s') (media s)" "dev_size s' = dev_size s"
    and rest: "\<And>a k. a < dev_size s \<Longrightarrow> k < 512 \<Longrightarrow>
      \<forall>w \<in> set (redo_ops (log_recs (media s)) @ undo_ops (log_recs (media s))). \<not> covers a k w \<Longrightarrow> media s' a ! k = media s a ! k"
    and t: "wal_recover s = Some t" and t': "wal_recover s' = Some t'" and a: "a < dev_size s"
  shows "media t' a = media t a"
proof (rule nth_equalityI)
  let ?L = "log_recs (media s)"
  have L: "log_recs (media s') = ?L" using same(1) by (rule same_log_recs)
  have len: "length (media t a) = 512" "length (media t' a) = 512"
    using wal_recover_ok [OF wf(1) mem(1)] wal_recover_ok [OF wf(2) mem(2)] t t' a same(2)
      redo_ops_fit(1) [OF wf(1)] undo_ops_fit(1) [OF wf(1)] log_wfD(1) [OF wf(1)] log_wfD(1) [OF wf(2)] L
    by (auto intro!: length_apply_ops)
  then show "length (media t' a) = length (media t a)" by simp
  fix k assume "k < length (media t' a)"
  then have k: "k < 512" using len by simp
  have a': "a < dev_size s'" using a same(2) by simp
  have "media s' a ! k = media s a ! k"
    if "find (covers a k) (rev (undo_ops ?L)) = None" "find (covers a k) (rev (redo_ops ?L)) = None"
    using rest [OF a k] that unfolding find_None_iff set_rev set_append by blast
  then show "media t' a ! k = media t a ! k"
    unfolding recovered_byte [OF wf(1) mem(1) t a k] recovered_byte [OF wf(2) mem(2) t' a' k] L
    by (simp split: option.split)
qed



section \<open>Where the guarantees end\<close>

text \<open>
  (C14) A wrapped log is replayed in the wrong order: the redo phase goes through the log by sector
  number. When a committed write sits in a later sector than a newer committed write of the same byte,
  which is what a log that has wrapped around looks like, recovery leaves the older value.
\<close>

theorem wal_redo_ignores_lsn_order:
  assumes wf: "log_wf s" and mem: "\<not> oom s (mallocs s)" and L: "log_recs (media s) = us @ older # vs"
    and newer: "newer \<in> set us" "is_write newer" "committed_in (log_recs (media s)) (rec_txn newer)"
      "covers a k (redo_op newer)"
    and older: "is_write older" "committed_in (log_recs (media s)) (rec_txn older)" "covers a k (redo_op older)"
    and lsns: "lsn older < lsn newer"
    and last: "\<forall>r \<in> set vs. is_write r \<longrightarrow> \<not> covers a k (redo_op r)"
    and fin: "\<forall>r \<in> set (log_recs (media s)). is_write r \<and> unfinished_in (log_recs (media s)) (rec_txn r) \<longrightarrow>
      \<not> covers a k (undo_op r)"
    and a: "a < dev_size s" "k < 512"
  shows "\<exists>t. wal_recover s = Some t \<and> media t a ! k = byte_of k (redo_op older)"
proof -
  let ?L = "log_recs (media s)"
  obtain t where t: "wal_recover s = Some t" using wal_recover_ok [OF wf mem] by blast
  have "find (covers a k) (rev (undo_ops ?L)) = None"
    using fin by (auto simp: find_None_iff undo_ops_set)
  moreover have "find (covers a k) (rev (redo_ops ?L)) = Some (redo_op older)"
  proof -
    let ?P = "\<lambda>r. is_write r \<and> committed_in ?L (rec_txn r)"
    have "filter ?P ?L = filter ?P us @ older # filter ?P vs"
      using arg_cong [OF L, of "filter ?P"] older(1,2) by simp
    then have "redo_ops ?L = map redo_op (filter ?P us) @ redo_op older # map redo_op (filter ?P vs)"
      unfolding redo_ops_def by simp
    moreover have "find (covers a k) (rev (map redo_op (filter ?P vs))) = None"
      using last by (auto simp: find_None_iff)
    ultimately show ?thesis using older(3) by (simp add: find_append)
  qed
  ultimately show ?thesis using t recovered_byte [OF wf mem t a] by simp
qed

definition wrapped_history :: "wal_record list" where
  "wrapped_history = [sample_write 65 2 5 6, sample_commit 66 2, sample_write 63 1 0 5, sample_commit 64 1]"

lemma wal_redo_ignores_lsn_order_witness:
  "\<exists>t. wal_recover (sample_disk wrapped_history 6) = Some t \<and> media t 100 ! 0 = 5"
proof -
  let ?s = "sample_disk wrapped_history 6"
  have "length wrapped_history \<le> 64"
    "\<forall>r \<in> set wrapped_history. (\<exists>n i x y. r = sample_write n i x y) \<or> (\<exists>n i. r = sample_commit n i)"
    by (auto simp: wrapped_history_def)
  note wf = sample_disk_wf [OF this, of 6]
  have com: "committed_in wrapped_history 1" "committed_in wrapped_history 2"
    by (auto simp: committed_in_def wrapped_history_def)
  have L: "log_recs (media ?s) = [sample_write 65 2 5 6, sample_commit 66 2] @ sample_write 63 1 0 5 # [sample_commit 64 1]"
    using wf(1) by (simp add: wrapped_history_def)
  have fin: "\<forall>r \<in> set wrapped_history. is_write r \<longrightarrow> committed_in wrapped_history (rec_txn r)"
    using com by (auto simp: wrapped_history_def is_write_def)
  have "\<exists>t. wal_recover ?s = Some t \<and> media t 100 ! 0 = byte_of 0 (redo_op (sample_write 63 1 0 5))"
    by (rule wal_redo_ignores_lsn_order [OF wf(2) _ L, of "sample_write 65 2 5 6"], unfold wf(1))
      (use com fin in \<open>auto simp: is_write_def covers_def unfinished_in_def sample_disk_def\<close>)
  then show ?thesis by (simp add: byte_of_def)
qed

text \<open>
  (C15) Recovery does not close the transactions it rolls back: it writes no ABORT record, so their
  WRITE records stay unfinished in the log. If the machine crashes again before those sectors are
  reused, they are rolled back a second time, over whatever newer transactions have committed to the
  same bytes in the meantime.
\<close>

theorem wal_recovery_repeats_undo:
  assumes s: "log_wf s" "\<not> oom s (mallocs s)" "wal_recover s = Some t"
    and u: "log_wf u" "\<not> oom u (mallocs u)"
    and stale: "stale \<in> set (log_recs (media u))" "is_write stale" "unfinished_in (log_recs (media u)) (rec_txn stale)"
      "covers a k (undo_op stale)"
      "\<forall>r \<in> set (log_recs (media u)). is_write r \<and> unfinished_in (log_recs (media u)) (rec_txn r) \<and>
         covers a k (undo_op r) \<longrightarrow> r = stale"
    and newer: "newer \<in> set (log_recs (media u))" "is_write newer" "committed_in (log_recs (media u)) (rec_txn newer)"
      "covers a k (redo_op newer)" "lsn stale < lsn newer"
    and a: "a < dev_size u" "k < 512"
  shows "log_recs (media t) = log_recs (media s) \<and>
    (\<exists>v. wal_recover u = Some v \<and> media v a ! k = byte_of k (undo_op stale))"
proof -
  let ?L = "log_recs (media u)"
  have "\<forall>w \<in> set (redo_ops (log_recs (media s)) @ undo_ops (log_recs (media s))). \<not> is_log_sector (fst w)"
    using redo_ops_fit(2) [OF s(1)] undo_ops_fit(2) [OF s(1)] by (metis Un_iff set_append)
  then have "same_log (media t) (media s)"
    using wal_recover_ok [OF s(1,2)] s(3) same_log_apply_ops by (auto simp: same_log_def simp del: apply_ops_simps)
  then have "log_recs (media t) = log_recs (media s)" by (rule same_log_recs)
  moreover obtain v where v: "wal_recover u = Some v" using wal_recover_ok [OF u] by blast
  moreover have "undo_op stale \<in> set (undo_ops ?L)" unfolding undo_ops_set using stale(1-3) by blast
  then obtain w where w: "find (covers a k) (rev (undo_ops ?L)) = Some w"
    using stale(4) by (metis find_None_iff not_None_eq set_rev)
  moreover have "w = undo_op stale" using undo_find [OF w] stale(5) by blast
  ultimately show ?thesis using recovered_byte [OF u v a] by simp
qed

definition stale_history :: "wal_record list" where
  "stale_history = [sample_write 1 1 0 1, sample_write 2 2 0 2, sample_commit 3 2]"

lemma wal_recovery_repeats_undo_witness:
  "\<exists>t v. wal_recover (sample_disk [sample_write 1 1 0 1] 1) = Some t \<and> log_recs (media t) = [sample_write 1 1 0 1] \<and>
    wal_recover (sample_disk stale_history 2) = Some v \<and> media v 100 ! 0 = 0"
proof -
  let ?s = "sample_disk [sample_write 1 1 0 1] 1" and ?u = "sample_disk stale_history 2"
  have s: "log_recs (media ?s) = [sample_write 1 1 0 1]" "log_wf ?s" by (rule sample_disk_wf; auto)+
  have "length stale_history \<le> 64"
    "\<forall>r \<in> set stale_history. (\<exists>n i x y. r = sample_write n i x y) \<or> (\<exists>n i. r = sample_commit n i)"
    by (auto simp: stale_history_def)
  note u = sample_disk_wf [OF this, of 2]
  have mem: "\<not> oom ?s (mallocs ?s)" "\<not> oom ?u (mallocs ?u)" by (simp_all add: sample_disk_def)
  have txns: "committed_in stale_history 2" "unfinished_in stale_history 1" "\<not> unfinished_in stale_history 2"
    by (auto simp: committed_in_def aborted_in_def unfinished_in_def stale_history_def)
  have dev: "dev_size ?u = 1000" by (simp add: sample_disk_def)
  obtain t where t: "wal_recover ?s = Some t" using wal_recover_ok [OF s(2) mem(1)] by blast
  have m: "sample_write 1 1 0 1 \<in> set stale_history" "sample_write 2 2 0 2 \<in> set stale_history"
    by (simp_all add: stale_history_def)
  have only: "\<forall>r \<in> set stale_history. is_write r \<and> unfinished_in stale_history (rec_txn r) \<and> covers 100 0 (undo_op r) \<longrightarrow>
      r = sample_write 1 1 0 1"
    using txns(3) by (auto simp: stale_history_def is_write_def)
  have "log_recs (media t) = log_recs (media ?s) \<and>
    (\<exists>v. wal_recover ?u = Some v \<and> media v 100 ! 0 = byte_of 0 (undo_op (sample_write 1 1 0 1)))"
    by (rule wal_recovery_repeats_undo [OF s(2) mem(1) t u(2) mem(2), unfolded u(1) dev, OF m(1) _ _ _ only m(2)])
      (use txns in \<open>simp_all add: is_write_def covers_def\<close>)
  then show ?thesis using t s(1) by (auto simp: byte_of_def)
qed

end
