(* ===== verification/Arithmetic.thy ===== *)
theory Arithmetic
  imports Maverick_Prelude "HOL-Library.Signed_Division"
begin

text \<open>
  The 64-bit division routines of \<^verbatim>\<open>lib/arithmetic.c\<close>, which the compiler calls on the i386
  build: one hardware division of 64 by 32 bits, and the two-step and the normalised estimate built on
  it. The main results are that the quotients are the exact ones and the hardware division never traps,
  and that the remainders are exact only when they fit in 32 bits.
\<close>

section \<open>The routines\<close>

text \<open>The DIVL instruction traps when the divisor is zero or the quotient does not fit.\<close>

definition divl :: "u64 \<Rightarrow> u32 \<Rightarrow> u32 option" where
  "divl n d = (if d = 0 \<or> unat n div unat d \<ge> 2 ^ 32 then None else Some (word_of_nat (unat n div unat d)))"

text \<open>Each of the first four tests of \<^verbatim>\<open>nlz\<close>: count \<open>k\<close> and shift them out when the upper \<open>k\<close> bits are zero.\<close>

definition nlz_shift :: "u32 \<Rightarrow> nat \<Rightarrow> nat \<times> u32 \<Rightarrow> nat \<times> u32" where
  "nlz_shift limit k = (\<lambda>(n, x). if x \<le> limit then (n + k, push_bit k x) else (n, x))"

definition nlz :: "u32 \<Rightarrow> nat" where
  "nlz x =
    (let (n, x) = nlz_shift 0x3FFFFFFF 2 (nlz_shift 0x0FFFFFFF 4 (nlz_shift 0x00FFFFFF 8 (nlz_shift 0x0000FFFF 16 (0, x))))
     in if x \<le> 0x7FFFFFFF then n + 1 else n)"

definition udiv64 :: "u64 \<Rightarrow> u64 \<Rightarrow> u64 option" where
  "udiv64 n d =
    (if drop_bit 32 d = 0
     then let b = push_bit 32 1; n1 = ucast (drop_bit 32 n) :: u32; n0 = ucast n :: u32; d0 = ucast d :: u32
       in do {
         ASSERT (d0 \<noteq> 0);
         q \<leftarrow> divl (b * ucast (n1 mod d0) + ucast n0) d0;
         Some (ucast q + b * ucast (n1 div d0))
       }
     else if n < d then Some 0
     else do {
       let d1 = (ucast (drop_bit 32 d) :: u32);
       let s = nlz d1;
       q \<leftarrow> divl (drop_bit 1 n) (ucast (drop_bit 32 (push_bit s d)));
       let q = (ucast (drop_bit (31 - s) q) :: u64);
       Some (if n - (q - 1) * d < d then q - 1 else q)
     })"

definition umod64 :: "u64 \<Rightarrow> u64 \<Rightarrow> u32 option" where
  "umod64 n d = do { q \<leftarrow> udiv64 n d; Some (ucast (n - d * q)) }"

text \<open>Signed numbers are the same words; \<open>n <s 0\<close> is the sign test.\<close>

definition sdiv64 :: "u64 \<Rightarrow> u64 \<Rightarrow> u64 option" where
  "sdiv64 n d = do {
     let n_abs = (if 0 \<le>s n then n else - n);
     let d_abs = (if 0 \<le>s d then d else - d);
     q_abs \<leftarrow> udiv64 n_abs d_abs;
     Some (if (n <s 0) = (d <s 0) then q_abs else - q_abs)
   }"

definition smod64 :: "u64 \<Rightarrow> u64 \<Rightarrow> u32 option" where
  "smod64 n d = do { q \<leftarrow> sdiv64 n d; Some (ucast (n - d * q)) }"

text \<open>The entry points; the results of the remainder functions are widened back to 64 bits.\<close>

definition divdi3 :: "u64 \<Rightarrow> u64 \<Rightarrow> u64 option" where
  "divdi3 n d = sdiv64 n d"

definition moddi3 :: "u64 \<Rightarrow> u64 \<Rightarrow> u64 option" where
  "moddi3 n d = do { r \<leftarrow> smod64 n d; Some (scast r) }"

definition udivdi3 :: "u64 \<Rightarrow> u64 \<Rightarrow> u64 option" where
  "udivdi3 n d = udiv64 n d"

definition umoddi3 :: "u64 \<Rightarrow> u64 \<Rightarrow> u64 option" where
  "umoddi3 n d = do { r \<leftarrow> umod64 n d; Some (ucast r) }"

section \<open>Leading zeros\<close>

lemma unat_push_bit_small: "unat w * 2 ^ k < 2 ^ LENGTH('a) \<Longrightarrow> unat (push_bit k w) = unat w * 2 ^ k" for w :: "'a::len word"
  unfolding unsigned_push_bit_eq by (simp add: push_bit_eq_mult take_bit_nat_eq_self)

lemma unat_ucast_eq: "unat (ucast w :: 'b::len word) = unat w mod 2 ^ LENGTH('b)" for w :: "'a::len word"
  by (simp add: unsigned_ucast_eq take_bit_eq_mod)

lemma unat_of_nat_small: "k < 2 ^ LENGTH('a) \<Longrightarrow> unat (word_of_nat k :: 'a::len word) = k"
  by (simp add: unsigned_of_nat take_bit_nat_eq_self)

lemma unat_drop_bit: "unat (drop_bit k w) = unat w div 2 ^ k" for w :: "'a::len word"
  unfolding unsigned_drop_bit_eq by (simp add: drop_bit_eq_div take_bit_nat_eq_self)

text \<open>
  \<open>normal k x y n\<close>: after the steps so far, \<open>y\<close> is \<open>x\<close> shifted by the count \<open>n\<close>, which is a sum of
  step widths, and its upper \<open>k\<close> bits are not all zero.
\<close>

definition normal :: "nat \<Rightarrow> u32 \<Rightarrow> u32 \<Rightarrow> nat \<Rightarrow> bool" where
  "normal k x y n \<longleftrightarrow> unat y = unat x * 2 ^ n \<and> 2 ^ (32 - k) \<le> unat y \<and> n + k \<le> 32"

lemma normal_step:
  assumes "normal j x (snd p) (fst p)" "j = 2 * k" "0 < k" "unat limit = 2 ^ (32 - k) - 1"
  shows "normal k x (snd (nlz_shift limit k p)) (fst (nlz_shift limit k p))"
proof (cases "snd p \<le> limit")
  case True
  let ?y = "snd p"
  have k: "2 * k \<le> 32" using assms(1,2) by (simp add: normal_def)
  have "unat ?y < 2 ^ (32 - k)"
    using True assms(4) unfolding word_le_nat_alt by (metis le_imp_less_Suc Suc_diff_1 zero_less_power zero_less_numeral)
  then have "unat ?y * 2 ^ k < 2 ^ (32 - k) * 2 ^ k" by simp
  also have "\<dots> = 2 ^ 32" using k by (simp flip: power_add)
  finally have "unat (push_bit k ?y) = unat ?y * 2 ^ k" by (intro unat_push_bit_small) simp
  moreover have "2 ^ (32 - 2 * k) * 2 ^ k \<le> unat ?y * 2 ^ k" using assms(1,2) by (simp add: normal_def)
  then have "2 ^ (32 - k) \<le> unat ?y * 2 ^ k" using k by (simp flip: power_add)
  moreover have "fst p + k + k \<le> 32" using assms(1,2) by (simp add: normal_def)
  ultimately show ?thesis using True assms(1,2) by (simp add: normal_def power_add nlz_shift_def case_prod_beta)
next
  case False
  then show ?thesis using assms(1,2,4) by (auto simp: normal_def nlz_shift_def word_le_nat_alt case_prod_beta)
qed

lemma nlz_normal:
  assumes "x \<noteq> 0"
  shows "2 ^ 31 \<le> unat x * 2 ^ nlz x" "unat x * 2 ^ nlz x < 2 ^ 32" "nlz x \<le> 31"
proof -
  define p where "p = nlz_shift 0x3FFFFFFF 2 (nlz_shift 0x0FFFFFFF 4 (nlz_shift 0x00FFFFFF 8 (nlz_shift 0x0000FFFF 16 (0, x))))"
  have "normal 32 x x 0"
    using assms by (simp add: normal_def) (metis One_nat_def Suc_leI neq0_conv unat_eq_zero)
  then have "normal 2 x (snd p) (fst p)" unfolding p_def
    by (intro normal_step [where j = 4] normal_step [where j = 8] normal_step [where j = 16] normal_step [where j = 32]) simp_all
  then have n: "normal 1 x (snd (nlz_shift 0x7FFFFFFF 1 p)) (fst (nlz_shift 0x7FFFFFFF 1 p))"
    by (rule normal_step) simp_all
  have "nlz x = fst (nlz_shift 0x7FFFFFFF 1 p)"
    unfolding nlz_def Let_def p_def [symmetric] by (simp add: nlz_shift_def case_prod_beta)
  then show "2 ^ 31 \<le> unat x * 2 ^ nlz x" "unat x * 2 ^ nlz x < 2 ^ 32" "nlz x \<le> 31"
    using n unat_bound [of "snd (nlz_shift 0x7FFFFFFF 1 p)"] by (simp_all add: normal_def)
qed

section \<open>Quotients\<close>

text \<open>
  The estimate: dividing by the divisor rounded down to its upper 32 bits overshoots by at most one.
\<close>

lemma estimate:
  fixes n d e k :: nat
  assumes "n < 2 ^ 64" "e \<le> d" "d - e \<le> k - 1" "0 < k" "0 < e"
    and big: "2 ^ 64 * (k - 1) \<le> d * e"
  shows "n div d \<le> n div e" "n div e \<le> n div d + 1"
proof -
  have e: "0 < e" and d: "0 < d" using assms(2,5) by auto
  show "n div d \<le> n div e" using e assms(2) by (rule div_le_mono2)
  have "n * (d - e) < d * e"
  proof (cases "k = 1")
    case True
    then show ?thesis using assms(3) e assms(2) by simp
  next
    case False
    have "n * (d - e) \<le> n * (k - 1)" using assms(3) by simp
    also have "\<dots> < 2 ^ 64 * (k - 1)" using assms(1,4) False by simp
    finally show ?thesis using big by simp
  qed
  then have "n * d < d * e + n * e" using assms(2) by (simp add: right_diff_distrib')
  also have "\<dots> < d * e + (d * (n div d) + d) * e"
    using e dividend_less_times_div [OF d, of n] by (intro add_strict_left_mono mult_strict_right_mono) auto
  finally have "d * n < d * (e * (n div d + 2))" by (simp add: algebra_simps)
  then have "n < e * (n div d + 2)" by simp
  then show "n div e \<le> n div d + 1" using e
    by (metis add_2_eq_Suc' add_Suc_right less_Suc_eq_le mult.commute less_mult_imp_div_less Suc_eq_plus1)
qed

lemma two_step:
  fixes n d b :: nat
  assumes "0 < d" "0 < b"
  shows "n div d = n div b div d * b + (n div b mod d * b + n mod b) div d" "(n div b mod d * b + n mod b) div d < b"
proof -
  have "n = n div b * b + n mod b" by simp
  also have "n div b * b = (n div b div d * d + n div b mod d) * b" by simp
  finally have "n = n div b div d * b * d + (n div b mod d * b + n mod b)"
    by (simp only: distrib_right mult.assoc mult.commute [of d] mult.left_commute [of d] add.assoc)
  then show "n div d = n div b div d * b + (n div b mod d * b + n mod b) div d"
    using assms(1) by (metis add.commute div_mult_self1 less_not_refl)
  have "n div b mod d * b + n mod b < (n div b mod d + 1) * b" using assms by simp
  also have "\<dots> \<le> d * b" using assms by (intro mult_right_mono) (simp_all add: Suc_leI)
  finally show "(n div b mod d * b + n mod b) div d < b" by (simp add: less_mult_imp_div_less mult.commute)
qed

lemma unat_combine:
  fixes h l :: u32
  shows "unat (0x100000000 * ucast h + ucast l :: u64) = unat h * 2 ^ 32 + unat l"
proof -
  have "unat h * 2 ^ 32 + unat l < 2 ^ 64" using unat_bound [of h] unat_bound [of l] by simp
  moreover have "0x100000000 * ucast h + ucast l = (word_of_nat (unat h * 2 ^ 32 + unat l) :: u64)"
    by (simp add: of_nat_unat)
  ultimately show ?thesis using unat_of_nat_small [where 'a = 64, of "unat h * 2 ^ 32 + unat l"] by (simp add: mult.commute)
qed

lemma udiv64_small:
  assumes "drop_bit 32 d = 0" "d \<noteq> 0"
  shows "udiv64 n d = Some (n div d)"
proof -
  define D where "D = (ucast d :: u32)"
  define n1 where "n1 = (ucast (drop_bit 32 n) :: u32)"
  define n0 where "n0 = (ucast n :: u32)"
  have d: "unat d < 2 ^ 32" "0 < unat d"
    using assms unat_drop_bit [of 32 d] by (auto simp: div_eq_0_iff unat_gt_0)
  have "unat n div 2 ^ 32 < 2 ^ 32" using unat_bound [of n] by (simp add: less_mult_imp_div_less)
  then have c: "unat D = unat d" "unat n0 = unat n mod 2 ^ 32" "unat n1 = unat n div 2 ^ 32"
    unfolding D_def n0_def n1_def using d by (simp_all add: unat_ucast_eq unat_drop_bit)
  define k where "k = (unat n1 mod unat d * 2 ^ 32 + unat n0) div unat d"
  have k: "unat n div unat d = unat n1 div unat d * 2 ^ 32 + k" "k < 2 ^ 32"
    using two_step [OF d(2), of "2 ^ 32" "unat n"] unfolding k_def c by simp_all
  have "divl (push_bit 32 1 * ucast (n1 mod D) + ucast n0) D = Some (word_of_nat k)"
    using k(2) d(2) c(1) by (auto simp: divl_def unat_combine unat_mod_distrib k_def)
  moreover have "ucast (word_of_nat k :: u32) = (word_of_nat k :: u64)"
    using unat_of_nat_small [where 'a = 32, of k] k(2) by (subst of_nat_unat [symmetric]) simp
  moreover have "ucast (n1 div D) = (word_of_nat (unat n1 div unat d) :: u64)"
    by (subst of_nat_unat [symmetric]) (simp only: unat_div_distrib c(1))
  moreover have "D \<noteq> 0" using c(1) d(2) by auto
  ultimately have "udiv64 n d = Some (word_of_nat k + push_bit 32 1 * word_of_nat (unat n1 div unat d))"
    using assms(1) unfolding udiv64_def Let_def D_def [symmetric] n1_def [symmetric] n0_def [symmetric] by simp
  also have "word_of_nat k + push_bit 32 1 * word_of_nat (unat n1 div unat d) = (word_of_nat (unat n div unat d) :: u64)"
    unfolding k(1) by simp
  finally show ?thesis by (simp flip: unat_div_distrib)
qed

lemma normalised_estimate:
  fixes n d s :: nat
  assumes "2 ^ 31 \<le> d div 2 ^ 32 * 2 ^ s" "d div 2 ^ 32 * 2 ^ s < 2 ^ 32" "s \<le> 31" "n < 2 ^ 64" "k = 2 ^ (32 - s)"
  shows "d * 2 ^ s < 2 ^ 64" "d * 2 ^ s div 2 ^ 32 = d div k" "2 ^ 31 \<le> d div k"
    "n div 2 div (d div k) < 2 ^ 32"
    "n div d \<le> n div 2 div (d div k) div 2 ^ (31 - s)" "n div 2 div (d div k) div 2 ^ (31 - s) \<le> n div d + 1"
proof -
  have k: "2 ^ s * k = 2 ^ 32" "2 * 2 ^ (31 - s) = k" "0 < k"
    using assms(3,5) by (simp_all flip: power_add power_Suc add: Suc_diff_le)
  show q: "d * 2 ^ s div 2 ^ 32 = d div k"
    unfolding k(1) [symmetric] by (subst mult.commute [of "2 ^ s" k]) (simp add: div_mult_mult2)
  have "2 ^ 31 * k \<le> d div 2 ^ 32 * 2 ^ s * k" using assms(1) by (rule mult_right_mono) simp
  also have "\<dots> = d div 2 ^ 32 * 2 ^ 32" unfolding k(1) [symmetric] by (simp only: mult.assoc)
  also have "\<dots> \<le> d" by (rule div_times_less_eq_dividend)
  finally have d: "2 ^ 31 * k \<le> d" .
  then have "2 ^ 31 * k div k \<le> d div k" by (rule div_le_mono)
  then show v: "2 ^ 31 \<le> d div k" using k(3) by simp
  have "d div 2 ^ 32 < k" using assms(2) k(1) by (metis mult.commute mult_less_cancel1)
  then have "d div 2 ^ 32 + 1 \<le> k" by simp
  then have "(d div 2 ^ 32 + 1) * 2 ^ 32 \<le> k * 2 ^ 32" by (rule mult_right_mono) simp
  moreover have "d < (d div 2 ^ 32 + 1) * 2 ^ 32"
    using dividend_less_div_times [of "2 ^ 32 :: nat" d] by (simp add: algebra_simps)
  ultimately have "d < k * 2 ^ 32" by simp
  then have "d * 2 ^ s < k * 2 ^ 32 * 2 ^ s" by simp
  also have "\<dots> = 2 ^ s * k * 2 ^ 32" by (simp only: mult.commute mult.left_commute)
  also have "\<dots> = 2 ^ 64" by (simp only: k(1) flip: power_add) simp
  finally show "d * 2 ^ s < 2 ^ 64" .
  have "n div 2 < 2 ^ 32 * 2 ^ 31" using assms(4) by simp
  also have "\<dots> \<le> 2 ^ 32 * (d div k)" using v by (rule mult_left_mono) simp
  finally show "n div 2 div (d div k) < 2 ^ 32" by (rule less_mult_imp_div_less)
  have e: "n div 2 div (d div k) div 2 ^ (31 - s) = n div (d div k * k)"
    unfolding div_mult2_eq [symmetric] k(2) [symmetric] by (simp only: mult.assoc mult.commute mult.left_commute)
  have "d - d div k * k \<le> k - 1" using mod_less_divisor [OF k(3), of d] by (simp add: minus_div_mult_eq_mod)
  moreover have "0 < d div k * k" using v k(3) by (metis mult_pos_pos less_le_trans zero_less_numeral zero_less_power)
  moreover have "2 ^ 64 * (k - 1) \<le> d * (d div k * k)"
  proof -
    have "4 * (k - 1) \<le> k * k"
    proof (cases "4 \<le> k")
      case True
      then show ?thesis by (meson diff_le_self le_trans mult_le_mono)
    next
      case False
      then have "k \<in> {1, 2, 3}" using k(3) by auto
      then show ?thesis by auto
    qed
    then have "2 ^ 64 * (k - 1) \<le> 2 ^ 31 * k * (2 ^ 31 * k)" by simp
    also have "\<dots> \<le> d * (d div k * k)" by (intro mult_mono d mult_right_mono v) simp_all
    finally show ?thesis .
  qed
  ultimately show "n div d \<le> n div 2 div (d div k) div 2 ^ (31 - s)" "n div 2 div (d div k) div 2 ^ (31 - s) \<le> n div d + 1"
    unfolding e using estimate [OF assms(4) div_times_less_eq_dividend _ k(3), of d k] by simp_all
qed

lemma udiv64_large:
  assumes "drop_bit 32 d \<noteq> 0" "d \<le> n"
  shows "udiv64 n d = Some (n div d)"
proof -
  define d1 where "d1 = (ucast (drop_bit 32 d) :: u32)"
  define s where "s = nlz d1"
  define v where "v = (ucast (drop_bit 32 (push_bit s d)) :: u32)"
  define e where "e = unat v * 2 ^ (32 - s)"
  let ?n = "unat n" and ?d = "unat d"
  have d1: "unat d1 = ?d div 2 ^ 32" "d1 \<noteq> 0"
  proof -
    show "unat d1 = ?d div 2 ^ 32"
      using unat_bound [of d] by (simp add: d1_def unat_ucast_eq unat_drop_bit less_mult_imp_div_less)
    then show "d1 \<noteq> 0" using assms(1) by (metis unat_drop_bit unat_eq_zero)
  qed
  note s = nlz_normal [OF d1(2), folded s_def, unfolded d1(1)]
  define k where "k = (2 :: nat) ^ (32 - s)"
  have n: "?n < 2 ^ 64" using unat_bound [of n] by simp
  note est = normalised_estimate [OF s n k_def]
  have v: "unat v = ?d div k" "v \<noteq> 0"
  proof -
    have "unat (push_bit s d) = ?d * 2 ^ s" using est(1) by (intro unat_push_bit_small) simp
    then have "unat v = ?d div k mod 2 ^ 32" by (simp add: v_def unat_ucast_eq unat_drop_bit flip: est(2))
    moreover have "?d div k < 2 ^ 32" unfolding est(2) [symmetric] using est(1) by (intro less_mult_imp_div_less) simp
    ultimately show "unat v = ?d div k" by simp
    with est(3) show "v \<noteq> 0" by auto
  qed
  define q where "q = (ucast (drop_bit (31 - s) (word_of_nat (?n div 2 div unat v) :: u32)) :: u64)"
  have "divl (drop_bit 1 n) v = Some (word_of_nat (?n div 2 div unat v))"
    using v est(4) by (simp add: divl_def unat_drop_bit del: power_Suc)
  then have u: "udiv64 n d = Some (if n - (q - 1) * d < d then q - 1 else q)"
    unfolding udiv64_def Let_def d1_def [symmetric] s_def [symmetric] v_def [symmetric]
    using assms(1) linorder_not_less [THEN iffD2, OF assms(2)] by (simp add: q_def)
  have q: "unat q = ?n div 2 div (?d div k) div 2 ^ (31 - s)"
  proof -
    have "?n div 2 div (?d div k) div 2 ^ (31 - s) < 2 ^ 64"
      using est(4) by (rule div_le_dividend [THEN le_less_trans, THEN less_le_trans]) simp
    then show ?thesis
      using est(4) unat_of_nat_small [where 'a = 32, of "?n div 2 div unat v"] unfolding q_def v(1)
      by (simp add: unat_ucast_eq unat_drop_bit)
  qed
  have t: "unat (n div d) = ?n div ?d" "0 < ?n div ?d" "?n = ?n div ?d * ?d + ?n mod ?d"
    using assms by (auto simp: unat_div_distrib word_le_nat_alt div_greater_zero_iff unat_gt_0)
  have d: "0 < ?d" using assms(1) by (metis drop_bit_of_0 unat_gt_0)
  consider "unat q = ?n div ?d" | "unat q = Suc (?n div ?d)" using est(5,6) q by force
  then have "(if n - (q - 1) * d < d then q - 1 else q) = n div d"
  proof cases
    case 1
    then have q: "q = n div d" using t(1) by (simp add: word_unat_eq_iff)
    have "n - (q - 1) * d = n mod d + d"
      using word_mod_div_equality [of n d] unfolding q by (simp add: algebra_simps)
    moreover have "?n mod ?d + ?d \<le> ?n" using t(2,3) by (metis add.commute add_le_mono1 mult.commute mult_le_mono2 Suc_leI mult_numeral_1_right One_nat_def numeral_One)
    then have "unat (n mod d + d) = ?n mod ?d + ?d" using unat_add_bounded [of "n mod d" d n] by (simp add: unat_mod_distrib)
    ultimately show ?thesis using q by (simp add: word_less_nat_alt)
  next
    case 2
    then have "q \<noteq> 0" by auto
    with 2 have "q - 1 = n div d" using t(1) by (simp add: word_unat_eq_iff unat_minus_one unat_eq_zero)
    moreover have "n - n div d * d = n mod d" by (simp add: minus_div_mult_eq_mod)
    ultimately show ?thesis using d by (simp add: word_less_nat_alt unat_mod_distrib)
  qed
  then show ?thesis using u by simp
qed

lemma udiv64_zero: "udiv64 n 0 = None"
  by (simp add: udiv64_def Let_def)

lemma udiv64_eq: "udiv64 n d = (if d = 0 then None else Some (n div d))"
proof (cases "d = 0 \<or> drop_bit 32 d = 0 \<or> d \<le> n")
  case True
  then show ?thesis using udiv64_zero udiv64_small udiv64_large by metis
next
  case False
  then have "n div d = 0" by (simp add: word_less_nat_alt not_le unat_div_distrib word_unat_eq_iff)
  then show ?thesis using False by (simp add: udiv64_def not_le)
qed

lemma word_of_sint: "word_of_int (sint w) = w" for w :: "'a::len word"
  by simp

lemma uint_abs: "uint (if 0 \<le>s w then w else - w) = \<bar>sint w\<bar>" for w :: u64
proof -
  have r: "- (2 ^ 63) \<le> sint w" "sint w < 2 ^ 63" using sint_range_size [of w] by (simp_all add: word_size)
  have "uint w = sint w mod 2 ^ 64" "uint (- w) = (- sint w) mod 2 ^ 64"
    using uint_word_of_int [where 'a = 64, of "sint w"] uint_word_of_int [where 'a = 64, of "- sint w"] by simp_all
  then show ?thesis using r by (auto simp: word_sle_eq)
qed

lemma sdiv64_eq: "sdiv64 n d = (if d = 0 then None else Some (word_of_int (sint n sdiv sint d)))"
proof (cases "d = 0")
  case True
  then show ?thesis by (simp add: sdiv64_def udiv64_eq)
next
  case False
  then have "(if 0 \<le>s d then d else - d) \<noteq> 0" by auto
  moreover have "(if 0 \<le>s n then n else - n) div (if 0 \<le>s d then d else - d) = word_of_int (\<bar>sint n\<bar> div \<bar>sint d\<bar>)"
    by (subst uint_abs [symmetric])+ (simp only: uint_div_distrib [symmetric] word_of_int_uint)
  moreover have "sint d \<noteq> 0" using False by (metis word_of_sint of_int_0)
  ultimately show ?thesis
    unfolding sdiv64_def udiv64_eq Let_def
    by (auto simp: signed_divide_int_def word_sless_alt sgn_if)
qed

text \<open>
  (C16) The 64-bit quotients the compiler relies on are exact: the unsigned routine computes the
  quotient and the signed one the quotient rounded toward zero, for every pair of arguments; the
  hardware division they use never overflows, and only a zero divisor traps.
\<close>

theorem division_correct:
  "udivdi3 n d = (if d = 0 then None else Some (n div d)) \<and>
   divdi3 n d = (if d = 0 then None else Some (word_of_int (sint n sdiv sint d)))"
  by (simp add: udivdi3_def divdi3_def udiv64_eq sdiv64_eq)

lemma umod64_eq: "umod64 n d = (if d = 0 then None else Some (ucast (n mod d)))"
  by (simp add: umod64_def udiv64_eq minus_mult_div_eq_mod)

lemma ucast_ucast_eq: "ucast (ucast w :: u32) = w \<longleftrightarrow> unat w < 2 ^ 32" for w :: u64
proof -
  have "ucast (ucast w :: u32) = w \<longleftrightarrow> unat w mod 2 ^ 32 = unat w"
    by (simp add: word_unat_eq_iff unat_ucast_eq)
  then show ?thesis by (metis mod_less mod_less_divisor zero_less_numeral zero_less_power)
qed

text \<open>
  (C17) The remainder routine returns a 32-bit value, so the remainder the compiler asked for is
  returned exactly when it fits in 32 bits; a larger remainder loses its upper half.
\<close>

theorem umoddi3_exact_iff:
  "umoddi3 n d = (if d = 0 then None else Some (word_of_nat (unat (n mod d) mod 2 ^ 32))) \<and>
   (umoddi3 n d = Some (n mod d) \<longleftrightarrow> d \<noteq> 0 \<and> unat (n mod d) < 2 ^ 32)"
proof -
  have "ucast (ucast (n mod d) :: u32) = (word_of_nat (unat (n mod d) mod 2 ^ 32) :: u64)"
    by (subst of_nat_unat [symmetric]) (simp only: unat_ucast_eq, simp)
  then show ?thesis using ucast_ucast_eq [of "n mod d"] by (simp add: umoddi3_def umod64_eq)
qed

end
