(* ===== verification/Stdlib.thy ===== *)
theory Stdlib
  imports Maverick_Prelude "HOL-Library.Multiset"
begin

text \<open>
  The generic algorithms of \<^verbatim>\<open>lib/stdlib.c\<close>: number parsing, the heap sort behind \<^verbatim>\<open>sort\<close> and
  \<^verbatim>\<open>qsort\<close>, and binary search. An array of \<^verbatim>\<open>CNT\<close> elements of \<^verbatim>\<open>SIZE\<close> bytes is the list of
  its elements; the comparison function is an argument, and what the callers promise about it is the
  locale \<open>comparator\<close>.
\<close>

section \<open>Parsing integers\<close>

definition isspace :: "char \<Rightarrow> bool" where
  "isspace c \<longleftrightarrow> c = CHR '' '' \<or> c = CHR 0x0C \<or> c = CHR 0x0A \<or> c = CHR 0x0D \<or> c = CHR 0x09 \<or> c = CHR 0x0B"

definition isdigit :: "char \<Rightarrow> bool" where
  "isdigit c \<longleftrightarrow> 48 \<le> (of_char c :: nat) \<and> (of_char c :: nat) \<le> 57"

text \<open>A C string is the list of its characters before the terminating null byte; \<^verbatim>\<open>int\<close> has 32 bits and wraps.\<close>

definition wrap_int :: "int \<Rightarrow> int" where
  "wrap_int x = signed_take_bit 31 x"

fun atoi_digits :: "int \<Rightarrow> string \<Rightarrow> int" where
  "atoi_digits v [] = v"
| "atoi_digits v (c # s) =
    (if isdigit c then atoi_digits (wrap_int (wrap_int (v * 10) - (of_char c - 48))) s else v)"

definition atoi :: "string \<Rightarrow> int" where
  "atoi s =
    (let s = dropWhile isspace s;
         (negative, s) = (case s of
            c # r \<Rightarrow> if c = CHR ''+'' then (False, r) else if c = CHR ''-'' then (True, r) else (False, s)
          | [] \<Rightarrow> (False, s));
         v = atoi_digits 0 s
     in if negative then v else wrap_int (- v))"

section \<open>Heap sort\<close>

type_synonym 'e compare_func = "'e \<Rightarrow> 'e \<Rightarrow> int"

text \<open>Indexes are 1-based, as in the code.\<close>

definition array_at :: "'e list \<Rightarrow> nat \<Rightarrow> 'e" where
  "array_at array idx = array ! (idx - 1)"

definition do_swap :: "nat \<Rightarrow> nat \<Rightarrow> 'e list \<Rightarrow> 'e list" where
  "do_swap a_idx b_idx array =
    array[a_idx - 1 := array_at array b_idx, b_idx - 1 := array_at array a_idx]"

definition do_compare :: "'e list \<Rightarrow> nat \<Rightarrow> nat \<Rightarrow> 'e compare_func \<Rightarrow> int" where
  "do_compare array a_idx b_idx compare = compare (array_at array a_idx) (array_at array b_idx)"

text \<open>The index of the largest element among \<open>i\<close> and its children.\<close>

definition heapify_max :: "'e compare_func \<Rightarrow> nat \<Rightarrow> nat \<Rightarrow> 'e list \<Rightarrow> nat" where
  "heapify_max compare i cnt array =
    (let left = 2 * i; right = 2 * i + 1;
         m = (if left \<le> cnt \<and> do_compare array left i compare > 0 then left else i)
     in if right \<le> cnt \<and> do_compare array right m compare > 0 then right else m)"

lemma heapify_max_bounds: "heapify_max compare i cnt array \<noteq> i \<Longrightarrow>
    i < heapify_max compare i cnt array \<and> heapify_max compare i cnt array \<le> cnt"
  by (auto simp: heapify_max_def Let_def split: if_splits)

function heapify :: "'e compare_func \<Rightarrow> nat \<Rightarrow> nat \<Rightarrow> 'e list \<Rightarrow> 'e list" where
  "heapify compare i cnt array =
    (let m = heapify_max compare i cnt array
     in if m = i then array else heapify compare m cnt (do_swap i m array))"
  by pat_completeness auto
termination
  by (relation "measure (\<lambda>(compare, i, cnt, array). cnt - i)") (auto dest: heapify_max_bounds intro: diff_less_mono2)

declare heapify.simps [simp del]

primrec build_heap :: "'e compare_func \<Rightarrow> nat \<Rightarrow> nat \<Rightarrow> 'e list \<Rightarrow> 'e list" where
  "build_heap compare cnt 0 array = array"
| "build_heap compare cnt (Suc i) array = build_heap compare cnt i (heapify compare (Suc i) cnt array)"

fun sort_heap :: "'e compare_func \<Rightarrow> nat \<Rightarrow> 'e list \<Rightarrow> 'e list" where
  "sort_heap compare (Suc (Suc i)) array =
    sort_heap compare (Suc i) (heapify compare 1 (Suc i) (do_swap 1 (Suc (Suc i)) array))"
| "sort_heap compare _ array = array"

definition heap_sort :: "'e list \<Rightarrow> nat \<Rightarrow> 'e compare_func \<Rightarrow> 'e list" where
  "heap_sort array cnt compare = sort_heap compare cnt (build_heap compare cnt (cnt div 2) array)"

definition qsort :: "'e list \<Rightarrow> nat \<Rightarrow> 'e compare_func \<Rightarrow> 'e list" where
  "qsort array cnt compare = heap_sort array cnt compare"

section \<open>Binary search\<close>

text \<open>Pointers into the array are element indexes; the result is the index of the match.\<close>

function binary_search_loop :: "'k \<Rightarrow> 'e list \<Rightarrow> ('k \<Rightarrow> 'e \<Rightarrow> int) \<Rightarrow> nat \<Rightarrow> nat \<Rightarrow> nat option" where
  "binary_search_loop key array compare first last_n =
    (if first < last_n
     then let range = last_n - first; middle = first + range div 2; cmp = compare key (array ! middle)
       in if cmp < 0 then binary_search_loop key array compare first middle
          else if cmp > 0 then binary_search_loop key array compare (middle + 1) last_n
          else Some middle
     else None)"
  by pat_completeness auto
termination
  by (relation "measure (\<lambda>(key, array, compare, first, last_n). last_n - first)") auto

declare binary_search_loop.simps [simp del]

definition binary_search :: "'k \<Rightarrow> 'e list \<Rightarrow> nat \<Rightarrow> ('k \<Rightarrow> 'e \<Rightarrow> int) \<Rightarrow> nat option" where
  "binary_search key array cnt compare = binary_search_loop key array compare 0 cnt"

definition bsearch :: "'k \<Rightarrow> 'e list \<Rightarrow> nat \<Rightarrow> ('k \<Rightarrow> 'e \<Rightarrow> int) \<Rightarrow> nat option" where
  "bsearch key array cnt compare = binary_search key array cnt compare"

section \<open>Permutation and frame\<close>

lemma length_do_swap [simp]: "length (do_swap a b xs) = length xs"
  by (simp add: do_swap_def)

lemma mset_do_swap:
  "1 \<le> a \<Longrightarrow> 1 \<le> b \<Longrightarrow> a \<le> length xs \<Longrightarrow> b \<le> length xs \<Longrightarrow> mset (do_swap a b xs) = mset xs"
  unfolding do_swap_def array_at_def by (rule mset_swap) auto

lemma nth_do_swap:
  "1 \<le> a \<Longrightarrow> 1 \<le> b \<Longrightarrow> 1 \<le> j \<Longrightarrow> a \<le> length xs \<Longrightarrow> b \<le> length xs \<Longrightarrow>
   array_at (do_swap a b xs) j = (if j = a then array_at xs b else if j = b then array_at xs a else array_at xs j)"
  by (auto simp: do_swap_def array_at_def nth_list_update)

lemma drop_do_swap: "1 \<le> a \<Longrightarrow> 1 \<le> b \<Longrightarrow> a \<le> n \<Longrightarrow> b \<le> n \<Longrightarrow> drop n (do_swap a b xs) = drop n xs"
  by (auto simp: do_swap_def)

lemma heapify_perm:
  assumes "1 \<le> i" "i \<le> cnt" "cnt \<le> length xs"
  shows "length (heapify compare i cnt xs) = length xs \<and> mset (heapify compare i cnt xs) = mset xs \<and>
    drop cnt (heapify compare i cnt xs) = drop cnt xs"
  using assms
proof (induction compare i cnt xs rule: heapify.induct)
  case (1 compare i cnt xs)
  let ?m = "heapify_max compare i cnt xs"
  show ?case
  proof (cases "?m = i")
    case True
    then show ?thesis by (subst (1 2 3) heapify.simps) simp
  next
    case False
    then have m: "i < ?m" "?m \<le> cnt" using heapify_max_bounds [of compare i cnt xs] by auto
    have "heapify compare i cnt xs = heapify compare ?m cnt (do_swap i ?m xs)"
      using False by (subst heapify.simps) (simp add: Let_def)
    then show ?thesis
      using 1 m False by (simp add: mset_do_swap drop_do_swap)
  qed
qed

lemma mset_take_eq:
  assumes "mset xs = mset ys" "drop n xs = drop n ys"
  shows "mset (take n xs) = mset (take n ys)"
  using assms by (metis add_right_imp_eq append_take_drop_id mset_append)

section \<open>What the callers promise about a comparison\<close>

locale comparator =
  fixes compare :: "'e compare_func"
  assumes compare_sym: "compare a b > 0 \<longleftrightarrow> compare b a < 0"
    and compare_trans: "compare a b \<le> 0 \<Longrightarrow> compare b c \<le> 0 \<Longrightarrow> compare a c \<le> 0"
begin

lemma compare_refl [simp]: "compare a a = 0"
  using compare_sym [of a a] by linarith

lemma compare_total: "compare a b > 0 \<Longrightarrow> compare b a \<le> 0"
  using compare_sym [of a b] by linarith

text \<open>
  \<open>heap_below lo cnt xs\<close>: below the nodes from \<open>lo\<close> on, no element is greater than its parent.
  \<open>heap_except i lo cnt xs\<close>: the same, except that the element at \<open>i\<close> may be smaller than its children,
  which are still not greater than the parent of \<open>i\<close>.
\<close>

definition heap_below :: "nat \<Rightarrow> nat \<Rightarrow> 'e list \<Rightarrow> bool" where
  "heap_below lo cnt xs \<longleftrightarrow>
    (\<forall>j. 2 \<le> j \<and> j \<le> cnt \<and> lo \<le> j div 2 \<longrightarrow> compare (array_at xs j) (array_at xs (j div 2)) \<le> 0)"

definition heap_except :: "nat \<Rightarrow> nat \<Rightarrow> nat \<Rightarrow> 'e list \<Rightarrow> bool" where
  "heap_except i lo cnt xs \<longleftrightarrow>
    (\<forall>j. 2 \<le> j \<and> j \<le> cnt \<and> lo \<le> j div 2 \<and> j div 2 \<noteq> i \<longrightarrow> compare (array_at xs j) (array_at xs (j div 2)) \<le> 0) \<and>
    (\<forall>j. j \<le> cnt \<and> j div 2 = i \<and> 2 \<le> i \<and> lo \<le> i div 2 \<longrightarrow> compare (array_at xs j) (array_at xs (i div 2)) \<le> 0)"

lemma heapify_max_greatest:
  assumes "j div 2 = i" "j \<le> cnt" "1 \<le> i"
  shows "compare (array_at xs j) (array_at xs (heapify_max compare i cnt xs)) \<le> 0"
    "compare (array_at xs i) (array_at xs (heapify_max compare i cnt xs)) \<le> 0"
proof -
  have j: "j = 2 * i \<or> j = 2 * i + 1" using assms(1) by linarith
  define m where "m = (if 2 * i \<le> cnt \<and> do_compare xs (2 * i) i compare > 0 then 2 * i else i)"
  have m: "2 * i \<le> cnt \<Longrightarrow> compare (array_at xs (2 * i)) (array_at xs m) \<le> 0" "compare (array_at xs i) (array_at xs m) \<le> 0"
    by (auto simp: m_def do_compare_def compare_total not_less)
  have h: "heapify_max compare i cnt xs = (if 2 * i + 1 \<le> cnt \<and> do_compare xs (2 * i + 1) m compare > 0 then 2 * i + 1 else m)"
    by (simp add: heapify_max_def m_def Let_def)
  have up: "compare x (array_at xs (heapify_max compare i cnt xs)) \<le> 0" if "compare x (array_at xs m) \<le> 0" for x
    using that compare_trans [OF that, of "array_at xs (2 * i + 1)"] compare_total by (auto simp: h do_compare_def)
  show "compare (array_at xs i) (array_at xs (heapify_max compare i cnt xs)) \<le> 0" using m(2) by (rule up)
  show "compare (array_at xs j) (array_at xs (heapify_max compare i cnt xs)) \<le> 0"
    using j
  proof
    assume "j = 2 * i"
    then show ?thesis using m(1) assms(2) by (simp add: up)
  next
    assume "j = 2 * i + 1"
    then show ?thesis using assms(2) by (auto simp: h do_compare_def not_less)
  qed
qed

lemma heapify_max_child: "heapify_max compare i cnt xs \<noteq> i \<Longrightarrow> heapify_max compare i cnt xs div 2 = i"
  by (auto simp: heapify_max_def Let_def split: if_splits)

lemma heapify_swap:
  assumes ex: "heap_except i lo cnt xs" and i: "1 \<le> lo" "lo \<le> i" "i \<le> cnt" "cnt \<le> length xs"
    and m: "m = heapify_max compare i cnt xs" "m \<noteq> i"
  shows "heap_except m lo cnt (do_swap i m xs)"
proof -
  have b: "i < m" "m \<le> cnt" "m div 2 = i"
    using m heapify_max_bounds [of compare i cnt xs] heapify_max_child [of i cnt xs] by auto
  have nth: "array_at (do_swap i m xs) j = (if j = i then array_at xs m else if j = m then array_at xs i else array_at xs j)"
    if "1 \<le> j" for j using that i b by (intro nth_do_swap) auto
  have great: "compare (array_at xs j) (array_at xs m) \<le> 0" if "j div 2 = i" "j \<le> cnt" for j
    using heapify_max_greatest(1) [OF that] i m by simp
  have self: "compare (array_at xs i) (array_at xs m) \<le> 0"
    using heapify_max_greatest(2) [OF b(3,2)] i m by simp
  show ?thesis
    unfolding heap_except_def
  proof (intro conjI allI impI)
    fix j assume j: "2 \<le> j \<and> j \<le> cnt \<and> lo \<le> j div 2 \<and> j div 2 \<noteq> m"
    then have jp: "1 \<le> j" "1 \<le> j div 2" "j div 2 < j" by auto
    consider "j div 2 = i" "j = m" | "j div 2 = i" "j \<noteq> m" | "j div 2 \<noteq> i" "j = i" | "j div 2 \<noteq> i" "j \<noteq> i" by blast
    then show "compare (array_at (do_swap i m xs) j) (array_at (do_swap i m xs) (j div 2)) \<le> 0"
    proof cases
      case 1
      then show ?thesis using self b jp by (simp add: nth)
    next
      case 2
      then show ?thesis using great [of j] j jp by (simp add: nth)
    next
      case 3
      then have "compare (array_at xs m) (array_at xs (i div 2)) \<le> 0" using ex b j by (simp add: heap_except_def)
      then show ?thesis using 3 j jp b by (simp add: nth)
    next
      case 4
      then have "j \<noteq> m" using b(3) by auto
      then show ?thesis using 4 ex j jp by (simp add: nth heap_except_def)
    qed
  next
    fix j assume j: "j \<le> cnt \<and> j div 2 = m \<and> 2 \<le> m \<and> lo \<le> m div 2"
    then have "2 \<le> j" "lo \<le> j div 2" "j div 2 \<noteq> i" using b i by auto
    then have "compare (array_at xs j) (array_at xs m) \<le> 0" using ex j unfolding heap_except_def by blast
    moreover have "1 \<le> j" "j \<noteq> i" "j \<noteq> m" "m \<noteq> i" using j b i by auto
    ultimately show "compare (array_at (do_swap i m xs) j) (array_at (do_swap i m xs) (m div 2)) \<le> 0"
      using i b(3) by (simp add: nth)
  qed
qed

lemma heapify_heap:
  assumes "heap_except i lo cnt xs" "1 \<le> lo" "lo \<le> i" "i \<le> cnt" "cnt \<le> length xs"
  shows "heap_below lo cnt (heapify compare i cnt xs)"
  using assms
proof (induction "cnt - i" arbitrary: i xs rule: less_induct)
  case less
  let ?m = "heapify_max compare i cnt xs"
  show ?case
  proof (cases "?m = i")
    case True
    have "compare (array_at xs j) (array_at xs i) \<le> 0" if "j div 2 = i" "j \<le> cnt" for j
      using heapify_max_greatest(1) [OF that, of xs] True less.prems by simp
    then have "heap_below lo cnt xs" using less.prems(1) by (auto simp: heap_below_def heap_except_def)
    then show ?thesis using True by (subst heapify.simps) simp
  next
    case False
    then have m: "i < ?m" "?m \<le> cnt" using heapify_max_bounds [of compare i cnt xs] by auto
    have "heapify compare i cnt xs = heapify compare ?m cnt (do_swap i ?m xs)"
      using False by (subst heapify.simps) (simp add: Let_def)
    then show ?thesis
      using less.hyps [of ?m "do_swap i ?m xs"] heapify_swap [OF less.prems refl False] less.prems m by simp
  qed
qed

lemma heap_below_except: "heap_below (Suc lo) cnt xs \<Longrightarrow> heap_except (Suc lo - 1) lo cnt xs"
  by (auto simp: heap_below_def heap_except_def)

lemma build_heap_heap:
  assumes "heap_below (Suc i) cnt xs" "i \<le> cnt" "cnt \<le> length xs"
  shows "heap_below 1 cnt (build_heap compare cnt i xs) \<and> length (build_heap compare cnt i xs) = length xs \<and>
    mset (build_heap compare cnt i xs) = mset xs \<and> drop cnt (build_heap compare cnt i xs) = drop cnt xs"
  using assms
proof (induction i arbitrary: xs)
  case (Suc i)
  have "heap_below (Suc i) cnt (heapify compare (Suc i) cnt xs)"
    using heap_below_except [OF Suc.prems(1)] Suc.prems by (intro heapify_heap) auto
  then show ?case using Suc heapify_perm [of "Suc i" cnt xs compare] by simp
qed simp

lemma heap_root_greatest:
  assumes "heap_below 1 cnt xs" "1 \<le> j" "j \<le> cnt"
  shows "compare (array_at xs j) (array_at xs 1) \<le> 0"
  using assms(2,3)
proof (induction j rule: less_induct)
  case (less j)
  show ?case
  proof (cases "j = 1")
    case False
    then have "compare (array_at xs j) (array_at xs (j div 2)) \<le> 0"
      using assms(1) less.prems by (auto simp: heap_below_def)
    moreover have "compare (array_at xs (j div 2)) (array_at xs 1) \<le> 0"
      using less.IH [of "j div 2"] less.prems False by auto
    ultimately show ?thesis by (rule compare_trans)
  qed simp
qed

text \<open>
  The sorting loop: the first \<open>n\<close> elements are a heap, the rest is sorted, and nothing in the heap is
  greater than anything in the rest.
\<close>

definition sorting :: "nat \<Rightarrow> 'e list \<Rightarrow> bool" where
  "sorting n xs \<longleftrightarrow> n \<le> length xs \<and> heap_below 1 n xs \<and> sorted_wrt (\<lambda>a b. compare a b \<le> 0) (drop n xs) \<and>
    (\<forall>x \<in> set (take n xs). \<forall>y \<in> set (drop n xs). compare x y \<le> 0)"

lemma sorting_step:
  assumes "sorting (Suc n) xs" "1 \<le> n"
  defines "ys \<equiv> heapify compare 1 n (do_swap 1 (Suc n) xs)"
  shows "sorting n ys" "mset ys = mset xs" "length ys = length xs"
proof -
  let ?zs = "do_swap 1 (Suc n) xs"
  have n: "Suc n \<le> length xs" using assms(1) by (simp add: sorting_def)
  note perm = heapify_perm [of 1 n ?zs compare, folded ys_def]
  show "mset ys = mset xs" "length ys = length xs" using perm n assms(2) by (simp_all add: mset_do_swap)
  have nth: "array_at ?zs j = array_at xs j" if "2 \<le> j" "j \<le> n" for j
    using that n by (subst nth_do_swap) auto
  have "heap_below 2 n ?zs"
    unfolding heap_below_def
  proof (intro allI impI)
    fix j assume j: "2 \<le> j \<and> j \<le> n \<and> 2 \<le> j div 2"
    then have "array_at ?zs j = array_at xs j" "array_at ?zs (j div 2) = array_at xs (j div 2)" using nth [of j] nth [of "j div 2"] by auto
    then show "compare (array_at ?zs j) (array_at ?zs (j div 2)) \<le> 0"
      using j assms(1) by (auto simp: sorting_def heap_below_def)
  qed
  then have "heap_except 1 1 n ?zs" by (auto simp: heap_below_def heap_except_def)
  then have heap: "heap_below 1 n ys" unfolding ys_def using n assms(2) by (intro heapify_heap) auto
  let ?m = "array_at xs 1"
  have d: "drop n ?zs = ?m # drop (Suc n) xs"
    using n assms(2) by (simp add: do_swap_def array_at_def Cons_nth_drop_Suc [symmetric])
  have tk: "set (take n ?zs) \<union> {?m} = set (take (Suc n) xs)"
  proof -
    have "mset (take (Suc n) ?zs) = mset (take (Suc n) xs)"
      using n by (intro mset_take_eq) (simp_all add: mset_do_swap drop_do_swap)
    then have "set (take (Suc n) ?zs) = set (take (Suc n) xs)" by (rule mset_eq_setD)
    moreover have "take (Suc n) ?zs = take n ?zs @ [?m]"
      using n d by (simp add: take_Suc_conv_app_nth) (metis length_do_swap Suc_le_eq hd_drop_conv_nth list.sel(1))
    ultimately show ?thesis by simp
  qed
  have rest: "drop n ys = ?m # drop (Suc n) xs" using perm n assms(2) d by simp
  have "mset (take n ys) = mset (take n ?zs)" using perm n assms(2) by (intro mset_take_eq) auto
  then have tys: "set (take n ys) = set (take n ?zs)" by (rule mset_eq_setD)
  have root: "compare x ?m \<le> 0" if x: "x \<in> set (take (Suc n) xs)" for x
  proof -
    obtain j where "j < Suc n" "x = xs ! j" using x unfolding nth_image [OF n, symmetric] by auto
    then show ?thesis
      using heap_root_greatest [of "Suc n" xs "Suc j"] assms(1) by (simp add: sorting_def array_at_def)
  qed
  have "?m \<in> set (take (Suc n) xs)" using tk by blast
  then show "sorting n ys"
    using assms(1) heap n root tk tys rest \<open>length ys = length xs\<close> unfolding sorting_def by auto
qed

lemma sort_heap_sorted:
  assumes "sorting n xs"
  shows "sorted_wrt (\<lambda>a b. compare a b \<le> 0) (sort_heap compare n xs) \<and> mset (sort_heap compare n xs) = mset xs"
  using assms
proof (induction n arbitrary: xs)
  case 0
  then show ?case by (simp add: sorting_def)
next
  case (Suc n)
  show ?case
  proof (cases n)
    case 0
    then show ?thesis using Suc.prems by (cases xs) (auto simp: sorting_def)
  next
    case (Suc k)
    then show ?thesis using Suc.IH sorting_step [of n xs] Suc.prems by simp
  qed
qed

lemma heap_sort_sorted:
  "sorted_wrt (\<lambda>a b. compare a b \<le> 0) (heap_sort xs (length xs) compare) \<and> mset (heap_sort xs (length xs) compare) = mset xs"
proof -
  let ?n = "length xs" and ?ys = "build_heap compare (length xs) (length xs div 2) xs"
  have "heap_below (Suc (?n div 2)) ?n xs" by (auto simp: heap_below_def)
  then have "heap_below 1 ?n ?ys \<and> length ?ys = ?n \<and> mset ?ys = mset xs \<and> drop ?n ?ys = drop ?n xs"
    by (intro build_heap_heap) auto
  then show ?thesis using sort_heap_sorted [of ?n ?ys] by (simp add: sorting_def heap_sort_def)
qed

end

section \<open>Binary search\<close>

text \<open>
  \<open>key_splits\<close>: what a search may assume of a sorted array. The elements after one greater than the key
  are greater, those before a smaller one are smaller.
\<close>

definition key_splits :: "'k \<Rightarrow> 'e list \<Rightarrow> ('k \<Rightarrow> 'e \<Rightarrow> int) \<Rightarrow> bool" where
  "key_splits key xs compare \<longleftrightarrow>
    (\<forall>i j. i \<le> j \<and> j < length xs \<longrightarrow>
       (compare key (xs ! i) < 0 \<longrightarrow> compare key (xs ! j) < 0) \<and> (compare key (xs ! j) > 0 \<longrightarrow> compare key (xs ! i) > 0))"

lemma binary_search_loop_ok:
  assumes "key_splits key xs compare" "l \<le> length xs"
    and "\<forall>i < f. compare key (xs ! i) \<noteq> 0" "\<forall>i. l \<le> i \<and> i < length xs \<longrightarrow> compare key (xs ! i) \<noteq> 0"
  shows "case binary_search_loop key xs compare f l of
      Some i \<Rightarrow> i < length xs \<and> compare key (xs ! i) = 0
    | None \<Rightarrow> (\<forall>i < length xs. compare key (xs ! i) \<noteq> 0)"
  using assms
proof (induction "l - f" arbitrary: f l rule: less_induct)
  case less
  let ?mid = "f + (l - f) div 2" and ?c = "compare key (xs ! (f + (l - f) div 2))"
  show ?case
  proof (cases "f < l")
    case False
    have "compare key (xs ! i) \<noteq> 0" if "i < length xs" for i
      using less.prems(3,4) False that by (cases "i < f") auto
    then show ?thesis using False by (subst binary_search_loop.simps) simp
  next
    case True
    then have mid: "f \<le> ?mid" "?mid < l" "?mid < length xs" using less.prems(2) by auto
    note sp = less.prems(1) [unfolded key_splits_def, rule_format]
    consider "?c < 0" | "?c > 0" | "?c = 0" by linarith
    then show ?thesis
    proof cases
      case 1
      have "\<forall>i. ?mid \<le> i \<and> i < length xs \<longrightarrow> compare key (xs ! i) \<noteq> 0" using sp [of ?mid] 1 by fastforce
      then show ?thesis
        using less.hyps [of ?mid f] less.prems mid 1 True by (subst binary_search_loop.simps) (simp add: Let_def)
    next
      case 2
      have "\<forall>i < Suc ?mid. compare key (xs ! i) \<noteq> 0" using sp [of _ ?mid] 2 mid(3) by (fastforce simp: less_Suc_eq_le)
      then show ?thesis
        using less.hyps [of l "Suc ?mid"] less.prems mid 2 True by (subst binary_search_loop.simps) (simp add: Let_def)
    next
      case 3
      then show ?thesis using mid True by (subst binary_search_loop.simps) (simp add: Let_def)
    qed
  qed
qed

context comparator
begin

lemma sorted_key_splits:
  assumes "sorted_wrt (\<lambda>a b. compare a b \<le> 0) xs"
  shows "key_splits key xs compare"
proof -
  have up: "compare key (xs ! j) < 0" if ij: "i \<le> j" "j < length xs" and "compare key (xs ! i) < 0" for i j
  proof (rule ccontr)
    assume "\<not> compare key (xs ! j) < 0"
    then have "compare (xs ! j) key \<le> 0" using compare_sym [of "xs ! j" key] by linarith
    moreover have "compare (xs ! i) (xs ! j) \<le> 0"
      using assms ij by (cases "i = j") (auto simp: sorted_wrt_iff_nth_less)
    ultimately have "compare (xs ! i) key \<le> 0" using compare_trans by blast
    then show False using compare_sym [of "xs ! i" key] that(3) by linarith
  qed
  have down: "compare key (xs ! i) > 0" if ij: "i \<le> j" "j < length xs" and "compare key (xs ! j) > 0" for i j
  proof (rule ccontr)
    assume "\<not> compare key (xs ! i) > 0"
    moreover have "compare (xs ! i) (xs ! j) \<le> 0"
      using assms ij by (cases "i = j") (auto simp: sorted_wrt_iff_nth_less)
    ultimately have "compare key (xs ! j) \<le> 0" using compare_trans by (metis not_less)
    then show False using that(3) by linarith
  qed
  show ?thesis using up down unfolding key_splits_def by blast
qed

lemma binary_search_sorted:
  assumes "sorted_wrt (\<lambda>a b. compare a b \<le> 0) xs"
  shows "case binary_search key xs (length xs) compare of
      Some i \<Rightarrow> i < length xs \<and> compare key (xs ! i) = 0
    | None \<Rightarrow> (\<forall>i < length xs. compare key (xs ! i) \<noteq> 0)"
  unfolding binary_search_def by (rule binary_search_loop_ok [OF sorted_key_splits [OF assms]]) auto

end

section \<open>Sorting and searching\<close>

text \<open>
  (C18) Sorting is correct: with any comparison that is antisymmetric and transitive, \<^verbatim>\<open>qsort\<close>
  terminates with a permutation of the array in ascending order, and \<^verbatim>\<open>bsearch\<close> on the result finds a
  matching element exactly when the array had one.
\<close>

theorem qsort_bsearch_correct:
  assumes "comparator compare"
  shows "mset (qsort xs (length xs) compare) = mset xs \<and>
    sorted_wrt (\<lambda>a b. compare a b \<le> 0) (qsort xs (length xs) compare) \<and>
    (case bsearch key (qsort xs (length xs) compare) (length xs) compare of
       Some i \<Rightarrow> i < length xs \<and> compare key (qsort xs (length xs) compare ! i) = 0
     | None \<Rightarrow> \<not> list_ex (\<lambda>x. compare key x = 0) xs)"
proof -
  let ?ys = "qsort xs (length xs) compare"
  have ys: "mset ?ys = mset xs" "sorted_wrt (\<lambda>a b. compare a b \<le> 0) ?ys"
    using comparator.heap_sort_sorted [OF assms, of xs] by (simp_all add: qsort_def)
  have "set ?ys = set xs" "length ?ys = length xs" using ys(1) by (auto dest: mset_eq_setD mset_eq_length)
  then show ?thesis
    using ys comparator.binary_search_sorted [OF assms ys(2), of key]
    by (auto simp: bsearch_def list_ex_iff in_set_conv_nth split: option.splits)
      (metis in_set_conv_nth)
qed

lemma qsort_bsearch_correct_witness:
  "sorted_wrt (\<lambda>a b. a - b \<le> 0) (qsort [3, 1, 2 :: int] 3 (\<lambda>a b. a - b)) \<and>
   bsearch 2 (qsort [3, 1, 2 :: int] 3 (\<lambda>a b. a - b)) 3 (\<lambda>a b. a - b) \<noteq> None"
proof -
  have "comparator (\<lambda>a b. a - b :: int)" by unfold_locales auto
  from qsort_bsearch_correct [OF this, of "[3, 1, 2]" 2] show ?thesis
    by (auto simp: numeral_3_eq_3 split: option.splits)
qed

end
