(* ===== verification/Strings.thy ===== *)
theory Strings
  imports Stdlib
begin

text \<open>
  The string and block routines of \<^verbatim>\<open>lib/string.c\<close> over an explicit memory, so that overlapping
  arguments and strings modified in place mean what they mean in C. Pointers are addresses; a routine
  that runs along a string without a terminator does not return, which is the value \<open>None\<close> of the
  partial functions here. The main results are that block moves work for every overlap, that bounded
  copies stay inside the destination and terminate it, and that tokenising a string in place yields its
  maximal delimiter-free pieces.
\<close>

type_synonym memory = "nat \<Rightarrow> byte"
type_synonym addr = nat

section \<open>Blocks\<close>

primrec copy_up :: "nat \<Rightarrow> addr \<Rightarrow> addr \<Rightarrow> memory \<Rightarrow> memory" where
  "copy_up 0 dst src m = m"
| "copy_up (Suc sz) dst src m = copy_up sz (dst + 1) (src + 1) (m(dst := m src))"

primrec copy_down :: "nat \<Rightarrow> addr \<Rightarrow> addr \<Rightarrow> memory \<Rightarrow> memory" where
  "copy_down 0 dst src m = m"
| "copy_down (Suc sz) dst src m = copy_down sz dst src (m(dst + sz := m (src + sz)))"

definition memcpy :: "addr \<Rightarrow> addr \<Rightarrow> nat \<Rightarrow> memory \<Rightarrow> addr \<times> memory" where
  "memcpy dst src sz m = (dst, copy_up sz dst src m)"

text \<open>The upward loop leaves \<^verbatim>\<open>dst\<close> behind the block, and that is what is returned.\<close>

definition memmove :: "addr \<Rightarrow> addr \<Rightarrow> nat \<Rightarrow> memory \<Rightarrow> addr \<times> memory" where
  "memmove dst src sz m =
    (if dst < src then (dst + sz, copy_up sz dst src m) else (dst, copy_down sz dst src m))"

primrec memcmp :: "memory \<Rightarrow> addr \<Rightarrow> addr \<Rightarrow> nat \<Rightarrow> int" where
  "memcmp m a b 0 = 0"
| "memcmp m a b (Suc sz) = (if m a \<noteq> m b then if m a > m b then 1 else - 1 else memcmp m (a + 1) (b + 1) sz)"

primrec memchr :: "memory \<Rightarrow> addr \<Rightarrow> byte \<Rightarrow> nat \<Rightarrow> addr option" where
  "memchr m block ch 0 = None"
| "memchr m block ch (Suc sz) = (if m block = ch then Some block else memchr m (block + 1) ch sz)"

primrec set_up :: "nat \<Rightarrow> addr \<Rightarrow> byte \<Rightarrow> memory \<Rightarrow> memory" where
  "set_up 0 dst v m = m"
| "set_up (Suc sz) dst v m = set_up sz (dst + 1) v (m(dst := v))"

definition memset :: "addr \<Rightarrow> byte \<Rightarrow> nat \<Rightarrow> memory \<Rightarrow> addr \<times> memory" where
  "memset dst v sz m = (dst, set_up sz dst v m)"

section \<open>Strings\<close>

partial_function (option) strcmp :: "memory \<Rightarrow> addr \<Rightarrow> addr \<Rightarrow> int option" where
  "strcmp m a b =
    (if m a \<noteq> 0 \<and> m a = m b then strcmp m (a + 1) (b + 1)
     else Some (if m a < m b then - 1 else if m a > m b then 1 else 0))"

partial_function (option) strchr :: "memory \<Rightarrow> addr \<Rightarrow> byte \<Rightarrow> addr option option" where
  "strchr m p c = (if m p = c then Some (Some p) else if m p = 0 then Some None else strchr m (p + 1) c)"

partial_function (option) strcspn_from :: "memory \<Rightarrow> addr \<Rightarrow> addr \<Rightarrow> nat \<Rightarrow> nat option" where
  "strcspn_from m p stop len =
    (if m (p + len) \<noteq> 0
     then do { r \<leftarrow> strchr m stop (m (p + len)); if r \<noteq> None then Some len else strcspn_from m p stop (len + 1) }
     else Some len)"

definition strcspn :: "memory \<Rightarrow> addr \<Rightarrow> addr \<Rightarrow> nat option" where
  "strcspn m p stop = strcspn_from m p stop 0"

partial_function (option) strpbrk :: "memory \<Rightarrow> addr \<Rightarrow> addr \<Rightarrow> addr option option" where
  "strpbrk m p stop =
    (if m p \<noteq> 0
     then do { r \<leftarrow> strchr m stop (m p); if r \<noteq> None then Some (Some p) else strpbrk m (p + 1) stop }
     else Some None)"

partial_function (option) strrchr_from :: "memory \<Rightarrow> addr \<Rightarrow> byte \<Rightarrow> addr option \<Rightarrow> addr option option" where
  "strrchr_from m p c q = (if m p \<noteq> 0 then strrchr_from m (p + 1) c (if m p = c then Some p else q) else Some q)"

definition strrchr :: "memory \<Rightarrow> addr \<Rightarrow> byte \<Rightarrow> addr option option" where
  "strrchr m p c = strrchr_from m p c None"

partial_function (option) strspn_from :: "memory \<Rightarrow> addr \<Rightarrow> addr \<Rightarrow> nat \<Rightarrow> nat option" where
  "strspn_from m p skip len =
    (if m (p + len) \<noteq> 0
     then do { r \<leftarrow> strchr m skip (m (p + len)); if r = None then Some len else strspn_from m p skip (len + 1) }
     else Some len)"

definition strspn :: "memory \<Rightarrow> addr \<Rightarrow> addr \<Rightarrow> nat option" where
  "strspn m p skip = strspn_from m p skip 0"

partial_function (option) strlen_to :: "memory \<Rightarrow> addr \<Rightarrow> addr option" where
  "strlen_to m p = (if m p \<noteq> 0 then strlen_to m (p + 1) else Some p)"

definition strlen :: "memory \<Rightarrow> addr \<Rightarrow> nat option" where
  "strlen m s = do { p \<leftarrow> strlen_to m s; Some (p - s) }"

text \<open>The loop tests the character before the bound.\<close>

function strnlen_from :: "memory \<Rightarrow> addr \<Rightarrow> nat \<Rightarrow> nat \<Rightarrow> nat" where
  "strnlen_from m s maxlen len = (if m (s + len) \<noteq> 0 \<and> len < maxlen then strnlen_from m s maxlen (len + 1) else len)"
  by pat_completeness auto
termination
  by (relation "measure (\<lambda>(m, s, maxlen, len). maxlen - len)") auto

declare strnlen_from.simps [simp del]

definition strnlen :: "memory \<Rightarrow> addr \<Rightarrow> nat \<Rightarrow> nat" where
  "strnlen m s maxlen = strnlen_from m s maxlen 0"

definition strstr :: "memory \<Rightarrow> addr \<Rightarrow> addr \<Rightarrow> addr option option" where
  "strstr m haystack needle = do {
     haystack_len \<leftarrow> strlen m haystack;
     needle_len \<leftarrow> strlen m needle;
     if haystack_len \<ge> needle_len
     then Some (map_option ((+) haystack)
       (find (\<lambda>i. memcmp m (haystack + i) needle needle_len = 0) [0..<haystack_len - needle_len + 1]))
     else Some None
   }"

definition strlcpy :: "addr \<Rightarrow> addr \<Rightarrow> nat \<Rightarrow> memory \<Rightarrow> (nat \<times> memory) option" where
  "strlcpy dst src sz m = do {
     src_len \<leftarrow> strlen m src;
     if sz > 0
     then do {
       let dst_len = (if src_len < sz - 1 then src_len else sz - 1);
       let m = snd (memcpy dst src dst_len m);
       Some (src_len, m(dst + dst_len := 0))
     }
     else Some (src_len, m)
   }"

definition strlcat :: "addr \<Rightarrow> addr \<Rightarrow> nat \<Rightarrow> memory \<Rightarrow> (nat \<times> memory) option" where
  "strlcat dst src sz m = do {
     src_len \<leftarrow> strlen m src;
     dst_len \<leftarrow> strlen m dst;
     if sz > 0 \<and> dst_len < sz
     then do {
       let copy_cnt = (if src_len < sz - dst_len - 1 then src_len else sz - dst_len - 1);
       let m = snd (memcpy (dst + dst_len) src copy_cnt m);
       Some (src_len + dst_len, m(dst + dst_len + copy_cnt := 0))
     }
     else Some (src_len + dst_len, m)
   }"

text \<open>The two loops of \<^verbatim>\<open>strtok_r\<close>: the first reports whether it met the end of the string.\<close>

partial_function (option) strtok_skip :: "memory \<Rightarrow> addr \<Rightarrow> addr \<Rightarrow> (bool \<times> addr) option" where
  "strtok_skip m delimiters s = do {
     r \<leftarrow> strchr m delimiters (m s);
     if r \<noteq> None then if m s = 0 then Some (True, s) else strtok_skip m delimiters (s + 1)
     else Some (False, s)
   }"

partial_function (option) strtok_scan :: "memory \<Rightarrow> addr \<Rightarrow> addr \<Rightarrow> addr option" where
  "strtok_scan m delimiters s = do {
     r \<leftarrow> strchr m delimiters (m s);
     if r = None then strtok_scan m delimiters (s + 1) else Some s
   }"

definition strtok_r :: "addr option \<Rightarrow> addr \<Rightarrow> addr option \<Rightarrow> memory \<Rightarrow> (addr option \<times> addr option \<times> memory) option" where
  "strtok_r s delimiters save_ptr m = do {
     s \<leftarrow> (case s of None \<Rightarrow> save_ptr | Some s \<Rightarrow> Some s);
     (at_end, s) \<leftarrow> strtok_skip m delimiters s;
     if at_end then Some (None, Some s, m)
     else do {
       let token = s;
       s \<leftarrow> strtok_scan m delimiters s;
       if m s \<noteq> 0 then Some (Some token, Some (s + 1), m(s := 0)) else Some (Some token, Some s, m)
     }
   }"

text \<open>The loop of the callers: one call with the string, then calls with a null pointer until no token is left.\<close>

partial_function (option) strtok_all :: "addr option \<Rightarrow> addr \<Rightarrow> addr option \<Rightarrow> memory \<Rightarrow> (addr list \<times> memory) option" where
  "strtok_all s delimiters save_ptr m = do {
     (token, save_ptr, m) \<leftarrow> strtok_r s delimiters save_ptr m;
     case token of None \<Rightarrow> Some ([], m)
     | Some t \<Rightarrow> do { (ts, m) \<leftarrow> strtok_all None delimiters save_ptr m; Some (t # ts, m) }
   }"

section \<open>Block moves\<close>

lemma copy_up_eq:
  assumes "dst \<le> src \<or> src + sz \<le> dst"
  shows "copy_up sz dst src m a = (if dst \<le> a \<and> a < dst + sz then m (src + (a - dst)) else m a)"
  using assms
proof (induction sz arbitrary: dst src m)
  case (Suc sz)
  have "copy_up sz (Suc dst) (Suc src) (m(dst := m src)) a =
      (if Suc dst \<le> a \<and> a < Suc dst + sz then (m(dst := m src)) (Suc src + (a - Suc dst)) else (m(dst := m src)) a)"
    using Suc.prems by (intro Suc.IH) auto
  moreover have "Suc src + (a - Suc dst) = src + (a - dst)" if "Suc dst \<le> a" using that by simp
  ultimately show ?case using Suc.prems by (cases "a = dst") auto
qed auto

lemma copy_down_eq:
  assumes "src \<le> dst"
  shows "copy_down sz dst src m a = (if dst \<le> a \<and> a < dst + sz then m (src + (a - dst)) else m a)"
  using assms by (induction sz arbitrary: m) auto

text \<open>
  (C20) A block move copies the old contents of the source to the destination whatever their overlap and
  changes nothing else; but it returns the destination only when that is not below the source, and
  the address behind the block otherwise.
\<close>

theorem memmove_correct:
  "snd (memmove dst src sz m) = (\<lambda>a. if dst \<le> a \<and> a < dst + sz then m (src + (a - dst)) else m a) \<and>
   (fst (memmove dst src sz m) = dst \<longleftrightarrow> sz = 0 \<or> src \<le> dst)"
  by (rule conjI, rule ext) (auto simp: memmove_def copy_up_eq copy_down_eq)

text \<open>Comparing blocks of a fixed size is an order, so arrays of block addresses can be sorted with it.\<close>

lemma memcmp_sym: "memcmp m b a n = - memcmp m a b n"
proof (induction n arbitrary: a b)
  case (Suc n)
  show ?case using Suc.IH [of "Suc b" "Suc a"] less_linear [of "m a" "m b"] by auto
qed simp

lemma memcmp_trans: "memcmp m a b n \<le> 0 \<Longrightarrow> memcmp m b c n \<le> 0 \<Longrightarrow> memcmp m a c n \<le> 0"
proof (induction n arbitrary: a b c)
  case (Suc n)
  have "memcmp m (Suc a) (Suc c) n \<le> 0" if "m a = m b" "m b = m c"
    using Suc.IH [of "Suc a" "Suc b" "Suc c"] Suc.prems that by simp
  moreover have "m a \<le> m b" "m b \<le> m c" using Suc.prems by (auto split: if_splits)
  ultimately show ?case by auto
qed simp

interpretation block_order: comparator "\<lambda>a b. memcmp m a b n" for m n
proof unfold_locales
  show "0 < memcmp m a b n \<longleftrightarrow> memcmp m b a n < 0" for a b using memcmp_sym [of m b a n] by simp
  show "memcmp m a b n \<le> 0 \<Longrightarrow> memcmp m b c n \<le> 0 \<Longrightarrow> memcmp m a c n \<le> 0" for a b c by (rule memcmp_trans)
qed

section \<open>Strings in memory\<close>

text \<open>\<open>cstr m p s\<close>: memory holds the string \<open>s\<close> at \<open>p\<close>, with its terminator.\<close>

fun cstr :: "memory \<Rightarrow> addr \<Rightarrow> byte list \<Rightarrow> bool" where
  "cstr m p [] = (m p = 0)"
| "cstr m p (c # s) = (m p = c \<and> c \<noteq> 0 \<and> cstr m (Suc p) s)"

lemma cstr_iff: "cstr m p s \<longleftrightarrow> (\<forall>i < length s. m (p + i) = s ! i \<and> s ! i \<noteq> 0) \<and> m (p + length s) = 0"
proof (induction s arbitrary: p)
  case (Cons c s)
  show ?case by (simp add: Cons.IH) (auto simp: nth_Cons less_Suc_eq_0_disj)
qed simp

lemma cstr_append: "cstr m p (s @ t) \<longleftrightarrow> (\<forall>i < length s. m (p + i) = s ! i \<and> s ! i \<noteq> 0) \<and> cstr m (p + length s) t"
  by (induction s arbitrary: p) (auto simp: nth_Cons less_Suc_eq_0_disj)

lemma cstr_cong: "(\<And>a. p \<le> a \<Longrightarrow> a \<le> p + length s \<Longrightarrow> m a = m' a) \<Longrightarrow> cstr m p s = cstr m' p s"
  by (simp add: cstr_iff)

lemma strlen_cstr: "cstr m p s \<Longrightarrow> strlen m p = Some (length s)"
proof -
  have "cstr m p s \<Longrightarrow> strlen_to m p = Some (p + length s)"
    by (induction s arbitrary: p) (auto simp: strlen_to.simps)
  then show "cstr m p s \<Longrightarrow> strlen m p = Some (length s)" by (simp add: strlen_def)
qed

lemma strchr_cstr:
  assumes "cstr m q ds"
  shows "\<exists>r. strchr m q c = Some r \<and> (r = None \<longleftrightarrow> c \<noteq> 0 \<and> c \<notin> set ds)"
  using assms
proof (induction ds arbitrary: q)
  case Nil
  then show ?case by (auto simp: strchr.simps)
next
  case (Cons d ds)
  show ?case
  proof (cases "d = c")
    case True
    then show ?thesis using Cons.prems by (auto simp: strchr.simps)
  next
    case False
    then show ?thesis using Cons.IH [of "Suc q"] Cons.prems by (subst strchr.simps) auto
  qed
qed

text \<open>
  (C21) A bounded copy stays inside the destination: it changes only the first \<^verbatim>\<open>size\<close> bytes there, leaves a
  terminated string of at most \<^verbatim>\<open>size - 1\<close> characters, a prefix of the source, and returns the length
  the source has, so that truncation can be detected.
\<close>

theorem strlcpy_bounded:
  assumes "cstr m src s" "0 < sz" "src + length s < dst \<or> dst + sz \<le> src"
  shows "\<exists>m'. strlcpy dst src sz m = Some (length s, m') \<and> cstr m' dst (take (sz - 1) s) \<and>
    (\<forall>a. a < dst \<or> dst + sz \<le> a \<longrightarrow> m' a = m a)"
proof -
  define n where "n = (if length s < sz - 1 then length s else sz - 1)"
  let ?m = "(copy_up n dst src m)(dst + n := 0)"
  have n: "length (take (sz - 1) s) = n" "n < sz" "n \<le> length s" "n \<le> sz - 1" using assms(2) by (auto simp: n_def)
  have run: "strlcpy dst src sz m = Some (length s, ?m)"
    using assms(2) strlen_cstr [OF assms(1)] by (simp add: strlcpy_def memcpy_def n_def Let_def)
  have c: "copy_up n dst src m a = (if dst \<le> a \<and> a < dst + n then m (src + (a - dst)) else m a)" for a
    using assms(3) n by (intro copy_up_eq) auto
  have "cstr ?m dst (take (sz - 1) s)"
    using assms(1) n(3,4) unfolding cstr_iff n(1) by (auto simp: c)
  moreover have "\<forall>a. a < dst \<or> dst + sz \<le> a \<longrightarrow> ?m a = m a" using n(2) by (auto simp: c)
  ultimately show ?thesis using run by blast
qed

lemma strlcpy_bounded_witness:
  "\<exists>m'. strlcpy 10 1 3 (\<lambda>a. if 1 \<le> a \<and> a \<le> 4 then 1 else 0) = Some (4, m') \<and> m' 12 = 0 \<and> cstr m' 10 [1, 1]"
proof -
  have "cstr (\<lambda>a. if 1 \<le> a \<and> a \<le> 4 then 1 else 0) 1 [1, 1, 1, 1]" by (simp add: cstr_iff nth_Cons split: nat.split)
  from strlcpy_bounded [OF this, of 3 10] obtain m' where
    m': "strlcpy 10 1 3 (\<lambda>a. if 1 \<le> a \<and> a \<le> 4 then 1 else 0) = Some (4, m')" "cstr m' 10 [1, 1]" by auto
  then show ?thesis by (intro exI [of _ m']) simp
qed

section \<open>Tokens\<close>

text \<open>The reference: the maximal pieces of a string without delimiters.\<close>

function tokens :: "byte set \<Rightarrow> byte list \<Rightarrow> byte list list" where
  "tokens D s = (case dropWhile (\<lambda>c. c \<in> D) s of [] \<Rightarrow> []
     | c # r \<Rightarrow> (c # takeWhile (\<lambda>c. c \<notin> D) r) # tokens D (dropWhile (\<lambda>c. c \<notin> D) r))"
  by pat_completeness auto
termination
proof (relation "measure (\<lambda>(D, s). length s)", simp)
  fix D s c and r :: "byte list"
  assume "dropWhile (\<lambda>c. c \<in> D) s = c # r"
  then have "length (c # r) \<le> length s" by (metis length_dropWhile_le)
  moreover have "length (dropWhile (\<lambda>c. c \<notin> D) r) \<le> length r" by (rule length_dropWhile_le)
  ultimately show "((D, dropWhile (\<lambda>c. c \<notin> D) r), D, s) \<in> measure (\<lambda>(D, s). length s)" by simp
qed

declare tokens.simps [simp del]

lemma strtok_skip_cstr:
  assumes "cstr m q ds" "cstr m p s"
  shows "strtok_skip m q p =
    Some (dropWhile (\<lambda>c. c \<in> set ds) s = [], p + length (takeWhile (\<lambda>c. c \<in> set ds) s))"
  using assms(2)
proof (induction s arbitrary: p)
  case Nil
  then show ?case using strchr_cstr [OF assms(1), of 0] by (subst strtok_skip.simps) auto
next
  case (Cons c s)
  then show ?case using strchr_cstr [OF assms(1), of c] Cons.IH [of "Suc p"] by (subst strtok_skip.simps) auto
qed

lemma strtok_scan_cstr:
  assumes "cstr m q ds" "cstr m p s"
  shows "strtok_scan m q p = Some (p + length (takeWhile (\<lambda>c. c \<notin> set ds) s))"
  using assms(2)
proof (induction s arbitrary: p)
  case Nil
  then show ?case using strchr_cstr [OF assms(1), of 0] by (subst strtok_scan.simps) auto
next
  case (Cons c s)
  then show ?case using strchr_cstr [OF assms(1), of c] Cons.IH [of "Suc p"] by (subst strtok_scan.simps) auto
qed

text \<open>One call: it skips the delimiters \<open>a\<close>, terminates the token \<open>t\<close> in place and saves where the rest begins.\<close>

lemma strtok_r_cstr:
  assumes q: "cstr m q ds" and p: "cstr m p s"
    and st: "s = a @ t @ r" "set a \<subseteq> set ds" "set t \<inter> set ds = {}" "t \<noteq> []" "r = [] \<or> hd r \<in> set ds"
    and x: "(case x of None \<Rightarrow> save | Some y \<Rightarrow> Some y) = Some p"
  shows "strtok_r x q save m = Some (Some (p + length a),
      Some (p + length a + length t + (if r = [] then 0 else 1)), m(p + length a + length t := 0))"
proof -
  have c: "cstr m (p + length a) (t @ r)" "m (p + length a + length t) = (if r = [] then 0 else hd r)" "r \<noteq> [] \<Longrightarrow> hd r \<noteq> 0"
    using p unfolding st(1) cstr_append by (cases r, auto)+
  have t: "takeWhile (\<lambda>c. c \<notin> set ds) (t @ r) = t" "dropWhile (\<lambda>c. c \<in> set ds) s = t @ r" "takeWhile (\<lambda>c. c \<in> set ds) s = a"
    using st by (cases t; cases r; auto simp: takeWhile_eq_all_conv [THEN iffD2] dropWhile_append2 takeWhile_append2 subset_iff
        takeWhile_append1 disjoint_iff)+
  have "m(p + length a + length t := 0) = m" if "r = []" using that c(2) by auto
  then show ?thesis
    unfolding strtok_r_def x using strtok_skip_cstr [OF q p] strtok_scan_cstr [OF q c(1)] t c(2,3) st(4) by auto
qed

lemma tokens_step:
  assumes "set a \<subseteq> D" "set t \<inter> D = {}" "t \<noteq> []" "r = [] \<or> hd r \<in> D"
  shows "tokens D (a @ t @ r) = t # tokens D r"
proof -
  obtain c u where t: "t = c # u" using assms(3) by (cases t) auto
  have "dropWhile (\<lambda>c. c \<in> D) (a @ t @ r) = c # u @ r" using assms(1,2) t by (auto simp: dropWhile_append2 subset_iff)
  moreover have "takeWhile (\<lambda>c. c \<notin> D) (u @ r) = u" "dropWhile (\<lambda>c. c \<notin> D) (u @ r) = r"
    using assms(2,4) t by (cases r; auto simp: takeWhile_append2 dropWhile_append2 disjoint_iff)+
  ultimately show ?thesis by (subst tokens.simps) (simp add: t)
qed

lemma tokens_tl: "hd r \<in> D \<Longrightarrow> tokens D (tl r) = tokens D r"
  by (cases r) (simp_all add: tokens.simps)

lemma split_tokens:
  assumes "dropWhile (\<lambda>c. c \<in> D) s \<noteq> []"
  shows "\<exists>a t r. s = a @ t @ r \<and> set a \<subseteq> D \<and> set t \<inter> D = {} \<and> t \<noteq> [] \<and> (r = [] \<or> hd r \<in> D)"
proof -
  let ?u = "dropWhile (\<lambda>c. c \<in> D) s"
  let ?t = "takeWhile (\<lambda>c. c \<notin> D) ?u" and ?r = "dropWhile (\<lambda>c. c \<notin> D) ?u"
  have "s = takeWhile (\<lambda>c. c \<in> D) s @ ?t @ ?r" by simp
  moreover have "set (takeWhile (\<lambda>c. c \<in> D) s) \<subseteq> D" "set ?t \<inter> D = {}" by (auto dest: set_takeWhileD)
  moreover have "?t \<noteq> []" using hd_dropWhile [OF assms] assms by (cases ?u) auto
  moreover have "?r = [] \<or> hd ?r \<in> D" using hd_dropWhile [of "\<lambda>c. c \<notin> D" ?u] by blast
  ultimately show ?thesis by blast
qed

lemma strtok_all_cstr:
  assumes "cstr m q ds" "cstr m p s" "q + length ds < p \<or> p + length s < q"
    and "(case x of None \<Rightarrow> save | Some y \<Rightarrow> Some y) = Some p"
  shows "\<exists>ps m'. strtok_all x q save m = Some (ps, m') \<and>
    list_all2 (\<lambda>t w. p \<le> t \<and> t + length w \<le> p + length s \<and> cstr m' t w) ps (tokens (set ds) s) \<and>
    (\<forall>a. a < p \<or> p + length s \<le> a \<longrightarrow> m' a = m a)"
  using assms
proof (induction "length s" arbitrary: s p m x save rule: less_induct)
  case less
  let ?D = "set ds"
  show ?case
  proof (cases "dropWhile (\<lambda>c. c \<in> ?D) s = []")
    case True
    then have "strtok_r x q save m = Some (None, Some (p + length s), m)"
      using strtok_skip_cstr [OF less.prems(1,2)] less.prems(4) True
      by (simp add: strtok_r_def) (metis takeWhile_eq_all_conv dropWhile_eq_Nil_conv)
    moreover have "tokens ?D s = []" by (subst tokens.simps) (simp only: True list.case)
    ultimately show ?thesis by (subst strtok_all.simps) simp
  next
    case False
    from split_tokens [OF this] obtain a t r where s: "s = a @ t @ r" "set a \<subseteq> ?D" "set t \<inter> ?D = {}" "t \<noteq> []" "r = [] \<or> hd r \<in> ?D"
      by blast
    let ?t = "p + length a" and ?e = "p + length a + length t"
    let ?p = "?e + (if r = [] then 0 else 1)" and ?m = "m(?e := 0)" and ?s = "tl r"
    have run: "strtok_r x q save m = Some (Some ?t, Some ?p, ?m)"
      by (rule strtok_r_cstr [OF less.prems(1,2) s less.prems(4)])
    have tk: "tokens ?D s = t # tokens ?D ?s"
      using tokens_step [OF s(2-5)] tokens_tl [of r ?D] s(1,5) by (cases "r = []") auto
    have "?m b = m b" if "q \<le> b" "b \<le> q + length ds" for b using that less.prems(3) s(1) by auto
    then have q: "cstr ?m q ds" using less.prems(1) cstr_cong [of q ds ?m m] by blast
    have p: "cstr ?m ?p ?s"
      using less.prems(2) unfolding s(1) cstr_append by (cases r) (auto simp: cstr_iff)
    have len: "?p + length ?s = p + length s" "length ?s < length s" using s(1,4) by (cases r, auto)+
    have "q + length ds < ?p \<or> ?p + length ?s < q" unfolding len using less.prems(3) by auto
    from less.hyps [OF len(2) q p this, of "Some ?p" None] obtain ps m' where
      IH: "strtok_all None q (Some ?p) ?m = Some (ps, m')"
      "list_all2 (\<lambda>t w. ?p \<le> t \<and> t + length w \<le> p + length s \<and> cstr m' t w) ps (tokens ?D ?s)"
      "\<forall>a. a < ?p \<or> p + length s \<le> a \<longrightarrow> m' a = ?m a"
      unfolding len(1) option.case by blast
    have end_: "m ?e = 0" if "r = []" using less.prems(2) that unfolding s(1) cstr_append by simp
    have first: "m' b = ?m b" if "b \<le> ?e" for b
      using IH(3) that s(1) by (cases "r = []") (auto simp: le_less)
    have body: "m (?t + i) = t ! i \<and> t ! i \<noteq> 0" if "i < length t" for i
      using less.prems(2) that unfolding s(1) cstr_append by simp
    then have "cstr m' ?t t" by (auto simp: cstr_iff first)
    moreover have "list_all2 (\<lambda>t w. p \<le> t \<and> t + length w \<le> p + length s \<and> cstr m' t w) ps (tokens ?D ?s)"
      using IH(2) by (rule list_all2_mono) auto
    moreover have "m' b = m b" if "b < p \<or> p + length s \<le> b" for b
    proof -
      have "m' b = ?m b" using IH(3) first that s(1) by (cases "b < p") (auto split: if_splits)
      then show ?thesis using that end_ s(1,4) by (cases "r = []") auto
    qed
    ultimately show ?thesis using run IH(1) tk s(1) by (subst strtok_all.simps) auto
  qed
qed

text \<open>
  (C19) Tokenising in place is correct: calling \<^verbatim>\<open>strtok_r\<close> until it returns a null pointer terminates,
  and the pointers it returned are, in the final memory, exactly the maximal pieces of the string without
  delimiters, in order; only bytes of the string itself are changed.
\<close>

theorem strtok_tokens:
  assumes "cstr m q ds" "cstr m p s" "q + length ds < p \<or> p + length s < q"
  shows "\<exists>ps m'. strtok_all (Some p) q None m = Some (ps, m') \<and>
    list_all2 (cstr m') ps (tokens (set ds) s) \<and> (\<forall>a. a < p \<or> p + length s \<le> a \<longrightarrow> m' a = m a)"
proof -
  obtain ps m' where tok: "strtok_all (Some p) q None m = Some (ps, m')"
    "list_all2 (\<lambda>t w. p \<le> t \<and> t + length w \<le> p + length s \<and> cstr m' t w) ps (tokens (set ds) s)"
    "\<forall>a. a < p \<or> p + length s \<le> a \<longrightarrow> m' a = m a"
    using strtok_all_cstr [OF assms, of None "Some p"] by auto
  moreover have "list_all2 (cstr m') ps (tokens (set ds) s)" using tok(2) by (rule list_all2_mono) simp
  ultimately show ?thesis using tok(1,3) by blast
qed

text \<open>The string "/a//b" at address 1, the delimiter "/" at address 8.\<close>

definition path_memory :: memory where
  "path_memory = (\<lambda>_. 0)(1 := 47, 2 := 97, 3 := 47, 4 := 47, 5 := 98, 8 := 47)"

lemma strtok_tokens_witness:
  "\<exists>t u m'. strtok_all (Some 1) 8 None path_memory = Some ([t, u], m') \<and> cstr m' t [97] \<and> cstr m' u [98]"
proof -
  have "cstr path_memory 8 [47]" "cstr path_memory 1 [47, 97, 47, 47, 98]" by (simp_all add: path_memory_def)
  from strtok_tokens [OF this] obtain ps m' where
    "strtok_all (Some 1) 8 None path_memory = Some (ps, m')" "list_all2 (cstr m') ps (tokens (set [47]) [47, 97, 47, 47, 98])"
    by auto
  moreover have "tokens (set [47]) [47, 97, 47, 47, 98] = [[97], [98]]" by (simp add: tokens.simps)
  ultimately show ?thesis by (auto simp: list_all2_Cons2)
qed

end
