(* ===== verification/Hash.thy ===== *)
theory Hash
  imports Maverick_Prelude "HOL-Library.Multiset"
begin

text \<open>
  The hash table of \<^verbatim>\<open>lib/kernel/hash.c\<close>: buckets of elements, grown and shrunk by \<^verbatim>\<open>rehash\<close> after every
  change. An element is the handle the caller embeds, with the fields its hash and comparison functions
  read; a bucket is the list of its elements, front first. Allocation of a new bucket array may fail, and
  then the old one stays. The results: under the contract on the two functions, every operation keeps
  the table well formed and acts as on a set of elements no two of which are equal; iteration
  visits each element once.
\<close>

section \<open>Tables\<close>

record 'e hash =
  elem_cnt :: nat
  bucket_cnt :: nat
  buckets :: "'e list list"
  hash_fn :: "'e \<Rightarrow> u32"
  less_fn :: "'e \<Rightarrow> 'e \<Rightarrow> bool"

definition find_bucket :: "'e hash \<Rightarrow> 'e \<Rightarrow> nat" where
  "find_bucket h e = unat (hash_fn h e) AND (bucket_cnt h - 1)"

definition find_elem :: "'e hash \<Rightarrow> nat \<Rightarrow> 'e \<Rightarrow> 'e option" where
  "find_elem h b e = find (\<lambda>hi. \<not> less_fn h hi e \<and> \<not> less_fn h e hi) (buckets h ! b)"

definition turn_off_least_1bit :: "nat \<Rightarrow> nat" where
  "turn_off_least_1bit x = x AND (x - 1)"

definition is_power_of_2 :: "nat \<Rightarrow> bool" where
  "is_power_of_2 x \<longleftrightarrow> x \<noteq> 0 \<and> turn_off_least_1bit x = 0"

lemma turn_off_less: "x \<noteq> 0 \<Longrightarrow> turn_off_least_1bit x < x"
proof -
  have "x AND (x - 1) \<le> x - 1" by (metis and_nat_def nat_le_iff of_nat_0_le_iff AND_upper2)
  then show "x \<noteq> 0 \<Longrightarrow> turn_off_least_1bit x < x" by (simp add: turn_off_least_1bit_def)
qed

definition MIN_BUCKETS :: nat where "MIN_BUCKETS = 4"
definition BEST_ELEMS_PER_BUCKET :: nat where "BEST_ELEMS_PER_BUCKET = 2"

text \<open>The loop that makes the bucket count a power of two.\<close>

function round_down_pow2 :: "nat \<Rightarrow> nat" where
  "round_down_pow2 n = (if n = 0 \<or> is_power_of_2 n then n else round_down_pow2 (turn_off_least_1bit n))"
  by pat_completeness auto
termination
  by (relation "measure (\<lambda>n. n)") (auto intro: turn_off_less)

declare round_down_pow2.simps [simp del]

definition list_push_front_at :: "nat \<Rightarrow> 'e \<Rightarrow> 'e list list \<Rightarrow> 'e list list" where
  "list_push_front_at b e bs = bs[b := e # bs ! b]"

text \<open>Moving the elements of the old buckets, in order, each to the front of its new bucket.\<close>

fun move_elems :: "'e list \<Rightarrow> 'e hash \<Rightarrow> 'e hash" where
  "move_elems [] h = h"
| "move_elems (e # es) h = move_elems es (h\<lparr>buckets := list_push_front_at (find_bucket h e) e (buckets h)\<rparr>)"

definition new_bucket_count :: "'e hash \<Rightarrow> nat" where
  "new_bucket_count h =
    (let n = elem_cnt h div BEST_ELEMS_PER_BUCKET in round_down_pow2 (if n < MIN_BUCKETS then MIN_BUCKETS else n))"

definition rehash :: "'e hash \<Rightarrow> 'a kmem_scheme \<Rightarrow> 'e hash \<times> 'a kmem_scheme" where
  "rehash h s =
    (let old_buckets = buckets h; old_bucket_cnt = bucket_cnt h; n = new_bucket_count h
     in if n = old_bucket_cnt then (h, s)
        else let (ok, s) = malloc s
          in if \<not> ok then (h, s)
             else (move_elems (concat (take old_bucket_cnt old_buckets)) (h\<lparr>buckets := replicate n [], bucket_cnt := n\<rparr>), s))"

definition insert_elem :: "nat \<Rightarrow> 'e \<Rightarrow> 'e hash \<Rightarrow> 'e hash" where
  "insert_elem b e h = h\<lparr>elem_cnt := elem_cnt h + 1, buckets := list_push_front_at b e (buckets h)\<rparr>"

text \<open>\<^verbatim>\<open>list_remove\<close> unlinks the element from the bucket it is in.\<close>

definition remove_elem :: "'e \<Rightarrow> 'e hash \<Rightarrow> 'e hash" where
  "remove_elem e h = h\<lparr>elem_cnt := elem_cnt h - 1, buckets := map (remove1 e) (buckets h)\<rparr>"

section \<open>Operations\<close>

text \<open>A destructor or an action is a function on whatever state it changes.\<close>

definition hash_clear :: "('e \<Rightarrow> 's \<Rightarrow> 's) option \<Rightarrow> 'e hash \<Rightarrow> 's \<Rightarrow> 'e hash \<times> 's" where
  "hash_clear destructor h st =
    (h\<lparr>buckets := map (\<lambda>_. []) (buckets h), elem_cnt := 0\<rparr>,
     case destructor of None \<Rightarrow> st | Some f \<Rightarrow> fold f (concat (buckets h)) st)"

definition hash_init :: "('e \<Rightarrow> u32) \<Rightarrow> ('e \<Rightarrow> 'e \<Rightarrow> bool) \<Rightarrow> 'a kmem_scheme \<Rightarrow> 'e hash option \<times> 'a kmem_scheme" where
  "hash_init hash lt s =
    (let (ok, s) = malloc s
     in (if ok then Some (fst (hash_clear None \<lparr>elem_cnt = 0, bucket_cnt = MIN_BUCKETS, buckets = replicate MIN_BUCKETS [],
             hash_fn = hash, less_fn = lt\<rparr> ())) else None, s))"

definition hash_destroy :: "('e \<Rightarrow> 's \<Rightarrow> 's) option \<Rightarrow> 'e hash \<Rightarrow> 's \<Rightarrow> 's" where
  "hash_destroy destructor h st = (if destructor \<noteq> None then snd (hash_clear destructor h st) else st)"

definition hash_insert :: "'e \<Rightarrow> 'e hash \<Rightarrow> 'a kmem_scheme \<Rightarrow> 'e option \<times> 'e hash \<times> 'a kmem_scheme" where
  "hash_insert new h s =
    (let bucket = find_bucket h new;
         old = find_elem h bucket new;
         h = (if old = None then insert_elem bucket new h else h)
     in (old, rehash h s))"

definition hash_replace :: "'e \<Rightarrow> 'e hash \<Rightarrow> 'a kmem_scheme \<Rightarrow> 'e option \<times> 'e hash \<times> 'a kmem_scheme" where
  "hash_replace new h s =
    (let bucket = find_bucket h new;
         old = find_elem h bucket new;
         h = (case old of Some x \<Rightarrow> remove_elem x h | None \<Rightarrow> h);
         h = insert_elem bucket new h
     in (old, rehash h s))"

definition hash_find :: "'e \<Rightarrow> 'e hash \<Rightarrow> 'e option" where
  "hash_find e h = find_elem h (find_bucket h e) e"

definition hash_delete :: "'e \<Rightarrow> 'e hash \<Rightarrow> 'a kmem_scheme \<Rightarrow> 'e option \<times> 'e hash \<times> 'a kmem_scheme" where
  "hash_delete e h s =
    (case find_elem h (find_bucket h e) e of
       Some x \<Rightarrow> (Some x, rehash (remove_elem x h) s)
     | None \<Rightarrow> (None, h, s))"

definition hash_apply :: "('e \<Rightarrow> 's \<Rightarrow> 's) \<Rightarrow> 'e hash \<Rightarrow> 's \<Rightarrow> 's" where
  "hash_apply action h st = fold (\<lambda>bucket. fold action bucket) (take (bucket_cnt h) (buckets h)) st"

definition hash_size :: "'e hash \<Rightarrow> nat" where
  "hash_size h = elem_cnt h"

definition hash_empty :: "'e hash \<Rightarrow> bool" where
  "hash_empty h \<longleftrightarrow> elem_cnt h = 0"

text \<open>
  An iterator stands at an element of a bucket: 0 is the list head, \<open>i + 1\<close> the \<open>i\<close>-th element,
  \<open>length + 1\<close> the tail; \<open>None\<close> is the null pointer at the end of the table.
\<close>

record hash_iterator =
  it_bucket :: nat
  it_elem :: "nat option"

definition hash_first :: hash_iterator where
  "hash_first = \<lparr>it_bucket = 0, it_elem = Some 0\<rparr>"

function hash_next_bucket :: "'e hash \<Rightarrow> nat \<Rightarrow> nat \<Rightarrow> hash_iterator" where
  "hash_next_bucket h b i =
    (if i = length (buckets h ! b) + 1
     then if b + 1 \<ge> bucket_cnt h then \<lparr>it_bucket = b + 1, it_elem = None\<rparr> else hash_next_bucket h (b + 1) 1
     else \<lparr>it_bucket = b, it_elem = Some i\<rparr>)"
  by pat_completeness auto
termination
  by (relation "measure (\<lambda>(h, b, i). bucket_cnt h - b)") auto

declare hash_next_bucket.simps [simp del]

definition hash_cur :: "'e hash \<Rightarrow> hash_iterator \<Rightarrow> 'e option" where
  "hash_cur h it = map_option (\<lambda>i. buckets h ! it_bucket it ! (i - 1)) (it_elem it)"

definition hash_next :: "'e hash \<Rightarrow> hash_iterator \<Rightarrow> ('e option \<times> hash_iterator) option" where
  "hash_next h it = do {
     i \<leftarrow> it_elem it;
     let it = hash_next_bucket h (it_bucket it) (i + 1);
     Some (hash_cur h it, it)
   }"

section \<open>Hash functions\<close>

definition FNV_32_PRIME :: u32 where "FNV_32_PRIME = 16777619"
definition FNV_32_BASIS :: u32 where "FNV_32_BASIS = 2166136261"

definition hash_bytes :: "byte list \<Rightarrow> u32" where
  "hash_bytes buf = foldl (\<lambda>hash b. (hash * FNV_32_PRIME) XOR ucast b) FNV_32_BASIS buf"

definition hash_string :: "byte list \<Rightarrow> u32" where
  "hash_string s = foldl (\<lambda>hash b. (hash * FNV_32_PRIME) XOR ucast b) FNV_32_BASIS (takeWhile (\<lambda>c. c \<noteq> 0) s)"

definition hash_int :: "u32 \<Rightarrow> u32" where
  "hash_int i = hash_bytes (le_bytes 4 i)"

section \<open>Well-formed tables\<close>

lemma and_le: "a AND b \<le> b" for a b :: nat
  by (metis and_nat_def nat_le_iff of_nat_0_le_iff AND_upper2)

definition equal_elems :: "'e hash \<Rightarrow> 'e \<Rightarrow> 'e \<Rightarrow> bool" where
  "equal_elems h a b \<longleftrightarrow> \<not> less_fn h a b \<and> \<not> less_fn h b a"

text \<open>What the caller promises: equality is an equivalence, and equal elements have equal hashes.\<close>

definition hash_contract :: "('e \<Rightarrow> u32) \<Rightarrow> ('e \<Rightarrow> 'e \<Rightarrow> bool) \<Rightarrow> bool" where
  "hash_contract hash lt \<longleftrightarrow> (\<forall>a. \<not> lt a a) \<and>
    (\<forall>a b c. \<not> lt a b \<and> \<not> lt b a \<and> \<not> lt b c \<and> \<not> lt c b \<longrightarrow> \<not> lt a c \<and> \<not> lt c a) \<and>
    (\<forall>a b. \<not> lt a b \<and> \<not> lt b a \<longrightarrow> hash a = hash b)"

text \<open>The class of an element: the elements equal to it.\<close>

definition cls :: "'e hash \<Rightarrow> 'e \<Rightarrow> 'e set" where
  "cls h e = {x. equal_elems h e x}"

definition elems :: "'e hash \<Rightarrow> 'e list" where
  "elems h = concat (buckets h)"

definition hash_inv :: "'e hash \<Rightarrow> bool" where
  "hash_inv h \<longleftrightarrow> hash_contract (hash_fn h) (less_fn h) \<and> 0 < bucket_cnt h \<and> length (buckets h) = bucket_cnt h \<and>
    elem_cnt h = length (elems h) \<and> distinct (map (cls h) (elems h)) \<and>
    (\<forall>b < bucket_cnt h. \<forall>e \<in> set (buckets h ! b). find_bucket h e = b)"

lemma equal_elems_sym: "equal_elems h a b = equal_elems h b a"
  by (auto simp: equal_elems_def)

lemma equal_elems_trans:
  assumes "hash_contract (hash_fn h) (less_fn h)" "equal_elems h a b" "equal_elems h b c"
  shows "equal_elems h a c"
  using assms(1) [unfolded hash_contract_def, THEN conjunct2, THEN conjunct1, rule_format, of a b c] assms(2,3)
  by (simp add: equal_elems_def)

lemma cls_eq_iff:
  assumes "hash_contract (hash_fn h) (less_fn h)"
  shows "cls h a = cls h b \<longleftrightarrow> equal_elems h a b"
proof
  assume "cls h a = cls h b"
  moreover have "b \<in> cls h b"
    using assms [unfolded hash_contract_def, THEN conjunct1, rule_format, of b] by (simp add: cls_def equal_elems_def)
  ultimately have "b \<in> cls h a" by simp
  then show "equal_elems h a b" by (simp add: cls_def)
next
  assume ab: "equal_elems h a b"
  then have ba: "equal_elems h b a" by (simp add: equal_elems_sym)
  have "equal_elems h a x = equal_elems h b x" for x
    using equal_elems_trans [OF assms ab, of x] equal_elems_trans [OF assms ba, of x] by blast
  then show "cls h a = cls h b" by (simp add: cls_def)
qed

lemma find_bucket_less: "hash_inv h \<Longrightarrow> find_bucket h e < bucket_cnt h"
  unfolding find_bucket_def hash_inv_def by (rule le_less_trans [OF and_le]) simp

lemma find_bucket_cls:
  assumes "hash_contract (hash_fn h) (less_fn h)" "cls h a = cls h b"
  shows "find_bucket h a = find_bucket h b"
proof -
  have "equal_elems h a b" using assms(2) unfolding cls_eq_iff [OF assms(1)] .
  then have "hash_fn h a = hash_fn h b"
    using assms(1) [unfolded hash_contract_def, THEN conjunct2, THEN conjunct2, rule_format, of a b]
    by (simp add: equal_elems_def)
  then show ?thesis by (simp add: find_bucket_def)
qed

lemma elems_iff: "length (buckets h) = n \<Longrightarrow> e \<in> set (elems h) \<longleftrightarrow> (\<exists>b < n. e \<in> set (buckets h ! b))"
  by (auto simp: elems_def in_set_conv_nth [of _ "buckets h"]) (metis nth_mem)

text \<open>The bucket of \<open>e\<close> holds exactly the elements of the table that hash there.\<close>

lemma bucket_elems:
  assumes "hash_inv h"
  shows "x \<in> set (buckets h ! find_bucket h e) \<longleftrightarrow> x \<in> set (elems h) \<and> find_bucket h x = find_bucket h e"
  using assms find_bucket_less [OF assms] elems_iff [of h "bucket_cnt h" x] unfolding hash_inv_def by metis

text \<open>The table as a map from classes to elements.\<close>

definition abs_map :: "'e hash \<Rightarrow> 'e set \<Rightarrow> 'e option" where
  "abs_map h = map_of (map (\<lambda>x. (cls h x, x)) (elems h))"

lemma abs_map_Some:
  "hash_inv h \<Longrightarrow> abs_map h c = Some x \<longleftrightarrow> x \<in> set (elems h) \<and> cls h x = c"
  unfolding abs_map_def hash_inv_def by (subst map_of_eq_Some_iff) (auto simp: o_def)

lemma hash_find_abs:
  assumes "hash_inv h"
  shows "hash_find e h = abs_map h (cls h e)"
proof -
  have c: "hash_contract (hash_fn h) (less_fn h)" using assms by (simp add: hash_inv_def)
  have eq: "\<not> less_fn h x e \<and> \<not> less_fn h e x \<longleftrightarrow> cls h x = cls h e" for x
    using cls_eq_iff [OF c, of x e] by (simp add: equal_elems_def)
  show ?thesis
  proof (cases "hash_find e h")
    case None
    then have "\<not> (x \<in> set (elems h) \<and> cls h x = cls h e)" for x
      using find_bucket_cls [OF c, of x e] bucket_elems [OF assms, of x e]
      by (auto simp: hash_find_def find_elem_def find_None_iff eq)
    then show ?thesis using None abs_map_Some [OF assms] by (metis not_None_eq)
  next
    case (Some x)
    then have "x \<in> set (buckets h ! find_bucket h e)" "cls h x = cls h e"
      unfolding hash_find_def find_elem_def eq find_Some_iff by auto
    then have "abs_map h (cls h e) = Some x" using abs_map_Some [OF assms] bucket_elems [OF assms, of x e] by blast
    then show ?thesis using Some by simp
  qed
qed

section \<open>Changing a table\<close>

lemma mset_push_front:
  "b < length bs \<Longrightarrow> mset (concat (list_push_front_at b e bs)) = add_mset e (mset (concat bs))"
proof -
  assume "b < length bs"
  then have "bs = take b bs @ bs ! b # drop (Suc b) bs" by (rule id_take_nth_drop)
  moreover from \<open>b < length bs\<close> have "list_push_front_at b e bs = take b bs @ (e # bs ! b) # drop (Suc b) bs"
    by (simp add: list_push_front_at_def upd_conv_take_nth_drop)
  ultimately show ?thesis by (metis (no_types, lifting) concat.simps(2) concat_append mset_append mset.simps(2)
      append_Cons union_mset_add_mset_right)
qed

lemma cls_cong: "less_fn h' = less_fn h \<Longrightarrow> cls h' = cls h"
  by (rule ext) (simp add: cls_def equal_elems_def)

text \<open>\<open>placed h\<close>: the part of the invariant about where elements are.\<close>

definition placed :: "'e hash \<Rightarrow> bool" where
  "placed h \<longleftrightarrow> 0 < bucket_cnt h \<and> length (buckets h) = bucket_cnt h \<and>
    (\<forall>b < bucket_cnt h. \<forall>e \<in> set (buckets h ! b). find_bucket h e = b)"

lemma placed_push:
  fixes e :: 'e
  assumes "placed h"
  defines "h' \<equiv> h\<lparr>buckets := list_push_front_at (find_bucket h e) e (buckets h)\<rparr>"
  shows "placed h'" "mset (elems h') = add_mset e (mset (elems h))"
proof -
  have "find_bucket h e < bucket_cnt h"
    using assms(1) unfolding find_bucket_def placed_def by (intro le_less_trans [OF and_le]) simp
  moreover have "find_bucket h' = find_bucket h" by (rule ext) (simp add: find_bucket_def h'_def)
  ultimately show "placed h'" "mset (elems h') = add_mset e (mset (elems h))"
    using assms(1) by (auto simp: placed_def h'_def list_push_front_at_def nth_list_update elems_def
        mset_push_front [unfolded list_push_front_at_def])
qed

lemma move_elems_placed:
  "placed h \<Longrightarrow> placed (move_elems es h) \<and> mset (elems (move_elems es h)) = mset es + mset (elems h) \<and>
    less_fn (move_elems es h) = less_fn h \<and> hash_fn (move_elems es h) = hash_fn h \<and> elem_cnt (move_elems es h) = elem_cnt h"
proof (induction es arbitrary: h)
  case (Cons e es)
  show ?case using Cons.IH [OF placed_push(1) [OF Cons.prems, of e]] placed_push(2) [OF Cons.prems, of e] by simp
qed simp

lemma round_down_pow2_pos: "0 < n \<Longrightarrow> is_power_of_2 (round_down_pow2 n) \<and> round_down_pow2 n \<le> n"
proof (induction n rule: round_down_pow2.induct)
  case (1 n)
  show ?case
  proof (cases "is_power_of_2 n")
    case False
    then have "0 < turn_off_least_1bit n" using 1(2) by (simp add: is_power_of_2_def)
    then show ?thesis using 1 False turn_off_less [of n] by (subst (1 2) round_down_pow2.simps) simp
  qed (simp add: round_down_pow2.simps)
qed

lemma hash_inv_placed:
  "hash_inv h \<longleftrightarrow> hash_contract (hash_fn h) (less_fn h) \<and> placed h \<and> elem_cnt h = length (elems h) \<and> distinct (map (cls h) (elems h))"
  by (auto simp: hash_inv_def placed_def)

text \<open>Two tables with the same functions and the same elements are the same map.\<close>

lemma abs_map_eqI:
  assumes "hash_inv h" "hash_inv h'" "less_fn h' = less_fn h" "set (elems h') = set (elems h)"
  shows "abs_map h' = abs_map h"
proof (rule ext)
  fix c
  have "abs_map h' c = Some x \<longleftrightarrow> abs_map h c = Some x" for x
    using abs_map_Some [OF assms(1)] abs_map_Some [OF assms(2)] cls_cong [OF assms(3)] assms(4) by simp
  then show "abs_map h' c = abs_map h c" by (metis not_None_eq)
qed

lemma rehash_ok:
  assumes "hash_inv h"
  shows "\<exists>h' s'. rehash h s = (h', s') \<and> hash_inv h' \<and> abs_map h' = abs_map h \<and> less_fn h' = less_fn h"
proof -
  define n where "n = new_bucket_count h"
  have "0 < n" using round_down_pow2_pos [of "if elem_cnt h div 2 < 4 then 4 else elem_cnt h div 2"]
    by (auto simp: n_def new_bucket_count_def MIN_BUCKETS_def BEST_ELEMS_PER_BUCKET_def Let_def is_power_of_2_def)
  define h0 where "h0 = h\<lparr>buckets := replicate n [], bucket_cnt := n\<rparr>"
  let ?h = "move_elems (elems h) h0"
  have "placed h0" "elems h0 = []" using \<open>0 < n\<close> by (simp_all add: placed_def h0_def elems_def)
  then have mv: "placed ?h" "mset (elems ?h) = mset (elems h)" "less_fn ?h = less_fn h" "hash_fn ?h = hash_fn h" "elem_cnt ?h = elem_cnt h"
    using move_elems_placed [of h0 "elems h"] by (simp_all add: h0_def)
  have "distinct (map (cls h) (elems ?h)) = distinct (map (cls h) (elems h))"
    by (rule mset_eq_imp_distinct_iff) (simp add: mv(2))
  then have inv: "hash_inv ?h"
    using assms mv cls_cong [OF mv(3)] mset_eq_length [OF mv(2)] unfolding hash_inv_placed by simp
  moreover have "abs_map ?h = abs_map h" using abs_map_eqI [OF assms inv mv(3)] mset_eq_setD [OF mv(2)] by blast
  moreover have "concat (take (bucket_cnt h) (buckets h)) = elems h" using assms by (simp add: hash_inv_def elems_def)
  ultimately show ?thesis
    using assms mv(3) by (auto simp: rehash_def Let_def malloc_def n_def h0_def)
qed

lemma insert_elem_ok:
  assumes "hash_inv h" "abs_map h (cls h e) = None"
  defines "h' \<equiv> insert_elem (find_bucket h e) e h"
  shows "hash_inv h'" "abs_map h' = (abs_map h)(cls h e \<mapsto> e)" "less_fn h' = less_fn h"
proof -
  let ?p = "h\<lparr>buckets := list_push_front_at (find_bucket h e) e (buckets h)\<rparr>"
  have "placed h" using assms(1) by (simp add: hash_inv_placed)
  note push = placed_push [OF this, of e]
  have h': "h' = ?p\<lparr>elem_cnt := elem_cnt h + 1\<rparr>" by (simp add: h'_def insert_elem_def)
  have el: "elems h' = elems ?p" "less_fn h' = less_fn h" "hash_fn h' = hash_fn h" "placed h' = placed ?p"
    by (auto simp: h' elems_def placed_def find_bucket_def)
  show "less_fn h' = less_fn h" by (rule el(2))
  note c = cls_cong [OF el(2)]
  have ms: "mset (elems h') = add_mset e (mset (elems h))" using push(2) el(1) by simp
  have "distinct (map (cls h) (elems h')) = distinct (map (cls h) (e # elems h))"
    by (rule mset_eq_imp_distinct_iff) (simp add: ms)
  moreover have new: "cls h e \<notin> cls h ` set (elems h)"
  proof
    assume "cls h e \<in> cls h ` set (elems h)"
    then obtain x where "x \<in> set (elems h)" "cls h x = cls h e" by auto
    then have "abs_map h (cls h e) = Some x" using abs_map_Some [OF assms(1)] by blast
    with assms(2) show False by simp
  qed
  ultimately show inv: "hash_inv h'"
    using assms(1) push(1) el mset_eq_length [of "elems h'" "e # elems h"] ms c unfolding hash_inv_placed by (simp add: h')
  have set: "set (elems h') = insert e (set (elems h))" using ms by (metis mset.simps(2) mset_eq_setD list.simps(15))
  show "abs_map h' = (abs_map h)(cls h e \<mapsto> e)"
  proof (rule ext)
    fix k
    have "abs_map h' k = Some x \<longleftrightarrow> ((abs_map h)(cls h e \<mapsto> e)) k = Some x" for x
      using abs_map_Some [OF inv, of k x] abs_map_Some [OF assms(1), of k x] c set new by auto
    then show "abs_map h' k = ((abs_map h)(cls h e \<mapsto> e)) k" by (metis not_None_eq)
  qed
qed

lemma mset_remove_elem:
  "distinct (concat bs) \<Longrightarrow> mset (concat (map (remove1 x) bs)) = mset (concat bs) - {#x#}"
proof (induction bs)
  case (Cons b bs)
  show ?case
  proof (cases "x \<in> set b")
    case True
    then have "map (remove1 x) bs = bs" using Cons.prems by (intro map_idI remove1_idem) auto
    moreover have "mset b - {#x#} + mset (concat bs) = mset b + mset (concat bs) - {#x#}"
      using True by (intro multiset_eqI) (auto simp: Suc_le_eq)
    ultimately show ?thesis by simp
  next
    case False
    have "mset (concat (map (remove1 x) bs)) = mset (concat bs) - {#x#}" using Cons by simp
    moreover have "mset b + (mset (concat bs) - {#x#}) = mset b + mset (concat bs) - {#x#}"
      using False by (intro multiset_eqI) (auto simp: count_eq_zero_iff [THEN iffD2])
    ultimately show ?thesis using False by (simp add: remove1_idem)
  qed
qed simp

lemma remove_elem_ok:
  assumes "hash_inv h" "abs_map h k = Some x"
  defines "h' \<equiv> remove_elem x h"
  shows "hash_inv h'" "abs_map h' = (abs_map h)(k := None)" "less_fn h' = less_fn h" "find_bucket h' = find_bucket h"
proof -
  have x: "x \<in> set (elems h)" "cls h x = k" using assms(2) abs_map_Some [OF assms(1)] by auto
  have dc: "distinct (map (cls h) (elems h))" using assms(1) by (simp add: hash_inv_def)
  then have d: "distinct (elems h)" by (simp add: distinct_map)
  have ms: "mset (elems h') = mset (elems h) - {#x#}"
    using mset_remove_elem [OF d [unfolded elems_def], of x] by (simp add: h'_def remove_elem_def elems_def)
  then have ms': "mset (elems h') = mset (remove1 x (elems h))" by simp
  show fns: "less_fn h' = less_fn h" "find_bucket h' = find_bucket h" by (auto simp: h'_def remove_elem_def find_bucket_def)
  note c = cls_cong [OF fns(1)]
  have set: "set (elems h') = set (elems h) - {x}" using mset_eq_setD [OF ms'] d by simp
  have b: "bucket_cnt h' = bucket_cnt h" "buckets h' = map (remove1 x) (buckets h)" by (simp_all add: h'_def remove_elem_def)
  have "placed h" using assms(1) by (simp add: hash_inv_placed)
  then have "placed h'" unfolding placed_def fns(2) b by (auto dest!: set_remove1_subset [THEN subsetD])
  moreover have "distinct (map (cls h) (elems h'))"
  proof -
    have "distinct (map (cls h) (remove1 x (elems h)))"
      using dc d by (simp add: distinct_map inj_on_diff)
    then show ?thesis using mset_eq_imp_distinct_iff [of "map (cls h) (elems h')" "map (cls h) (remove1 x (elems h))"] ms' by simp
  qed
  moreover have "length (elems h') = length (elems h) - 1"
    using mset_eq_length [OF ms'] x(1) by (simp add: length_remove1)
  ultimately show inv: "hash_inv h'"
    using assms(1) c fns(1) unfolding hash_inv_placed by (simp add: h'_def remove_elem_def)
  show "abs_map h' = (abs_map h)(k := None)"
  proof (rule ext)
    fix j
    have "abs_map h' j = Some y \<longleftrightarrow> ((abs_map h)(k := None)) j = Some y" for y
      using abs_map_Some [OF inv, of j y] abs_map_Some [OF assms(1), of j y] c set x assms(2) abs_map_Some [OF assms(1), of k y]
      by auto
    then show "abs_map h' j = ((abs_map h)(k := None)) j" by (metis not_None_eq)
  qed
qed

section \<open>The table as a map\<close>

datatype 'e table_op = Insert 'e | Replace 'e | Find 'e | Delete 'e

fun hash_op :: "'e table_op \<Rightarrow> 'e hash \<Rightarrow> 'a kmem_scheme \<Rightarrow> 'e option \<times> 'e hash \<times> 'a kmem_scheme" where
  "hash_op (Insert e) h s = hash_insert e h s"
| "hash_op (Replace e) h s = hash_replace e h s"
| "hash_op (Find e) h s = (hash_find e h, h, s)"
| "hash_op (Delete e) h s = hash_delete e h s"

fun hash_run :: "'e table_op list \<Rightarrow> 'e hash \<Rightarrow> 'a kmem_scheme \<Rightarrow> 'e option list \<times> 'e hash \<times> 'a kmem_scheme" where
  "hash_run [] h s = ([], h, s)"
| "hash_run (p # ps) h s = (let (r, h, s) = hash_op p h s; (rs, h, s) = hash_run ps h s in (r # rs, h, s))"

text \<open>The specification: a map from classes of equal elements to the element stored.\<close>

fun map_op :: "('e \<Rightarrow> 'k) \<Rightarrow> 'e table_op \<Rightarrow> ('k \<rightharpoonup> 'e) \<Rightarrow> 'e option \<times> ('k \<rightharpoonup> 'e)" where
  "map_op key (Insert e) m = (m (key e), if m (key e) = None then m(key e \<mapsto> e) else m)"
| "map_op key (Replace e) m = (m (key e), m(key e \<mapsto> e))"
| "map_op key (Find e) m = (m (key e), m)"
| "map_op key (Delete e) m = (m (key e), m(key e := None))"

fun map_run :: "('e \<Rightarrow> 'k) \<Rightarrow> 'e table_op list \<Rightarrow> ('k \<rightharpoonup> 'e) \<Rightarrow> 'e option list \<times> ('k \<rightharpoonup> 'e)" where
  "map_run key [] m = ([], m)"
| "map_run key (p # ps) m = (let (r, m) = map_op key p m; (rs, m) = map_run key ps m in (r # rs, m))"

lemma find_elem_abs: "hash_inv h \<Longrightarrow> find_elem h (find_bucket h e) e = abs_map h (cls h e)"
  using hash_find_abs [of h e] by (simp add: hash_find_def)

lemma rehash_after:
  assumes "hash_inv g" "less_fn g = less_fn h" "abs_map g = m"
  shows "\<exists>h' s'. (r, rehash g s) = (r, h', s') \<and> hash_inv h' \<and> abs_map h' = m \<and> cls h' = cls h"
proof -
  obtain h' s' where "rehash g s = (h', s')" "hash_inv h'" "abs_map h' = abs_map g" "less_fn h' = less_fn g"
    using rehash_ok [OF assms(1)] by blast
  then show ?thesis using assms(2,3) cls_cong [of h' h] by simp
qed

lemma hash_op_abs:
  assumes "hash_inv h"
  shows "\<exists>h' s'. hash_op p h s = (fst (map_op (cls h) p (abs_map h)), h', s') \<and> hash_inv h' \<and>
    abs_map h' = snd (map_op (cls h) p (abs_map h)) \<and> cls h' = cls h"
proof (cases p)
  case (Insert e)
  show ?thesis
  proof (cases "abs_map h (cls h e)")
    case None
    have "hash_insert e h s = (None, rehash (insert_elem (find_bucket h e) e h) s)"
      by (simp add: hash_insert_def find_elem_abs [OF assms] None)
    then show ?thesis using rehash_after [OF insert_elem_ok(1,3,2) [OF assms None]] Insert None by simp
  next
    case (Some x)
    have "hash_insert e h s = (Some x, rehash h s)" by (simp add: hash_insert_def find_elem_abs [OF assms] Some)
    then show ?thesis using rehash_after [OF assms refl refl] Insert Some by simp
  qed
next
  case (Replace e)
  show ?thesis
  proof (cases "abs_map h (cls h e)")
    case None
    have "hash_replace e h s = (None, rehash (insert_elem (find_bucket h e) e h) s)"
      by (simp add: hash_replace_def find_elem_abs [OF assms] None)
    then show ?thesis using rehash_after [OF insert_elem_ok(1,3,2) [OF assms None]] Replace None by simp
  next
    case (Some x)
    let ?g = "remove_elem x h"
    note rm = remove_elem_ok [OF assms Some]
    have c: "cls ?g = cls h" by (rule cls_cong [OF rm(3)])
    have none: "abs_map ?g (cls ?g e) = None" using rm(2) c by simp
    note ins = insert_elem_ok [OF rm(1) none, unfolded rm(4) c]
    have "hash_replace e h s = (Some x, rehash (insert_elem (find_bucket h e) e ?g) s)"
      by (simp add: hash_replace_def find_elem_abs [OF assms] Some)
    then show ?thesis using rehash_after [OF ins(1) _ ins(2), of h] ins(3) rm(2,3) Replace Some by simp
  qed
next
  case (Find e)
  then show ?thesis using assms hash_find_abs [OF assms, of e] by simp
next
  case (Delete e)
  show ?thesis
  proof (cases "abs_map h (cls h e)")
    case None
    then have "(abs_map h)(cls h e := None) = abs_map h" by auto
    then show ?thesis using Delete None assms by (simp add: hash_delete_def find_elem_abs [OF assms])
  next
    case (Some x)
    note rm = remove_elem_ok [OF assms Some]
    have "hash_delete e h s = (Some x, rehash (remove_elem x h) s)"
      by (simp add: hash_delete_def find_elem_abs [OF assms] Some)
    then show ?thesis using rehash_after [OF rm(1,3,2)] Delete Some by simp
  qed
qed

lemma hash_run_abs:
  assumes "hash_inv h"
  shows "\<exists>h' s'. hash_run ps h s = (fst (map_run (cls h) ps (abs_map h)), h', s') \<and> hash_inv h' \<and>
    abs_map h' = snd (map_run (cls h) ps (abs_map h)) \<and> cls h' = cls h"
  using assms
proof (induction ps arbitrary: h s)
  case (Cons p ps)
  obtain h1 s1 where 1: "hash_op p h s = (fst (map_op (cls h) p (abs_map h)), h1, s1)" "hash_inv h1"
    "abs_map h1 = snd (map_op (cls h) p (abs_map h))" "cls h1 = cls h"
    using hash_op_abs [OF Cons.prems] by blast
  obtain h2 s2 where "hash_run ps h1 s1 = (fst (map_run (cls h1) ps (abs_map h1)), h2, s2)" "hash_inv h2"
    "abs_map h2 = snd (map_run (cls h1) ps (abs_map h1))" "cls h2 = cls h1"
    using Cons.IH [OF 1(2)] by blast
  then show ?case using 1 by (simp add: case_prod_beta Let_def)
qed simp

lemma hash_init_ok:
  assumes "hash_contract hash lt" "hash_init hash lt s = (Some h, s')"
  shows "hash_inv h" "abs_map h = Map.empty" "less_fn h = lt"
  using assms by (auto simp: hash_init_def hash_clear_def malloc_def hash_inv_def elems_def abs_map_def MIN_BUCKETS_def
      split: if_splits)

lemma hash_size_abs: "hash_inv h \<Longrightarrow> hash_size h = card (dom (abs_map h))"
proof -
  assume inv: "hash_inv h"
  have "dom (abs_map h) = set (map (cls h) (elems h))" by (simp add: abs_map_def dom_map_of_conv_image_fst image_image)
  moreover have "distinct (map (cls h) (elems h))" using inv by (simp add: hash_inv_def)
  ultimately show ?thesis using inv distinct_card [of "map (cls h) (elems h)"] by (simp add: hash_size_def hash_inv_def)
qed

text \<open>
  (C22) The hash table is a finite map: after any sequence of insertions, replacements, searches and
  deletions on a new table, with any pattern of failing allocations in between, every call returned what
  the same call returns on a map from classes of equal elements to elements, the table holds that map,
  and its size is the number of entries. The caller's functions must agree: equality is an equivalence
  and equal elements have equal hash values.
\<close>

theorem hash_refines_map:
  assumes "hash_contract hash lt" "hash_init hash lt s = (Some h, s')" "hash_run ps h s' = (rs, h', s'')"
  shows "\<exists>m. map_run (\<lambda>e. {x. \<not> lt e x \<and> \<not> lt x e}) ps Map.empty = (rs, m) \<and>
    hash_size h' = card (dom m) \<and> (\<forall>e. hash_find e h' = m {x. \<not> lt e x \<and> \<not> lt x e})"
proof -
  note init = hash_init_ok [OF assms(1,2)]
  have key: "cls h = (\<lambda>e. {x. \<not> lt e x \<and> \<not> lt x e})" by (rule ext) (simp add: cls_def equal_elems_def init(3))
  have run: "rs = fst (map_run (cls h) ps Map.empty)" "hash_inv h'" "abs_map h' = snd (map_run (cls h) ps Map.empty)" "cls h' = cls h"
    using hash_run_abs [OF init(1), of ps s'] assms(3) init(2) by auto
  then show ?thesis
    using hash_size_abs [OF run(2)] hash_find_abs [OF run(2)] key
    by (intro exI [of _ "abs_map h'"]) (simp add: prod_eq_iff)
qed

definition sample_kmem :: kmem where
  "sample_kmem = \<lparr>oom = (\<lambda>_. False), mallocs = 0\<rparr>"

lemma hash_refines_map_witness:
  "\<exists>h s h' s'. hash_init (\<lambda>x. x) (\<lambda>a b. a < b) sample_kmem = (Some h, s) \<and>
     hash_run [Insert 5, Insert 5, Delete 7, Insert (9 :: u32)] h s = ([None, Some 5, None, None], h', s') \<and> hash_size h' = 2"
proof -
  obtain h s where h: "hash_init (\<lambda>x. x) (\<lambda>a b. a < b) sample_kmem = (Some h, s)"
    by (simp add: hash_init_def malloc_def sample_kmem_def)
  obtain rs h' s' where run: "hash_run [Insert 5, Insert 5, Delete 7, Insert (9 :: u32)] h s = (rs, h', s')"
    by (rule prod_cases3)
  have key: "{x. \<not> e < x \<and> \<not> x < e} = {e}" for e :: u32 by auto
  have "hash_contract (\<lambda>x :: u32. x) (\<lambda>a b. a < b)" by (auto simp: hash_contract_def)
  from hash_refines_map [OF this h run] obtain m where
    m: "map_run (\<lambda>e :: u32. {e}) [Insert 5, Insert 5, Delete 7, Insert 9] Map.empty = (rs, m)" "hash_size h' = card (dom m)"
    unfolding key by blast
  then have rs: "rs = [None, Some 5, None, None]" and "m = [{5} \<mapsto> 5, {9} \<mapsto> 9]" by auto
  then have "dom m = {{9}, {5}}" by simp
  then show ?thesis using h run m(2) rs by auto
qed

section \<open>Iteration\<close>

text \<open>What is still to come after an iterator.\<close>

definition iter_rest :: "'e hash \<Rightarrow> hash_iterator \<Rightarrow> 'e list" where
  "iter_rest h it = (case it_elem it of None \<Rightarrow> []
     | Some i \<Rightarrow> drop i (buckets h ! it_bucket it) @ concat (drop (Suc (it_bucket it)) (buckets h)))"

primrec hash_nexts :: "nat \<Rightarrow> 'e hash \<Rightarrow> hash_iterator \<Rightarrow> 'e option list option" where
  "hash_nexts 0 h it = Some []"
| "hash_nexts (Suc n) h it = do { (r, it) \<leftarrow> hash_next h it; rs \<leftarrow> hash_nexts n h it; Some (r # rs) }"

lemma hash_next_bucket_rest:
  assumes "b < bucket_cnt h" "length (buckets h) = bucket_cnt h" "1 \<le> i" "i \<le> length (buckets h ! b) + 1"
  defines "rest \<equiv> drop (i - 1) (buckets h ! b) @ concat (drop (Suc b) (buckets h))"
    and "it \<equiv> hash_next_bucket h b i"
  shows "(case rest of [] \<Rightarrow> it_elem it = None
    | e # es \<Rightarrow> hash_cur h it = Some e \<and> iter_rest h it = es \<and> it_bucket it < bucket_cnt h \<and>
        (\<exists>j \<le> length (buckets h ! it_bucket it). it_elem it = Some j))"
  using assms(1,3,4) unfolding rest_def it_def
proof (induction "bucket_cnt h - b" arbitrary: b i rule: less_induct)
  case less
  show ?case
  proof (cases "i = length (buckets h ! b) + 1")
    case False
    then obtain k where k: "i = Suc k" "k < length (buckets h ! b)" using less.prems by (cases i) auto
    then have "drop k (buckets h ! b) = buckets h ! b ! k # drop (Suc k) (buckets h ! b)" by (simp add: Cons_nth_drop_Suc)
    then show ?thesis using k less.prems(1) False
      by (subst (1 2 3 4 5 6) hash_next_bucket.simps) (simp add: hash_cur_def iter_rest_def)
  next
    case True
    show ?thesis
    proof (cases "b + 1 \<ge> bucket_cnt h")
      case True
      then have "drop (Suc b) (buckets h) = []" using assms(2) by simp
      then show ?thesis using \<open>i = length (buckets h ! b) + 1\<close> True
        by (subst hash_next_bucket.simps) simp
    next
      case False
      then have "concat (drop (Suc b) (buckets h)) = buckets h ! Suc b @ concat (drop (Suc (Suc b)) (buckets h))"
        using assms(2) by (simp add: Cons_nth_drop_Suc [symmetric])
      moreover have eq: "hash_next_bucket h b i = hash_next_bucket h (Suc b) 1"
        using True False by (subst hash_next_bucket.simps) simp
      moreover have "bucket_cnt h - Suc b < bucket_cnt h - b" using less.prems by simp
      ultimately show ?thesis using less.hyps [of "Suc b" 1] True False unfolding eq by simp
    qed
  qed
qed

definition iter_ok :: "'e hash \<Rightarrow> hash_iterator \<Rightarrow> bool" where
  "iter_ok h it \<longleftrightarrow> it_bucket it < bucket_cnt h \<and> (\<exists>i \<le> length (buckets h ! it_bucket it). it_elem it = Some i)"

lemma hash_next_rest:
  assumes "iter_ok h it" "length (buckets h) = bucket_cnt h"
  shows "\<exists>r it'. hash_next h it = Some (r, it') \<and>
    (case iter_rest h it of [] \<Rightarrow> r = None | e # es \<Rightarrow> r = Some e \<and> iter_rest h it' = es \<and> iter_ok h it')"
proof -
  obtain i where i: "it_elem it = Some i" "i \<le> length (buckets h ! it_bucket it)" "it_bucket it < bucket_cnt h"
    using assms(1) by (auto simp: iter_ok_def)
  let ?it = "hash_next_bucket h (it_bucket it) (Suc i)"
  have n: "hash_next h it = Some (hash_cur h ?it, ?it)" by (simp add: hash_next_def i(1) Let_def)
  have r: "iter_rest h it = drop i (buckets h ! it_bucket it) @ concat (drop (Suc (it_bucket it)) (buckets h))"
    by (simp add: iter_rest_def i(1))
  have R: "case iter_rest h it of [] \<Rightarrow> it_elem ?it = None
    | e # es \<Rightarrow> hash_cur h ?it = Some e \<and> iter_rest h ?it = es \<and> iter_ok h ?it"
    using hash_next_bucket_rest [OF i(3) assms(2), of "Suc i"] i(2) unfolding r iter_ok_def by simp
  show ?thesis
  proof (cases "iter_rest h it")
    case Nil
    then show ?thesis using R n by (simp add: hash_cur_def)
  next
    case (Cons e es)
    then show ?thesis using R n by simp
  qed
qed

lemma hash_nexts_rest:
  assumes "iter_ok h it" "length (buckets h) = bucket_cnt h"
  shows "hash_nexts (Suc (length (iter_rest h it))) h it = Some (map Some (iter_rest h it) @ [None])"
  using assms(1)
proof (induction "iter_rest h it" arbitrary: it)
  case Nil
  then show ?case using hash_next_rest [OF Nil.prems assms(2)] by auto
next
  case (Cons e es)
  obtain it' where it': "hash_next h it = Some (Some e, it')" "iter_rest h it' = es" "iter_ok h it'"
    using hash_next_rest [OF Cons.prems assms(2)] by (auto simp: Cons.hyps(2) [symmetric])
  have "hash_nexts (Suc (length es)) h it' = Some (map Some es @ [None])"
    using Cons.hyps(1) [OF it'(2) [symmetric] it'(3)] unfolding it'(2) .
  then show ?case unfolding Cons.hyps(2) [symmetric]
    by (subst hash_nexts.simps(2)) (simp add: it'(1) del: hash_nexts.simps)
qed

text \<open>
  (C23) Iteration visits every element exactly once: from the start of a well-formed table, the calls to
  \<^verbatim>\<open>hash_next\<close> return the elements, as many as the table counts and no two equal, and then a null
  pointer.
\<close>

theorem hash_iteration_complete:
  assumes "hash_inv h"
  shows "\<exists>es. hash_nexts (Suc (hash_size h)) h hash_first = Some (map Some es @ [None]) \<and>
    length es = hash_size h \<and> distinct es \<and> (\<forall>e. e \<in> set es \<longleftrightarrow> hash_find e h = Some e)"
proof -
  have len: "length (buckets h) = bucket_cnt h" "0 < bucket_cnt h" using assms by (auto simp: hash_inv_def)
  have ok: "iter_ok h hash_first" using len by (simp add: iter_ok_def hash_first_def)
  have rest: "iter_rest h hash_first = elems h"
    using len by (cases "buckets h") (simp_all add: iter_rest_def hash_first_def elems_def)
  have "distinct (elems h)" using assms by (simp add: hash_inv_def distinct_map)
  moreover have "e \<in> set (elems h) \<longleftrightarrow> hash_find e h = Some e" for e
    using hash_find_abs [OF assms, of e] abs_map_Some [OF assms, of "cls h e" e] by simp
  moreover have "hash_size h = length (elems h)" using assms by (simp add: hash_size_def hash_inv_def)
  ultimately show ?thesis using hash_nexts_rest [OF ok len(1)] unfolding rest by auto
qed

lemma hash_iteration_complete_witness:
  "\<exists>h es. hash_nexts 2 h hash_first = Some (map Some es @ [None]) \<and> length es = 1 \<and> hash_find (3 :: u32) h = Some 3"
proof -
  let ?h = "\<lparr>elem_cnt = 1, bucket_cnt = 1, buckets = [[3]], hash_fn = (\<lambda>x. x), less_fn = (\<lambda>a b. a < b)\<rparr> :: u32 hash"
  have "hash_inv ?h" by (auto simp: hash_inv_def hash_contract_def elems_def find_bucket_def)
  from hash_iteration_complete [OF this] obtain es where
    "hash_nexts 2 ?h hash_first = Some (map Some es @ [None])" "length es = 1"
    by (auto simp: hash_size_def numeral_2_eq_2)
  moreover have "hash_find 3 ?h = Some 3" by (simp add: hash_find_def find_elem_def find_bucket_def)
  ultimately show ?thesis by blast
qed

end
