(* ===== verification/Inode.thy ===== *)
theory Inode
  imports Wal Bitmap "HOL-Library.Signed_Division"
begin

text \<open>
  Inodes, the free map and open files: \<^verbatim>\<open>filesys/inode.c\<close>, \<^verbatim>\<open>filesys/free-map.c\<close>, \<^verbatim>\<open>filesys/file.c\<close> and
  the file I/O of \<^verbatim>\<open>lib/kernel/bitmap.c\<close>. The three call each other: extending a file allocates
  sectors, allocating writes the free map to its file, and that is a write to an inode again. The
  operations on the path are therefore written over the operation they call (suffix \<open>_with\<close>), and
  \<open>inode_write_at d\<close> closes the circle with \<open>d\<close> nested writes; a deeper nesting does not return, as it
  does not on the kernel's 4 kB stack.

  Handles of inodes and open files are numbers; \<open>next_ptr\<close> is the next one the allocator returns.
  The per-inode and list locks are not part of the state.
\<close>

section \<open>Data\<close>

definition DIRECT_BLOCK_COUNT :: nat where "DIRECT_BLOCK_COUNT = 12"
definition INODE_MAGIC :: u32 where "INODE_MAGIC = 0x494e4f44"
definition PTRS_PER_BLOCK :: nat where "PTRS_PER_BLOCK = BLOCK_SECTOR_SIZE div 4"
definition INVALID_SECTOR :: block_sector_t where "INVALID_SECTOR = - 1"
definition FREE_MAP_SECTOR :: block_sector_t where "FREE_MAP_SECTOR = 0"
definition ROOT_DIR_SECTOR :: block_sector_t where "ROOT_DIR_SECTOR = 1"
definition INODE_TYPE_FILE :: u32 where "INODE_TYPE_FILE = 0"
definition INODE_TYPE_DIR :: u32 where "INODE_TYPE_DIR = 1"
definition INODE_TYPE_SYMLINK :: u32 where "INODE_TYPE_SYMLINK = 2"

lemmas inode_constants [simp] = DIRECT_BLOCK_COUNT_def PTRS_PER_BLOCK_def

record inode_disk =
  direct :: "block_sector_t list"
  indirect :: block_sector_t
  doubly_indirect :: block_sector_t
  ilength :: off_t
  itype :: u32
  nlink :: u32
  imagic :: u32
  unused :: "u32 list"

record inode =
  isector :: block_sector_t
  open_cnt :: int
  removed :: bool
  skip_wal :: bool
  deny_write_cnt :: int
  idata :: inode_disk

record open_file =
  file_inode :: nat
  pos :: off_t
  deny_write :: bool
  ref_count :: int

record fs = wal +
  free_map :: bitmap
  free_map_file :: "nat option"
  open_inodes :: "nat list"
  inodes :: "nat \<Rightarrow> inode option"
  files :: "nat \<Rightarrow> open_file option"
  next_ptr :: nat

text \<open>Sums of \<^verbatim>\<open>off_t\<close>, a signed 32-bit type, wrap around.\<close>

definition off :: "int \<Rightarrow> off_t" where
  "off x = signed_take_bit 31 x"

definition ptrs_bytes :: "block_sector_t list \<Rightarrow> byte list" where
  "ptrs_bytes ps = concat (map (le_bytes 4) ps)"

definition ptr_at :: "byte list \<Rightarrow> nat \<Rightarrow> block_sector_t" where
  "ptr_at d i = le_word (take 4 (drop (4 * i) d))"

definition bytes_ptrs :: "byte list \<Rightarrow> block_sector_t list" where
  "bytes_ptrs d = map (ptr_at d) [0..<PTRS_PER_BLOCK]"

text \<open>The inode as the sector it fills.\<close>

definition inode_bytes :: "inode_disk \<Rightarrow> byte list" where
  "inode_bytes d = ptrs_bytes (direct d) @ le_bytes 4 (indirect d) @ le_bytes 4 (doubly_indirect d) @
     le_bytes 4 (word_of_int (ilength d) :: u32) @ le_bytes 4 (itype d) @ le_bytes 4 (nlink d) @ le_bytes 4 (imagic d) @
     ptrs_bytes (unused d)"

definition bytes_inode :: "byte list \<Rightarrow> inode_disk" where
  "bytes_inode b = \<lparr>direct = map (ptr_at b) [0..<12], indirect = ptr_at b 12, doubly_indirect = ptr_at b 13,
     ilength = sint (ptr_at b 14), itype = ptr_at b 15, nlink = ptr_at b 16, imagic = ptr_at b 17,
     unused = map (ptr_at b) [18..<128]\<rparr>"

definition bytes_to_sectors :: "off_t \<Rightarrow> nat" where
  "bytes_to_sectors n = DIV_ROUND_UP (nat n) BLOCK_SECTOR_SIZE"

definition zeros :: "byte list" where
  "zeros = replicate 512 0"

text \<open>Updating an open inode in place.\<close>

definition put_inode :: "nat \<Rightarrow> inode \<Rightarrow> 'a fs_scheme \<Rightarrow> 'a fs_scheme" where
  "put_inode p ip s = s\<lparr>inodes := (inodes s)(p \<mapsto> ip)\<rparr>"

definition alloc_ptr :: "'a fs_scheme \<Rightarrow> nat \<times> 'a fs_scheme" where
  "alloc_ptr s = (next_ptr s, s\<lparr>next_ptr := Suc (next_ptr s)\<rparr>)"

section \<open>Finding a block\<close>

text \<open>An index outside an array of pointers does not return.\<close>

definition index_of :: "block_sector_t list \<Rightarrow> int \<Rightarrow> block_sector_t option" where
  "index_of ps i = (if 0 \<le> i \<and> nat i < length ps then Some (ps ! nat i) else None)"

definition byte_to_sector :: "inode \<Rightarrow> off_t \<Rightarrow> 'a cache_scheme \<Rightarrow> (block_sector_t \<times> 'a cache_scheme) option" where
  "byte_to_sector ip ps s =
    (if ps \<ge> ilength (idata ip) then Some (INVALID_SECTOR, s)
     else let block_idx = ps sdiv 512
       in if block_idx < int DIRECT_BLOCK_COUNT
          then do { b \<leftarrow> index_of (direct (idata ip)) block_idx; Some (b, s) }
          else let block_idx = block_idx - int DIRECT_BLOCK_COUNT
            in if block_idx < int PTRS_PER_BLOCK
               then do {
                 (d, s) \<leftarrow> cache_read (indirect (idata ip)) s;
                 b \<leftarrow> index_of (bytes_ptrs d) block_idx;
                 Some (b, s)
               }
               else do {
                 let block_idx = block_idx - int PTRS_PER_BLOCK;
                 (d, s) \<leftarrow> cache_read (doubly_indirect (idata ip)) s;
                 indirect_block \<leftarrow> index_of (bytes_ptrs d) (block_idx sdiv int PTRS_PER_BLOCK);
                 (d, s) \<leftarrow> cache_read indirect_block s;
                 b \<leftarrow> index_of (bytes_ptrs d) (block_idx smod int PTRS_PER_BLOCK);
                 Some (b, s)
               })"

section \<open>Reading\<close>

definition inode_length :: "inode \<Rightarrow> off_t" where
  "inode_length ip = ilength (idata ip)"

definition chunk_of :: "inode \<Rightarrow> off_t \<Rightarrow> off_t \<Rightarrow> int" where
  "chunk_of ip n offset =
    (let sector_ofs = offset smod 512;
         inode_left = inode_length ip - offset;
         sector_left = 512 - sector_ofs;
         min_left = (if inode_left < sector_left then inode_left else sector_left)
     in if n < min_left then n else min_left)"

function inode_read_loop ::
  "nat \<Rightarrow> off_t \<Rightarrow> off_t \<Rightarrow> byte list \<Rightarrow> 'a fs_scheme \<Rightarrow> (byte list \<times> 'a fs_scheme) option" where
  "inode_read_loop p n offset out s =
    (if n > 0
     then do {
       ip \<leftarrow> inodes s p;
       (sector_idx, s) \<leftarrow> byte_to_sector ip offset s;
       let chunk = chunk_of ip n offset;
       if chunk \<le> 0 then Some (out, s)
       else do {
         (d, s) \<leftarrow> cache_read_at sector_idx (offset smod 512) chunk s;
         inode_read_loop p (n - chunk) (offset + chunk) (out @ d) s
       }
     }
     else Some (out, s))"
  by pat_completeness auto
termination
  by (relation "measure (\<lambda>(p, n, offset, out, s). nat n)") auto

declare inode_read_loop.simps [simp del]

text \<open>The bytes read, whose number is the result; the rest of the caller's buffer is unchanged.\<close>

definition inode_read_at :: "nat \<Rightarrow> off_t \<Rightarrow> off_t \<Rightarrow> 'a fs_scheme \<Rightarrow> (byte list \<times> 'a fs_scheme) option" where
  "inode_read_at p n offset s = inode_read_loop p n offset [] s"

section \<open>Writing\<close>

function inode_write_loop ::
  "bool \<Rightarrow> nat \<Rightarrow> byte list \<Rightarrow> off_t \<Rightarrow> off_t \<Rightarrow> int \<Rightarrow> 'a fs_scheme \<Rightarrow> (int \<times> 'a fs_scheme) option" where
  "inode_write_loop should_log p buffer n offset bytes_written s =
    (if n > 0
     then do {
       ip \<leftarrow> inodes s p;
       (sector_idx, s) \<leftarrow> byte_to_sector ip offset s;
       let sector_ofs = offset smod 512;
       let chunk = chunk_of ip n offset;
       if chunk \<le> 0 then Some (bytes_written, s)
       else do {
         ASSERT (nat (bytes_written + chunk) \<le> length buffer);
         let data = take (nat chunk) (drop (nat bytes_written) buffer);
         s \<leftarrow> (if should_log
              then do {
                (old, s) \<leftarrow> cache_read_at sector_idx sector_ofs chunk s;
                (_, s) \<leftarrow> wal_log_write (wal_get_current_txn s) sector_idx old data (word_of_int sector_ofs) (word_of_int chunk) s;
                Some s
              }
              else Some s);
         s \<leftarrow> cache_write sector_idx data sector_ofs chunk s;
         inode_write_loop should_log p buffer (n - chunk) (offset + chunk) (bytes_written + chunk) s
       }
     }
     else Some (bytes_written, s))"
  by pat_completeness auto
termination
  by (relation "measure (\<lambda>(l, p, buffer, n, offset, w, s). nat n)") auto

declare inode_write_loop.simps [simp del]

definition inode_write_with ::
  "(nat \<Rightarrow> off_t \<Rightarrow> 'a fs_scheme \<Rightarrow> (bool \<times> 'a fs_scheme) option) \<Rightarrow>
   nat \<Rightarrow> byte list \<Rightarrow> off_t \<Rightarrow> off_t \<Rightarrow> 'a fs_scheme \<Rightarrow> (int \<times> 'a fs_scheme) option" where
  "inode_write_with ext p buffer n offset s = do {
     ip \<leftarrow> inodes s p;
     if deny_write_cnt ip \<noteq> 0 then Some (0, s)
     else do {
       let end_pos = off (offset + n);
       (ok, s) \<leftarrow> (if end_pos > ilength (idata ip) then ext p end_pos s else Some (True, s));
       if \<not> ok then Some (0, s)
       else do {
         ip \<leftarrow> inodes s p;
         let should_log = (wal_get_current_txn s \<noteq> None \<and> \<not> skip_wal ip);
         let (ok, s) = (if should_log then malloc s else (True, s));
         if \<not> ok then Some (0, s)
         else inode_write_loop should_log p buffer n offset 0 s
       }
     }
   }"

section \<open>The free map\<close>

definition bitmap_file_size :: "bitmap \<Rightarrow> nat" where
  "bitmap_file_size b = byte_cnt (bit_cnt b)"

text \<open>Writing a bitmap to its file, and reading it back; a null file does not return.\<close>

definition bitmap_write_with ::
  "(nat \<Rightarrow> byte list \<Rightarrow> off_t \<Rightarrow> off_t \<Rightarrow> 'a fs_scheme \<Rightarrow> (int \<times> 'a fs_scheme) option) \<Rightarrow>
   bitmap \<Rightarrow> nat option \<Rightarrow> 'a fs_scheme \<Rightarrow> (bool \<times> 'a fs_scheme) option" where
  "bitmap_write_with write b f s = do {
     p \<leftarrow> f;
     fl \<leftarrow> files s p;
     let n = int (byte_cnt (bit_cnt b));
     (w, s) \<leftarrow> write (file_inode fl) (ptrs_bytes (bits b)) n 0 s;
     Some (w = n, s)
   }"

definition bitmap_read :: "bitmap \<Rightarrow> nat option \<Rightarrow> 'a fs_scheme \<Rightarrow> (bool \<times> bitmap \<times> 'a fs_scheme) option" where
  "bitmap_read b f s =
    (if bit_cnt b > 0
     then do {
       p \<leftarrow> f;
       fl \<leftarrow> files s p;
       let n = byte_cnt (bit_cnt b);
       (d, s) \<leftarrow> inode_read_at (file_inode fl) (int n) 0 s;
       let ws = map (ptr_at (patch 0 d (ptrs_bytes (bits b)))) [0..<elem_cnt (bit_cnt b)];
       let i = elem_cnt (bit_cnt b) - 1;
       Some (length d = n, b\<lparr>bits := ws[i := ws ! i AND last_mask b]\<rparr>, s)
     }
     else Some (True, b, s))"

definition free_map_allocate_with ::
  "(nat \<Rightarrow> byte list \<Rightarrow> off_t \<Rightarrow> off_t \<Rightarrow> 'a fs_scheme \<Rightarrow> (int \<times> 'a fs_scheme) option) \<Rightarrow>
   nat \<Rightarrow> 'a fs_scheme \<Rightarrow> (block_sector_t option \<times> 'a fs_scheme) option" where
  "free_map_allocate_with write cnt s = do {
     (sector, b) \<leftarrow> bitmap_scan_and_flip (free_map s) 0 cnt False;
     let s = s\<lparr>free_map := b\<rparr>;
     if sector \<noteq> BITMAP_ERROR \<and> free_map_file s \<noteq> None
     then do {
       (ok, s) \<leftarrow> bitmap_write_with write (free_map s) (free_map_file s) s;
       if ok then Some (Some (word_of_nat sector), s)
       else do {
         b \<leftarrow> bitmap_set_multiple (free_map s) sector cnt False;
         Some (None, s\<lparr>free_map := b\<rparr>)
       }
     }
     else Some (if sector \<noteq> BITMAP_ERROR then Some (word_of_nat sector) else None, s)
   }"

definition free_map_allocate_one_with ::
  "(nat \<Rightarrow> byte list \<Rightarrow> off_t \<Rightarrow> off_t \<Rightarrow> 'a fs_scheme \<Rightarrow> (int \<times> 'a fs_scheme) option) \<Rightarrow>
   'a fs_scheme \<Rightarrow> (block_sector_t option \<times> 'a fs_scheme) option" where
  "free_map_allocate_one_with write s = free_map_allocate_with write 1 s"

section \<open>Extending a file\<close>

text \<open>
  The loops of \<^verbatim>\<open>inode_extend\<close>. Each returns whether every allocation succeeded, with the array and the
  counter as the loop leaves them.
\<close>

type_synonym 'a allocator = "'a fs_scheme \<Rightarrow> (block_sector_t option \<times> 'a fs_scheme) option"

text \<open>Direct pointers: the inode itself is updated before each block is zeroed.\<close>

function extend_direct ::
  "'a allocator \<Rightarrow> nat \<Rightarrow> nat \<Rightarrow> nat \<Rightarrow> nat \<Rightarrow> 'a fs_scheme \<Rightarrow> (bool \<times> nat \<times> 'a fs_scheme) option" where
  "extend_direct alloc p i allocated new_sectors s =
    (if i < DIRECT_BLOCK_COUNT \<and> allocated < new_sectors
     then do {
       (b, s) \<leftarrow> alloc s;
       case b of
         None \<Rightarrow> Some (False, allocated, s)
       | Some a \<Rightarrow> do {
           ip \<leftarrow> inodes s p;
           let s = put_inode p (ip\<lparr>idata := (idata ip)\<lparr>direct := (direct (idata ip))[i := a]\<rparr>\<rparr>) s;
           s \<leftarrow> cache_write a zeros 0 512 s;
           extend_direct alloc p (i + 1) (allocated + 1) new_sectors s
         }
     }
     else Some (True, allocated, s))"
  by pat_completeness auto
termination
  by (relation "measure (\<lambda>(alloc, p, i, allocated, new_sectors, s). DIRECT_BLOCK_COUNT - i)") auto

text \<open>Pointers of one indirect block, in a local array.\<close>

function extend_block ::
  "'a allocator \<Rightarrow> block_sector_t list \<Rightarrow> nat \<Rightarrow> nat \<Rightarrow> nat \<Rightarrow> 'a fs_scheme \<Rightarrow>
   (bool \<times> block_sector_t list \<times> nat \<times> 'a fs_scheme) option" where
  "extend_block alloc blk i allocated new_sectors s =
    (if i < PTRS_PER_BLOCK \<and> allocated < new_sectors
     then if blk ! i = 0
       then do {
         (b, s) \<leftarrow> alloc s;
         case b of
           None \<Rightarrow> Some (False, blk, allocated, s)
         | Some a \<Rightarrow> do {
             s \<leftarrow> cache_write a zeros 0 512 s;
             extend_block alloc (blk[i := a]) (i + 1) (allocated + 1) new_sectors s
           }
       }
       else extend_block alloc blk (i + 1) (allocated + 1) new_sectors s
     else Some (True, blk, allocated, s))"
  by pat_completeness auto
termination
  by (relation "measure (\<lambda>(alloc, blk, i, allocated, new_sectors, s). PTRS_PER_BLOCK - i)") auto

text \<open>The indirect blocks under the doubly indirect one; \<open>ind_idx\<close> is the first pointer to fill.\<close>

function extend_doubly ::
  "'a allocator \<Rightarrow> block_sector_t list \<Rightarrow> nat \<Rightarrow> nat \<Rightarrow> nat \<Rightarrow> nat \<Rightarrow> 'a fs_scheme \<Rightarrow>
   (bool \<times> block_sector_t list \<times> nat \<times> 'a fs_scheme) option" where
  "extend_doubly alloc dbl dbl_idx ind_idx allocated new_sectors s =
    (if allocated < new_sectors \<and> dbl_idx < PTRS_PER_BLOCK
     then do {
       (b, blk, s) \<leftarrow> (if dbl ! dbl_idx = 0
          then do { (b, s) \<leftarrow> alloc s; Some (b, replicate PTRS_PER_BLOCK 0, s) }
          else do { (d, s) \<leftarrow> cache_read (dbl ! dbl_idx) s; Some (Some (dbl ! dbl_idx), bytes_ptrs d, s) });
       case b of
         None \<Rightarrow> Some (False, dbl, allocated, s)
       | Some a \<Rightarrow> do {
           (ok, blk, allocated', s) \<leftarrow> extend_block alloc blk ind_idx allocated new_sectors s;
           if \<not> ok then Some (False, dbl[dbl_idx := a], allocated', s)
           else do {
             s \<leftarrow> cache_write a (ptrs_bytes blk) 0 512 s;
             extend_doubly alloc (dbl[dbl_idx := a]) (dbl_idx + 1) 0 allocated' new_sectors s
           }
         }
     }
     else Some (True, dbl, allocated, s))"
  by pat_completeness auto
termination
  by (relation "measure (\<lambda>(alloc, dbl, dbl_idx, ind_idx, allocated, new_sectors, s). PTRS_PER_BLOCK - dbl_idx)") auto

declare extend_direct.simps [simp del]
declare extend_block.simps [simp del]
declare extend_doubly.simps [simp del]

text \<open>The indirect block: created in the inode, or read, then filled and written back.\<close>

definition extend_indirect ::
  "'a allocator \<Rightarrow> nat \<Rightarrow> nat \<Rightarrow> nat \<Rightarrow> nat \<Rightarrow> 'a fs_scheme \<Rightarrow> (bool \<times> nat \<times> 'a fs_scheme) option" where
  "extend_indirect alloc p old_sectors allocated new_sectors s = do {
     ip \<leftarrow> inodes s p;
     (b, blk, s) \<leftarrow> (if indirect (idata ip) = 0
        then do {
          (b, s) \<leftarrow> alloc s;
          case b of
            None \<Rightarrow> Some (None, [], s)
          | Some a \<Rightarrow> do {
              ip \<leftarrow> inodes s p;
              Some (Some a, replicate PTRS_PER_BLOCK 0, put_inode p (ip\<lparr>idata := (idata ip)\<lparr>indirect := a\<rparr>\<rparr>) s)
            }
        }
        else do { (d, s) \<leftarrow> cache_read (indirect (idata ip)) s; Some (Some (indirect (idata ip)), bytes_ptrs d, s) });
     case b of
       None \<Rightarrow> Some (False, allocated, s)
     | Some a \<Rightarrow> do {
         let indirect_start = (if old_sectors > DIRECT_BLOCK_COUNT then old_sectors - DIRECT_BLOCK_COUNT else 0);
         (ok, blk, allocated, s) \<leftarrow> extend_block alloc blk indirect_start allocated new_sectors s;
         if \<not> ok then Some (False, allocated, s)
         else do {
           s \<leftarrow> cache_write a (ptrs_bytes blk) 0 512 s;
           Some (True, allocated, s)
         }
       }
   }"

definition extend_doubly_indirect ::
  "'a allocator \<Rightarrow> nat \<Rightarrow> nat \<Rightarrow> nat \<Rightarrow> nat \<Rightarrow> 'a fs_scheme \<Rightarrow> (bool \<times> 'a fs_scheme) option" where
  "extend_doubly_indirect alloc p old_sectors allocated new_sectors s = do {
     ip \<leftarrow> inodes s p;
     (b, dbl, s) \<leftarrow> (if doubly_indirect (idata ip) = 0
        then do {
          (b, s) \<leftarrow> alloc s;
          case b of
            None \<Rightarrow> Some (None, [], s)
          | Some a \<Rightarrow> do {
              ip \<leftarrow> inodes s p;
              Some (Some a, replicate PTRS_PER_BLOCK 0, put_inode p (ip\<lparr>idata := (idata ip)\<lparr>doubly_indirect := a\<rparr>\<rparr>) s)
            }
        }
        else do { (d, s) \<leftarrow> cache_read (doubly_indirect (idata ip)) s; Some (Some (doubly_indirect (idata ip)), bytes_ptrs d, s) });
     case b of
       None \<Rightarrow> Some (False, s)
     | Some a \<Rightarrow> do {
         let dbl_base = DIRECT_BLOCK_COUNT + PTRS_PER_BLOCK;
         let dbl_start = (if old_sectors > dbl_base then old_sectors - dbl_base else 0);
         (ok, dbl, _, s) \<leftarrow> extend_doubly alloc dbl (dbl_start div PTRS_PER_BLOCK) (dbl_start mod PTRS_PER_BLOCK)
            allocated new_sectors s;
         if \<not> ok then Some (False, s)
         else do {
           s \<leftarrow> cache_write a (ptrs_bytes dbl) 0 512 s;
           Some (True, s)
         }
       }
   }"

text \<open>The common end: the new length, in memory and on disk.\<close>

definition extend_success :: "nat \<Rightarrow> off_t \<Rightarrow> 'a fs_scheme \<Rightarrow> (bool \<times> 'a fs_scheme) option" where
  "extend_success p new_length s = do {
     ip \<leftarrow> inodes s p;
     let ip = ip\<lparr>idata := (idata ip)\<lparr>ilength := new_length\<rparr>\<rparr>;
     s \<leftarrow> cache_write (isector ip) (inode_bytes (idata ip)) 0 512 (put_inode p ip s);
     Some (True, s)
   }"

definition inode_extend_with :: "'a allocator \<Rightarrow> nat \<Rightarrow> off_t \<Rightarrow> 'a fs_scheme \<Rightarrow> (bool \<times> 'a fs_scheme) option" where
  "inode_extend_with alloc p new_length s = do {
     ip \<leftarrow> inodes s p;
     ASSERT (new_length > ilength (idata ip));
     let old_sectors = bytes_to_sectors (ilength (idata ip));
     let new_sectors = bytes_to_sectors new_length;
     if new_sectors = old_sectors then extend_success p new_length s
     else do {
       (ok, allocated, s) \<leftarrow> extend_direct alloc p old_sectors old_sectors new_sectors s;
       if \<not> ok then Some (False, s)
       else if allocated \<ge> new_sectors then extend_success p new_length s
       else do {
         (ok, allocated, s) \<leftarrow> extend_indirect alloc p old_sectors allocated new_sectors s;
         if \<not> ok then Some (False, s)
         else if allocated \<ge> new_sectors then extend_success p new_length s
         else do {
           (ok, s) \<leftarrow> extend_doubly_indirect alloc p old_sectors allocated new_sectors s;
           if \<not> ok then Some (False, s) else extend_success p new_length s
         }
       }
     }
   }"

section \<open>Closing the circle\<close>

primrec inode_write_at :: "nat \<Rightarrow> nat \<Rightarrow> byte list \<Rightarrow> off_t \<Rightarrow> off_t \<Rightarrow> 'a fs_scheme \<Rightarrow> (int \<times> 'a fs_scheme) option" where
  "inode_write_at 0 p buffer n offset s = None"
| "inode_write_at (Suc d) p buffer n offset s =
    inode_write_with (inode_extend_with (free_map_allocate_one_with (inode_write_at d))) p buffer n offset s"

definition bitmap_write :: "nat \<Rightarrow> bitmap \<Rightarrow> nat option \<Rightarrow> 'a fs_scheme \<Rightarrow> (bool \<times> 'a fs_scheme) option" where
  "bitmap_write d = bitmap_write_with (inode_write_at d)"

definition free_map_allocate :: "nat \<Rightarrow> nat \<Rightarrow> 'a fs_scheme \<Rightarrow> (block_sector_t option \<times> 'a fs_scheme) option" where
  "free_map_allocate d = free_map_allocate_with (inode_write_at d)"

definition free_map_allocate_one :: "nat \<Rightarrow> 'a allocator" where
  "free_map_allocate_one d = free_map_allocate_one_with (inode_write_at d)"

definition inode_extend :: "nat \<Rightarrow> nat \<Rightarrow> off_t \<Rightarrow> 'a fs_scheme \<Rightarrow> (bool \<times> 'a fs_scheme) option" where
  "inode_extend d = inode_extend_with (free_map_allocate_one d)"

text \<open>Releasing sectors ignores whether the map could be written.\<close>

definition free_map_release :: "nat \<Rightarrow> block_sector_t \<Rightarrow> nat \<Rightarrow> 'a fs_scheme \<Rightarrow> 'a fs_scheme option" where
  "free_map_release d sector cnt s = do {
     all \<leftarrow> bitmap_all (free_map s) (unat sector) cnt;
     ASSERT all;
     b \<leftarrow> bitmap_set_multiple (free_map s) (unat sector) cnt False;
     (_, s) \<leftarrow> bitmap_write d b (free_map_file s) (s\<lparr>free_map := b\<rparr>);
     Some s
   }"

section \<open>Freeing the blocks of an inode\<close>

fun release_ptrs :: "nat \<Rightarrow> block_sector_t list \<Rightarrow> 'a fs_scheme \<Rightarrow> 'a fs_scheme option" where
  "release_ptrs d [] s = Some s"
| "release_ptrs d (b # bs) s = do {
     s \<leftarrow> (if b \<noteq> 0 then free_map_release d b 1 s else Some s);
     release_ptrs d bs s
   }"

text \<open>An indirect block: its pointers, then the block itself.\<close>

definition release_indirect :: "nat \<Rightarrow> block_sector_t \<Rightarrow> 'a fs_scheme \<Rightarrow> 'a fs_scheme option" where
  "release_indirect d b s =
    (if b \<noteq> 0
     then do {
       (blk, s) \<leftarrow> cache_read b s;
       s \<leftarrow> release_ptrs d (bytes_ptrs blk) s;
       free_map_release d b 1 s
     }
     else Some s)"

fun release_indirects :: "nat \<Rightarrow> block_sector_t list \<Rightarrow> 'a fs_scheme \<Rightarrow> 'a fs_scheme option" where
  "release_indirects d [] s = Some s"
| "release_indirects d (b # bs) s = do { s \<leftarrow> release_indirect d b s; release_indirects d bs s }"

definition inode_deallocate :: "nat \<Rightarrow> inode_disk \<Rightarrow> 'a fs_scheme \<Rightarrow> 'a fs_scheme option" where
  "inode_deallocate d disk_inode s = do {
     s \<leftarrow> release_ptrs d (direct disk_inode) s;
     s \<leftarrow> release_indirect d (indirect disk_inode) s;
     if doubly_indirect disk_inode \<noteq> 0
     then do {
       (dbl, s) \<leftarrow> cache_read (doubly_indirect disk_inode) s;
       s \<leftarrow> release_indirects d (bytes_ptrs dbl) s;
       free_map_release d (doubly_indirect disk_inode) 1 s
     }
     else Some s
   }"

section \<open>Creating an inode\<close>

text \<open>Allocating and zeroing the pointers of one block, from the given array; the result tells whether all succeeded.\<close>

function create_block ::
  "'a allocator \<Rightarrow> nat \<Rightarrow> block_sector_t list \<Rightarrow> nat \<Rightarrow> nat \<Rightarrow> nat \<Rightarrow> 'a fs_scheme \<Rightarrow>
   (bool \<times> block_sector_t list \<times> nat \<times> 'a fs_scheme) option" where
  "create_block alloc cnt blk i allocated sectors s =
    (if i < cnt \<and> allocated < sectors
     then do {
       (b, s) \<leftarrow> alloc s;
       case b of
         None \<Rightarrow> Some (False, blk, allocated, s)
       | Some a \<Rightarrow> do {
           s \<leftarrow> cache_write a zeros 0 512 s;
           create_block alloc cnt (blk[i := a]) (i + 1) (allocated + 1) sectors s
         }
     }
     else Some (True, blk, allocated, s))"
  by pat_completeness auto
termination
  by (relation "measure (\<lambda>(alloc, cnt, blk, i, allocated, sectors, s). cnt - i)") auto

declare create_block.simps [simp del]

function create_doubly ::
  "'a allocator \<Rightarrow> block_sector_t list \<Rightarrow> nat \<Rightarrow> nat \<Rightarrow> nat \<Rightarrow> 'a fs_scheme \<Rightarrow>
   (bool \<times> block_sector_t list \<times> nat \<times> 'a fs_scheme) option" where
  "create_doubly alloc dbl i allocated sectors s =
    (if i < PTRS_PER_BLOCK \<and> allocated < sectors
     then do {
       (b, s) \<leftarrow> alloc s;
       case b of
         None \<Rightarrow> Some (False, dbl, allocated, s)
       | Some a \<Rightarrow> do {
           (ok, blk, allocated', s) \<leftarrow> create_block alloc PTRS_PER_BLOCK (replicate PTRS_PER_BLOCK 0) 0 allocated sectors s;
           if \<not> ok then Some (False, dbl[i := a], allocated', s)
           else do {
             s \<leftarrow> cache_write a (ptrs_bytes blk) 0 512 s;
             create_doubly alloc (dbl[i := a]) (i + 1) allocated' sectors s
           }
         }
     }
     else Some (True, dbl, allocated, s))"
  by pat_completeness auto
termination
  by (relation "measure (\<lambda>(alloc, dbl, i, allocated, sectors, s). PTRS_PER_BLOCK - i)") auto

declare create_doubly.simps [simp del]

text \<open>The three stages of allocation; the inode is local until it is written, and is returned for the clean-up.\<close>

definition create_blocks :: "'a allocator \<Rightarrow> nat \<Rightarrow> inode_disk \<Rightarrow> 'a fs_scheme \<Rightarrow> (bool \<times> inode_disk \<times> 'a fs_scheme) option" where
  "create_blocks alloc sectors di s = do {
     (ok, dir, allocated, s) \<leftarrow> create_block alloc DIRECT_BLOCK_COUNT (direct di) 0 0 sectors s;
     let di = di\<lparr>direct := dir\<rparr>;
     if \<not> ok then Some (False, di, s)
     else do {
       (ok, di, allocated, s) \<leftarrow> (if allocated < sectors
          then do {
            (b, s) \<leftarrow> alloc s;
            case b of
              None \<Rightarrow> Some (False, di, allocated, s)
            | Some a \<Rightarrow> do {
                let di = di\<lparr>indirect := a\<rparr>;
                (ok, blk, allocated, s) \<leftarrow> create_block alloc PTRS_PER_BLOCK (replicate PTRS_PER_BLOCK 0) 0 allocated sectors s;
                if \<not> ok then Some (False, di, allocated, s)
                else do { s \<leftarrow> cache_write a (ptrs_bytes blk) 0 512 s; Some (True, di, allocated, s) }
              }
          }
          else Some (True, di, allocated, s));
       if \<not> ok then Some (False, di, s)
       else if allocated < sectors
       then do {
         (b, s) \<leftarrow> alloc s;
         case b of
           None \<Rightarrow> Some (False, di, s)
         | Some a \<Rightarrow> do {
             let di = di\<lparr>doubly_indirect := a\<rparr>;
             (ok, dbl, _, s) \<leftarrow> create_doubly alloc (replicate PTRS_PER_BLOCK 0) 0 allocated sectors s;
             if \<not> ok then Some (False, di, s)
             else do { s \<leftarrow> cache_write a (ptrs_bytes dbl) 0 512 s; Some (True, di, s) }
           }
       }
       else Some (True, di, s)
     }
   }"

definition zero_inode :: inode_disk where
  "zero_inode = \<lparr>direct = replicate 12 0, indirect = 0, doubly_indirect = 0, ilength = 0, itype = 0, nlink = 0, imagic = 0,
     unused = replicate 110 0\<rparr>"

definition inode_create_internal :: "nat \<Rightarrow> block_sector_t \<Rightarrow> off_t \<Rightarrow> u32 \<Rightarrow> 'a fs_scheme \<Rightarrow> (bool \<times> 'a fs_scheme) option" where
  "inode_create_internal d sector len inode_type s = do {
     ASSERT (len \<ge> 0);
     let (ok, s) = malloc s;
     if \<not> ok then Some (False, s)
     else do {
       let di = zero_inode\<lparr>ilength := len, imagic := INODE_MAGIC, itype := inode_type, nlink := 1\<rparr>;
       (ok, di, s) \<leftarrow> create_blocks (free_map_allocate_one d) (bytes_to_sectors len) di s;
       if ok
       then do { s \<leftarrow> cache_write sector (inode_bytes di) 0 512 s; Some (True, s) }
       else do { s \<leftarrow> inode_deallocate d di s; Some (False, s) }
     }
   }"

definition inode_create :: "nat \<Rightarrow> block_sector_t \<Rightarrow> off_t \<Rightarrow> 'a fs_scheme \<Rightarrow> (bool \<times> 'a fs_scheme) option" where
  "inode_create d sector len s = inode_create_internal d sector len INODE_TYPE_FILE s"

definition inode_create_dir :: "nat \<Rightarrow> block_sector_t \<Rightarrow> off_t \<Rightarrow> 'a fs_scheme \<Rightarrow> (bool \<times> 'a fs_scheme) option" where
  "inode_create_dir d sector len s = inode_create_internal d sector len INODE_TYPE_DIR s"

section \<open>Open inodes\<close>

definition inode_init :: "'a fs_scheme \<Rightarrow> 'a fs_scheme" where
  "inode_init s = s\<lparr>open_inodes := []\<rparr>"

definition inode_is_dir :: "inode \<Rightarrow> bool" where
  "inode_is_dir ip \<longleftrightarrow> itype (idata ip) = INODE_TYPE_DIR"

definition inode_is_symlink :: "inode \<Rightarrow> bool" where
  "inode_is_symlink ip \<longleftrightarrow> itype (idata ip) = INODE_TYPE_SYMLINK"

definition inode_is_file :: "inode \<Rightarrow> bool" where
  "inode_is_file ip \<longleftrightarrow> itype (idata ip) = INODE_TYPE_FILE"

definition inode_get_inumber :: "inode \<Rightarrow> block_sector_t" where
  "inode_get_inumber ip = isector ip"

definition inode_is_removed :: "inode \<Rightarrow> bool" where
  "inode_is_removed ip = removed ip"

definition inode_get_nlink :: "inode \<Rightarrow> u32" where
  "inode_get_nlink ip = nlink (idata ip)"

definition inode_reopen :: "nat option \<Rightarrow> 'a fs_scheme \<Rightarrow> (nat option \<times> 'a fs_scheme) option" where
  "inode_reopen p s = (case p of
     None \<Rightarrow> Some (None, s)
   | Some q \<Rightarrow> do { ip \<leftarrow> inodes s q; Some (p, put_inode q (ip\<lparr>open_cnt := open_cnt ip + 1\<rparr>) s) })"

text \<open>The walk over the list of open inodes.\<close>

fun find_open :: "block_sector_t \<Rightarrow> nat list \<Rightarrow> 'a fs_scheme \<Rightarrow> nat option option" where
  "find_open sector [] s = Some None"
| "find_open sector (p # ps) s = do {
     ip \<leftarrow> inodes s p;
     if isector ip = sector then Some (Some p) else find_open sector ps s
   }"

definition inode_open :: "block_sector_t \<Rightarrow> 'a fs_scheme \<Rightarrow> (nat option \<times> 'a fs_scheme) option" where
  "inode_open sector s = do {
     found \<leftarrow> find_open sector (open_inodes s) s;
     case found of
       Some p \<Rightarrow> inode_reopen (Some p) s
     | None \<Rightarrow> do {
         let (ok, s) = malloc s;
         if \<not> ok then Some (None, s)
         else do {
           let (p, s) = alloc_ptr s;
           let s = s\<lparr>open_inodes := p # open_inodes s\<rparr>;
           (d, s) \<leftarrow> cache_read sector s;
           Some (Some p, put_inode p \<lparr>isector = sector, open_cnt = 1, removed = False, skip_wal = False,
             deny_write_cnt = 0, idata = bytes_inode d\<rparr> s)
         }
       }
   }"

definition inode_set_skip_wal :: "nat \<Rightarrow> bool \<Rightarrow> 'a fs_scheme \<Rightarrow> 'a fs_scheme option" where
  "inode_set_skip_wal p skip s = do { ip \<leftarrow> inodes s p; Some (put_inode p (ip\<lparr>skip_wal := skip\<rparr>) s) }"

definition inode_close :: "nat \<Rightarrow> nat option \<Rightarrow> 'a fs_scheme \<Rightarrow> 'a fs_scheme option" where
  "inode_close d p s = (case p of
     None \<Rightarrow> Some s
   | Some q \<Rightarrow> do {
       ip \<leftarrow> inodes s q;
       let ip = ip\<lparr>open_cnt := open_cnt ip - 1\<rparr>;
       let s = put_inode q ip s;
       if open_cnt ip = 0
       then do {
         let s = s\<lparr>open_inodes := remove1 q (open_inodes s)\<rparr>;
         s \<leftarrow> (if removed ip \<and> nlink (idata ip) = 0
              then do { s \<leftarrow> free_map_release d (isector ip) 1 s; inode_deallocate d (idata ip) s }
              else Some s);
         Some (s\<lparr>inodes := (inodes s)(q := None)\<rparr>)
       }
       else Some s
     })"

definition inode_remove :: "nat \<Rightarrow> 'a fs_scheme \<Rightarrow> 'a fs_scheme option" where
  "inode_remove p s = do { ip \<leftarrow> inodes s p; Some (put_inode p (ip\<lparr>removed := True\<rparr>) s) }"

definition inode_deny_write :: "nat \<Rightarrow> 'a fs_scheme \<Rightarrow> 'a fs_scheme option" where
  "inode_deny_write p s = do {
     ip \<leftarrow> inodes s p;
     let ip = ip\<lparr>deny_write_cnt := deny_write_cnt ip + 1\<rparr>;
     ASSERT (deny_write_cnt ip \<le> open_cnt ip);
     Some (put_inode p ip s)
   }"

definition inode_allow_write :: "nat \<Rightarrow> 'a fs_scheme \<Rightarrow> 'a fs_scheme option" where
  "inode_allow_write p s = do {
     ip \<leftarrow> inodes s p;
     ASSERT (deny_write_cnt ip > 0);
     ASSERT (deny_write_cnt ip \<le> open_cnt ip);
     Some (put_inode p (ip\<lparr>deny_write_cnt := deny_write_cnt ip - 1\<rparr>) s)
   }"

definition inode_inc_nlink :: "nat \<Rightarrow> 'a fs_scheme \<Rightarrow> 'a fs_scheme option" where
  "inode_inc_nlink p s = do {
     ip \<leftarrow> inodes s p;
     let ip = ip\<lparr>idata := (idata ip)\<lparr>nlink := nlink (idata ip) + 1\<rparr>\<rparr>;
     cache_write (isector ip) (inode_bytes (idata ip)) 0 512 (put_inode p ip s)
   }"

definition inode_dec_nlink :: "nat \<Rightarrow> 'a fs_scheme \<Rightarrow> 'a fs_scheme option" where
  "inode_dec_nlink p s = do {
     ip \<leftarrow> inodes s p;
     ASSERT (nlink (idata ip) > 0);
     let ip = ip\<lparr>idata := (idata ip)\<lparr>nlink := nlink (idata ip) - 1\<rparr>\<rparr>;
     cache_write (isector ip) (inode_bytes (idata ip)) 0 512 (put_inode p ip s)
   }"

text \<open>The target is the string without its terminator.\<close>

definition inode_create_symlink :: "nat \<Rightarrow> block_sector_t \<Rightarrow> byte list \<Rightarrow> 'a fs_scheme \<Rightarrow> (bool \<times> 'a fs_scheme) option" where
  "inode_create_symlink d sector target s = do {
     let target_len = int (length target);
     (ok, s) \<leftarrow> inode_create_internal d sector target_len INODE_TYPE_SYMLINK s;
     if \<not> ok then Some (False, s)
     else if target_len = 0 then Some (True, s)
     else do {
       (p, s) \<leftarrow> inode_open sector s;
       case p of
         None \<Rightarrow> Some (False, s)
       | Some q \<Rightarrow> do {
           (written, s) \<leftarrow> inode_write_at d q target target_len 0 s;
           s \<leftarrow> inode_close d p s;
           Some (written = target_len, s)
         }
     }
   }"

end
