(* ===== verification/Inode_Content.thy ===== *)
theory Inode_Content
  imports Inode
begin

text \<open>
  What the inode operations mean: the contents of a file as a list of bytes, computed from the sectors
  the readers of the cache see. Reading returns a slice of it; overwriting replaces a slice and touches
  nothing but the data blocks of the file.
\<close>

section \<open>Blocks and contents\<close>

text \<open>The sector of block \<open>i\<close>, from the view \<open>V\<close> of the sectors.\<close>

definition block_ptr :: "(block_sector_t \<Rightarrow> byte list) \<Rightarrow> inode_disk \<Rightarrow> nat \<Rightarrow> block_sector_t" where
  "block_ptr V d i =
    (if i < 12 then direct d ! i
     else if i < 140 then ptr_at (V (indirect d)) (i - 12)
     else ptr_at (V (ptr_at (V (doubly_indirect d)) ((i - 140) div 128))) ((i - 140) mod 128))"

definition n_blocks :: "inode_disk \<Rightarrow> nat" where
  "n_blocks d = bytes_to_sectors (ilength d)"

text \<open>
  The sectors of the first \<open>n\<close> blocks: those that hold pointers (the indirect block, the doubly indirect
  one and those below it) and those that hold data.
\<close>

definition meta_sectors :: "(block_sector_t \<Rightarrow> byte list) \<Rightarrow> inode_disk \<Rightarrow> nat \<Rightarrow> block_sector_t set" where
  "meta_sectors V d n = (if n > 12 then {indirect d} else {}) \<union>
    (if n > 140 then insert (doubly_indirect d) (ptr_at (V (doubly_indirect d)) ` {j. 140 + 128 * j < n}) else {})"

definition data_sectors :: "(block_sector_t \<Rightarrow> byte list) \<Rightarrow> inode_disk \<Rightarrow> nat \<Rightarrow> block_sector_t set" where
  "data_sectors V d n = block_ptr V d ` {..<n}"

definition MAX_BLOCKS :: nat where "MAX_BLOCKS = 12 + 128 + 128 * 128"

text \<open>\<open>N\<close> is the number of sectors of the device.\<close>

definition layout_ok :: "(block_sector_t \<Rightarrow> byte list) \<Rightarrow> block_sector_t \<Rightarrow> inode_disk \<Rightarrow> nat \<Rightarrow> bool" where
  "layout_ok V N d n \<longleftrightarrow> length (direct d) = 12 \<and> n \<le> MAX_BLOCKS \<and>
    (\<forall>a \<in> meta_sectors V d n \<union> data_sectors V d n. a < N) \<and>
    inj_on (block_ptr V d) {..<n} \<and> meta_sectors V d n \<inter> data_sectors V d n = {}"

definition inode_ok :: "(block_sector_t \<Rightarrow> byte list) \<Rightarrow> block_sector_t \<Rightarrow> inode_disk \<Rightarrow> bool" where
  "inode_ok V N d \<longleftrightarrow> 0 \<le> ilength d \<and> layout_ok V N d (n_blocks d)"

definition content :: "(block_sector_t \<Rightarrow> byte list) \<Rightarrow> inode_disk \<Rightarrow> byte list" where
  "content V d = map (\<lambda>i. V (block_ptr V d (i div 512)) ! (i mod 512)) [0..<nat (ilength d)]"

lemma length_content [simp]: "length (content V d) = nat (ilength d)"
  by (simp add: content_def)

lemma n_blocks_iff: "0 \<le> ilength d \<Longrightarrow> i div 512 < n_blocks d \<longleftrightarrow> i < 512 * n_blocks d" for i :: nat
  by (simp add: less_mult_imp_div_less mult.commute div_less_iff_less_mult)

lemma pos_block: "i < nat (ilength d) \<Longrightarrow> i div 512 < n_blocks d"
  by (auto simp: n_blocks_def bytes_to_sectors_def DIV_ROUND_UP_def)

lemma inode_okD:
  assumes "inode_ok V N d"
  shows "length (direct d) = 12" "0 \<le> ilength d" "n_blocks d \<le> 16524"
    "a \<in> meta_sectors V d (n_blocks d) \<Longrightarrow> a < N" "a \<in> data_sectors V d (n_blocks d) \<Longrightarrow> a < N" "inj_on (block_ptr V d) {..<n_blocks d}"
    "meta_sectors V d (n_blocks d) \<inter> data_sectors V d (n_blocks d) = {}"
  using assms by (auto simp: inode_ok_def layout_ok_def MAX_BLOCKS_def)

lemma length_bytes_ptrs [simp]: "length (bytes_ptrs b) = 128"
  by (simp add: bytes_ptrs_def)

lemma nth_bytes_ptrs [simp]: "i < 128 \<Longrightarrow> bytes_ptrs b ! i = ptr_at b i"
  by (simp add: bytes_ptrs_def)

lemma index_of_nat [simp]: "index_of ps (int i) = (if i < length ps then Some (ps ! i) else None)"
  by (simp add: index_of_def)

lemma sdiv_nat [simp]: "int a sdiv 512 = int (a div 512)" "int a sdiv 128 = int (a div 128)"
  "int a smod 512 = int (a mod 512)" "int a smod 128 = int (a mod 128)"
  by (cases "a = 0"; simp add: signed_divide_int_def signed_modulo_int_def zdiv_int zmod_int)+

section \<open>Finding a block\<close>

text \<open>A step of the cache: contents, invariant and all that is not the cache stay.\<close>

definition reads :: "'a cache_scheme \<Rightarrow> 'a cache_scheme \<Rightarrow> bool" where
  "reads s t \<longleftrightarrow> cache_inv t \<and> cache_view t = cache_view s \<and> cache_frame s t"

lemma reads_refl: "cache_inv s \<Longrightarrow> reads s s"
  by (simp add: reads_def)

lemma reads_trans: "reads s t \<Longrightarrow> reads t u \<Longrightarrow> reads s u"
  by (auto simp: reads_def intro: cache_frame_trans)

lemma cache_read_reads:
  "cache_inv s \<Longrightarrow> a < dev_size s \<Longrightarrow> \<exists>t. cache_read a s = Some (cache_view s a, t) \<and> reads s t"
  using cache_read_ok [of s a] by (auto simp: reads_def)

lemma cache_read_at_reads:
  assumes "cache_inv s" "a < dev_size s" "0 < n" "ofs + n \<le> 512"
  shows "\<exists>t. cache_read_at a (int ofs) (int n) s = Some (take n (drop ofs (cache_view s a)), t) \<and> reads s t"
  using cache_read_reads [OF assms(1,2)] cache_read_at_eq [of "int ofs" "int n" a s] assms(3,4) by auto

lemma byte_to_sector_ok:
  assumes "cache_inv s" "inode_ok (cache_view s) (dev_size s) (idata ip)" "i < nat (ilength (idata ip))"
  shows "\<exists>t. byte_to_sector ip (int i) s = Some (block_ptr (cache_view s) (idata ip) (i div 512), t) \<and> reads s t"
proof -
  let ?d = "idata ip" and ?V = "cache_view s" and ?k = "i div 512"
  note ok = inode_okD [OF assms(2)]
  have k: "?k < n_blocks ?d" using assms(3) by (rule pos_block)
  have lt: "\<not> ilength ?d \<le> int i" using assms(3) by linarith
  consider "?k < 12" | "12 \<le> ?k" "?k < 140" | "140 \<le> ?k" by linarith
  then show ?thesis
  proof cases
    case 1
    then have "byte_to_sector ip (int i) s = Some (block_ptr ?V ?d ?k, s)"
      using lt ok(1) by (simp add: byte_to_sector_def block_ptr_def)
    then show ?thesis using reads_refl [OF assms(1)] by blast
  next
    case 2
    have "indirect ?d < dev_size s" using ok(4) k 2 by (simp add: meta_sectors_def)
    then obtain t where t: "cache_read (indirect ?d) s = Some (?V (indirect ?d), t)" "reads s t"
      using cache_read_reads [OF assms(1)] by blast
    moreover have "index_of (bytes_ptrs b) (int ?k - 12) = Some (ptr_at b (?k - 12))" for b
      using 2 index_of_nat [of "bytes_ptrs b" "?k - 12"] by (simp add: of_nat_diff)
    ultimately show ?thesis using 2 lt by (simp add: byte_to_sector_def block_ptr_def)
  next
    case 3
    let ?j = "(?k - 140) div 128" and ?l = "(?k - 140) mod 128"
    let ?D = "doubly_indirect ?d" and ?B = "ptr_at (?V (doubly_indirect ?d)) ((?k - 140) div 128)"
    have m: "?D < dev_size s" "?B < dev_size s" using ok(4) k 3 by (auto simp: meta_sectors_def)
    obtain t where t: "cache_read ?D s = Some (?V ?D, t)" "reads s t"
      using cache_read_reads [OF assms(1) m(1)] by blast
    then obtain u where u: "cache_read ?B t = Some (?V ?B, u)" "reads t u"
      using cache_read_reads [of t ?B] m(2) by (auto simp: reads_def cache_frame_def)
    have j: "int ?k - 140 = int (?k - 140)" "?j < 128" using 3 k ok(3) by auto
    have "index_of (bytes_ptrs b) ((int ?k - 140) sdiv 128) = Some (ptr_at b ?j)"
      "index_of (bytes_ptrs b) ((int ?k - 140) smod 128) = Some (ptr_at b ?l)" for b
      using j(2) unfolding j(1) sdiv_nat index_of_nat by simp_all
    then have "byte_to_sector ip (int i) s = Some (ptr_at (?V ?B) ?l, u)"
      using lt t(1) u(1) 3 by (simp add: byte_to_sector_def)
    then show ?thesis using reads_trans [OF t(2) u(2)] 3 by (auto simp: block_ptr_def)
  qed
qed

section \<open>Reading\<close>

lemma fs_fields:
  assumes "cache.more t = cache.more s"
  shows "inodes t = inodes s" "files t = files s" "free_map t = free_map s" "free_map_file t = free_map_file s"
    "open_inodes t = open_inodes s" "next_ptr t = next_ptr s" "current_txn t = current_txn s"
  using assms by (cases s, cases t, simp)+

lemma reads_fields:
  assumes "reads s t"
  shows "cache_inv t" "cache_view t = cache_view s" "dev_size t = dev_size s" "inodes t = inodes s" "files t = files s"
    "free_map t = free_map s" "free_map_file t = free_map_file s" "current_txn t = current_txn s"
    "open_inodes t = open_inodes s" "next_ptr t = next_ptr s"
  using assms fs_fields [of t s] by (auto simp: reads_def cache_frame_def)

text \<open>The number of bytes one round of the loops handles.\<close>

definition chunk_nat :: "nat \<Rightarrow> nat \<Rightarrow> nat \<Rightarrow> nat" where
  "chunk_nat len n i = min n (min (len - i) (512 - i mod 512))"

lemma chunk_of_nat:
  assumes "i < nat (ilength (idata ip))"
  shows "chunk_of ip (int n) (int i) = int (chunk_nat (nat (ilength (idata ip))) n i)"
proof -
  define m where "m = i mod 512"
  have m: "m < 512" by (simp add: m_def)
  define l where "l = nat (ilength (idata ip))"
  have l: "ilength (idata ip) = int l" "i < l" using assms by (simp_all add: l_def)
  show ?thesis
    unfolding chunk_of_def chunk_nat_def inode_length_def sdiv_nat Let_def m_def [symmetric] l_def [symmetric] l(1)
    using l(2) m by (auto simp: min_def)
qed

lemma chunk_bounds:
  assumes "i < len" "0 < n"
  shows "0 < chunk_nat len n i" "chunk_nat len n i \<le> n" "i + chunk_nat len n i \<le> len" "i mod 512 + chunk_nat len n i \<le> 512"
proof -
  have "i mod 512 < 512" by simp
  then show "0 < chunk_nat len n i" "chunk_nat len n i \<le> n" "i + chunk_nat len n i \<le> len" "i mod 512 + chunk_nat len n i \<le> 512"
    using assms by (auto simp: chunk_nat_def)
qed

lemma chunk_same_block: "j < c \<Longrightarrow> i mod 512 + c \<le> 512 \<Longrightarrow> (i + j) div 512 = i div 512 \<and> (i + j) mod 512 = i mod 512 + j" for i :: nat
proof -
  assume "j < c" "i mod 512 + c \<le> 512"
  then have "i mod 512 + j < 512" by simp
  moreover have "i + j = 512 * (i div 512) + (i mod 512 + j)" by simp
  ultimately show ?thesis by (metis div_mult_self4 mod_mult_self4 div_less mod_less add_0 add_cancel_right_right zero_neq_numeral)
qed

lemma content_chunk:
  assumes "i < nat (ilength d)" "i mod 512 + c \<le> 512" "i + c \<le> nat (ilength d)" "length (V (block_ptr V d (i div 512))) = 512"
  shows "take c (drop (i mod 512) (V (block_ptr V d (i div 512)))) = take c (drop i (content V d))"
  using assms chunk_same_block [of _ c i]
  by (intro nth_equalityI) (auto simp: content_def)

lemma inode_read_loop_ok:
  assumes "cache_inv s" "inodes s p = Some ip" "inode_ok (cache_view s) (dev_size s) (idata ip)"
  shows "\<exists>t. inode_read_loop p (int n) (int i) out s = Some (out @ take n (drop i (content (cache_view s) (idata ip))), t) \<and> reads s t"
  using assms
proof (induction n arbitrary: i out s rule: less_induct)
  case (less n)
  let ?d = "idata ip" and ?V = "cache_view s"
  let ?len = "nat (ilength ?d)"
  show ?case
  proof (cases "n = 0 \<or> ?len \<le> i")
    case True
    then show ?thesis
    proof
      assume "n = 0"
      then show ?thesis using reads_refl [OF less.prems(1)] by (subst inode_read_loop.simps) simp
    next
      assume i: "?len \<le> i"
      then have "ilength ?d \<le> int i" by simp
      moreover have "chunk_of ip (int n) (int i) \<le> 0"
      proof -
        have "int (i mod 512) < 512" by (simp only: of_nat_less_numeral_iff)
        then show ?thesis using \<open>ilength ?d \<le> int i\<close> unfolding chunk_of_def inode_length_def sdiv_nat Let_def by auto
      qed
      ultimately show ?thesis using i reads_refl [OF less.prems(1)] less.prems(2)
        by (subst inode_read_loop.simps) (simp add: byte_to_sector_def)
    qed
  next
    case False
    then have i: "i < ?len" "0 < n" by auto
    define c where "c = chunk_nat ?len n i"
    note cb = chunk_bounds [OF i, folded c_def]
    let ?a = "block_ptr ?V ?d (i div 512)"
    obtain t where t: "byte_to_sector ip (int i) s = Some (?a, t)" "reads s t"
      using byte_to_sector_ok [OF less.prems(1,3) i(1)] by blast
    note rt = reads_fields [OF t(2)]
    have a: "?a < dev_size s" using inode_okD(5) [OF less.prems(3)] pos_block [OF i(1)] by (auto simp: data_sectors_def)
    obtain u where u: "cache_read_at ?a (int (i mod 512)) (int c) t = Some (take c (drop (i mod 512) (?V ?a)), u)" "reads t u"
      using cache_read_at_reads [OF rt(1), of ?a c "i mod 512"] a cb rt(2,3) by auto
    note su = reads_trans [OF t(2) u(2)]
    note ru = reads_fields [OF su]
    have ch: "take c (drop (i mod 512) (?V ?a)) = take c (drop i (content ?V ?d))"
      using length_cache_view [OF less.prems(1) a] cb i by (intro content_chunk) auto
    obtain v where v: "inode_read_loop p (int (n - c)) (int (i + c)) (out @ take c (drop i (content ?V ?d))) u =
        Some ((out @ take c (drop i (content ?V ?d))) @ take (n - c) (drop (i + c) (content ?V ?d)), v)" "reads u v"
      using less.IH [of "n - c" u "i + c" "out @ take c (drop i (content ?V ?d))"] cb i(2) ru less.prems by auto
    have "inode_read_loop p (int n) (int i) out s = inode_read_loop p (int (n - c)) (int (i + c)) (out @ take c (drop i (content ?V ?d))) u"
      using i less.prems(2) t(1) u(1) cb(1,2) ch
      by (subst inode_read_loop.simps) (simp add: chunk_of_nat [OF i(1)] c_def [symmetric] of_nat_diff Let_def)
    moreover have "take n xs = take c xs @ take (n - c) (drop c xs)" for xs :: "byte list"
      using cb(2) by (metis le_add_diff_inverse take_add)
    ultimately show ?thesis using v reads_trans [OF su v(2)] by (simp add: add.commute)
  qed
qed

section \<open>Overwriting\<close>

text \<open>Where the blocks are depends only on the sectors that hold pointers.\<close>

lemma block_ptr_cong:
  assumes "\<And>a. a \<in> meta_sectors V d n \<Longrightarrow> V' a = V a" "j < n"
  shows "block_ptr V' d j = block_ptr V d j"
proof -
  consider "j < 12" | "12 \<le> j" "j < 140" | "140 \<le> j" by linarith
  then show ?thesis
  proof cases
    case 2
    then have "V' (indirect d) = V (indirect d)" using assms by (simp add: meta_sectors_def)
    with 2 show ?thesis by (simp add: block_ptr_def)
  next
    case 3
    let ?k = "(j - 140) div 128"
    have "140 + 128 * ?k < n" using 3 assms(2) by auto
    then have "V' (doubly_indirect d) = V (doubly_indirect d)"
      "V' (ptr_at (V (doubly_indirect d)) ?k) = V (ptr_at (V (doubly_indirect d)) ?k)"
      using assms(1) 3 assms(2) by (auto simp: meta_sectors_def)
    with 3 show ?thesis by (simp add: block_ptr_def)
  qed (simp add: block_ptr_def)
qed

lemma meta_sectors_cong:
  assumes "\<And>a. a \<in> meta_sectors V d n \<Longrightarrow> V' a = V a"
  shows "meta_sectors V' d n = meta_sectors V d n"
proof (cases "n > 140")
  case True
  then have "V' (doubly_indirect d) = V (doubly_indirect d)" using assms by (simp add: meta_sectors_def)
  then show ?thesis by (simp add: meta_sectors_def)
qed (simp add: meta_sectors_def)

lemma layout_cong:
  assumes "\<And>a. a \<in> meta_sectors V d n \<Longrightarrow> V' a = V a"
  shows "meta_sectors V' d n = meta_sectors V d n" "data_sectors V' d n = data_sectors V d n" "layout_ok V' N d n = layout_ok V N d n"
proof -
  show m: "meta_sectors V' d n = meta_sectors V d n" using assms by (rule meta_sectors_cong)
  have b: "block_ptr V' d j = block_ptr V d j" if "j \<in> {..<n}" for j using block_ptr_cong [OF assms] that by simp
  then show ds: "data_sectors V' d n = data_sectors V d n" unfolding data_sectors_def by (rule image_cong [OF refl])
  show "layout_ok V' N d n = layout_ok V N d n" unfolding layout_ok_def m ds using inj_on_cong [of "{..<n}", OF b] by simp
qed

lemma overwrite_block:
  assumes ok: "inode_ok V N d" and i: "i < nat (ilength d)" and x: "i mod 512 + length x \<le> 512" "i + length x \<le> nat (ilength d)"
    and len: "length (V (block_ptr V d (i div 512))) = 512"
    and V': "V' = V(block_ptr V d (i div 512) := patch (i mod 512) x (V (block_ptr V d (i div 512))))"
  shows "inode_ok V' N d" "data_sectors V' d (n_blocks d) = data_sectors V d (n_blocks d)" "meta_sectors V' d (n_blocks d) = meta_sectors V d (n_blocks d)"
    "content V' d = patch i x (content V d)"
proof -
  let ?k = "i div 512" and ?a = "block_ptr V d (i div 512)"
  note okD = inode_okD [OF ok]
  have k: "?k < n_blocks d" using i by (rule pos_block)
  then have "?a \<in> data_sectors V d (n_blocks d)" by (simp add: data_sectors_def)
  then have meta: "V' b = V b" if "b \<in> meta_sectors V d (n_blocks d)" for b using that okD(7) V' by auto
  show "inode_ok V' N d" "data_sectors V' d (n_blocks d) = data_sectors V d (n_blocks d)" "meta_sectors V' d (n_blocks d) = meta_sectors V d (n_blocks d)"
    using layout_cong [OF meta] ok by (auto simp: inode_ok_def)
  show "content V' d = patch i x (content V d)"
  proof (rule nth_equalityI)
    show "length (content V' d) = length (patch i x (content V d))" using x by simp
    fix j assume "j < length (content V' d)"
    then have j: "j < nat (ilength d)" by simp
    then have kj: "j div 512 < n_blocks d" by (rule pos_block)
    have bj: "block_ptr V' d (j div 512) = block_ptr V d (j div 512)" using block_ptr_cong [OF meta kj] .
    show "content V' d ! j = patch i x (content V d) ! j"
    proof (cases "j div 512 = ?k")
      case True
      have "j = 512 * (j div 512) + j mod 512" by simp
      then have e: "j = 512 * ?k + j mod 512" "i = 512 * ?k + i mod 512" unfolding True by simp_all
      have "patch (i mod 512) x (V ?a) ! (j mod 512) =
          (if i mod 512 \<le> j mod 512 \<and> j mod 512 < i mod 512 + length x then x ! (j mod 512 - i mod 512) else V ?a ! (j mod 512))"
        using x(1) len by (subst nth_patch) simp_all
      moreover have "(i mod 512 \<le> j mod 512 \<and> j mod 512 < i mod 512 + length x) = (i \<le> j \<and> j < i + length x)" "j mod 512 - i mod 512 = j - i"
        using e by linarith+
      ultimately show ?thesis using j x(2) True bj by (simp add: content_def V' nth_patch)
    next
      case False
      then have "block_ptr V d (j div 512) \<noteq> ?a" using okD(6) k kj by (auto simp: inj_on_def)
      moreover have "\<not> (i \<le> j \<and> j < i + length x)"
      proof
        assume "i \<le> j \<and> j < i + length x"
        then have "(i + (j - i)) div 512 = ?k" using chunk_same_block [of "j - i" "length x" i] x(1) by auto
        then show False using False \<open>i \<le> j \<and> j < i + length x\<close> by simp
      qed
      ultimately show ?thesis using j x(2) bj by (auto simp: content_def V' nth_patch)
    qed
  qed
qed

text \<open>The effect of a write: the data blocks of the file, and nothing else.\<close>

definition writes :: "inode_disk \<Rightarrow> 'a cache_scheme \<Rightarrow> 'a cache_scheme \<Rightarrow> bool" where
  "writes d s t \<longleftrightarrow> cache_inv t \<and> cache_frame s t \<and> (\<forall>a. a \<notin> data_sectors (cache_view s) d (n_blocks d) \<longrightarrow> cache_view t a = cache_view s a)"

lemma inode_write_loop_ok:
  assumes "cache_inv s" "inodes s p = Some ip" "inode_ok (cache_view s) (dev_size s) (idata ip)"
    and "i + n \<le> nat (ilength (idata ip))" "w + n \<le> length buf"
  shows "\<exists>t. inode_write_loop False p buf (int n) (int i) (int w) s = Some (int (w + n), t) \<and> writes (idata ip) s t \<and>
    inode_ok (cache_view t) (dev_size s) (idata ip) \<and> data_sectors (cache_view t) (idata ip) (n_blocks (idata ip)) = data_sectors (cache_view s) (idata ip) (n_blocks (idata ip)) \<and>
    content (cache_view t) (idata ip) = patch i (take n (drop w buf)) (content (cache_view s) (idata ip))"
  using assms
proof (induction n arbitrary: i w s rule: less_induct)
  case (less n)
  let ?d = "idata ip" and ?V = "cache_view s"
  let ?len = "nat (ilength ?d)"
  show ?case
  proof (cases "n = 0")
    case True
    then show ?thesis using less.prems by (subst inode_write_loop.simps) (simp add: writes_def)
  next
    case False
    then have i: "i < ?len" "0 < n" using less.prems(4) by auto
    define c where "c = chunk_nat ?len n i"
    note cb = chunk_bounds [OF i, folded c_def]
    let ?a = "block_ptr ?V ?d (i div 512)" and ?x = "take c (drop w buf)"
    obtain t where t: "byte_to_sector ip (int i) s = Some (?a, t)" "reads s t"
      using byte_to_sector_ok [OF less.prems(1,3) i(1)] by blast
    note rt = reads_fields [OF t(2)]
    have ad: "?a \<in> data_sectors ?V ?d (n_blocks ?d)" using pos_block [OF i(1)] by (auto simp: data_sectors_def)
    have a: "?a < dev_size s" using inode_okD(5) [OF less.prems(3) ad] .
    have lx: "length ?x = c" using less.prems(5) cb(2) by simp
    obtain u where u: "cache_write ?a ?x (int (i mod 512)) (int c) t = Some u" "cache_inv u"
      "cache_view u = ?V(?a := patch (i mod 512) ?x (?V ?a))" "cache_frame t u"
      using cache_write_ok [OF rt(1), of ?a "int (i mod 512)" "int c" ?x] a cb rt(2,3) lx by auto
    have su: "cache_frame s u" using t(2) u(4) cache_frame_trans by (auto simp: reads_def)
    have fu: "inodes u = inodes s" "dev_size u = dev_size s" using su fs_fields(1) [of u s] by (auto simp: cache_frame_def)
    note ow = overwrite_block [OF less.prems(3) i(1), of ?x "cache_view u"]
    have ow: "inode_ok (cache_view u) (dev_size s) ?d" "data_sectors (cache_view u) ?d (n_blocks ?d) = data_sectors ?V ?d (n_blocks ?d)"
      "content (cache_view u) ?d = patch i ?x (content ?V ?d)"
      using ow length_cache_view [OF less.prems(1) a] lx cb u(3) by auto
    obtain v where v: "inode_write_loop False p buf (int (n - c)) (int (i + c)) (int (w + c)) u = Some (int (w + c + (n - c)), v)"
      "writes ?d u v" "inode_ok (cache_view v) (dev_size u) ?d" "data_sectors (cache_view v) ?d (n_blocks ?d) = data_sectors (cache_view u) ?d (n_blocks ?d)"
      "content (cache_view v) ?d = patch (i + c) (take (n - c) (drop (w + c) buf)) (content (cache_view u) ?d)"
      using less.IH [of "n - c" u "i + c" "w + c"] cb i(2) fu ow u(2) less.prems by auto
    have "nat (int w + int c) \<le> length buf" using less.prems(5) cb(2) by simp
    then have "inode_write_loop False p buf (int n) (int i) (int w) s =
        inode_write_loop False p buf (int (n - c)) (int (i + c)) (int (w + c)) u"
      using i less.prems(2,5) t(1) u(1) cb(1,2)
      by (subst inode_write_loop.simps) (simp add: chunk_of_nat [OF i(1)] c_def [symmetric] of_nat_diff Let_def)
    moreover have "patch (i + c) (take (n - c) (drop (w + c) buf)) (patch i ?x (content ?V ?d)) = patch i (take n (drop w buf)) (content ?V ?d)"
    proof -
      have "take n (drop w buf) = ?x @ take (n - c) (drop (w + c) buf)"
        using cb(2) by (metis le_add_diff_inverse take_add drop_drop add.commute)
      then show ?thesis using patch_append [of i ?x "take (n - c) (drop (w + c) buf)" "content ?V ?d"] lx less.prems(4,5) cb(2) by simp
    qed
    moreover have "writes ?d s v"
      using v(2) su ow(2) u(3) ad cache_frame_trans unfolding writes_def by auto
    ultimately show ?thesis using v ow fu cb(2) by simp
  qed
qed

section \<open>The operations\<close>

lemma inode_read_at_ok:
  assumes "cache_inv s" "inodes s p = Some ip" "inode_ok (cache_view s) (dev_size s) (idata ip)"
  shows "\<exists>t. inode_read_at p (int n) (int i) s = Some (take n (drop i (content (cache_view s) (idata ip))), t) \<and> reads s t"
  using inode_read_loop_ok [OF assms, of n i "[]"] by (simp add: inode_read_at_def)

lemma off_small: "0 \<le> x \<Longrightarrow> x < 2 ^ 31 \<Longrightarrow> off x = x"
  by (simp add: off_def signed_take_bit_int_eq_self)

text \<open>A write inside the file that is not logged; the nesting does not matter because nothing is allocated.\<close>

lemma inode_overwrite_ok:
  assumes "cache_inv s" "inodes s p = Some ip" "inode_ok (cache_view s) (dev_size s) (idata ip)"
    and "i + length buf \<le> nat (ilength (idata ip))" "ilength (idata ip) < 2 ^ 31"
    and "deny_write_cnt ip = 0" "current_txn s = None \<or> skip_wal ip"
  shows "\<exists>t. inode_write_at (Suc d) p buf (int (length buf)) (int i) s = Some (int (length buf), t) \<and> writes (idata ip) s t \<and>
    inode_ok (cache_view t) (dev_size s) (idata ip) \<and> data_sectors (cache_view t) (idata ip) (n_blocks (idata ip)) = data_sectors (cache_view s) (idata ip) (n_blocks (idata ip)) \<and>
    content (cache_view t) (idata ip) = patch i buf (content (cache_view s) (idata ip))"
proof -
  have "0 \<le> ilength (idata ip)" using inode_okD(2) [OF assms(3)] .
  have "off (int i + int (length buf)) = int (i + length buf)" using assms(4,5) by (subst off_small) auto
  then have "\<not> off (int i + int (length buf)) > ilength (idata ip)" using assms(4,5) \<open>0 \<le> ilength (idata ip)\<close> by auto
  then have "inode_write_at (Suc d) p buf (int (length buf)) (int i) s = inode_write_loop False p buf (int (length buf)) (int i) 0 s"
    using assms(2,6,7) by (auto simp: inode_write_with_def wal_get_current_txn_def)
  then show ?thesis using inode_write_loop_ok [OF assms(1-3), of i "length buf" 0 buf] assms(4) by simp
qed

section \<open>The inode on disk\<close>

lemma nth_concat_blocks: "(\<And>x. x \<in> set xs \<Longrightarrow> length (f x) = 4) \<Longrightarrow> i < length xs \<Longrightarrow>
    take 4 (drop (4 * i) (concat (map f xs) @ ys)) = f (xs ! i)"
proof (induction xs arbitrary: i)
  case (Cons x xs)
  then show ?case by (cases i) simp_all
qed simp

lemma length_ptrs_bytes [simp]: "length (ptrs_bytes ps) = 4 * length ps"
  by (simp add: ptrs_bytes_def length_concat o_def sum_list_triv)

lemma ptr_at_ptrs_bytes: "i < length ps \<Longrightarrow> ptr_at (ptrs_bytes ps @ ys) i = ps ! i"
  unfolding ptr_at_def ptrs_bytes_def by (subst nth_concat_blocks) (simp_all add: le_word_le_bytes)

lemma ptr_at_append: "ptr_at (ptrs_bytes ps @ ys) (length ps + i) = ptr_at ys i"
  by (simp add: ptr_at_def)

lemma inode_bytes_words:
  "inode_bytes d = ptrs_bytes (direct d @ [indirect d, doubly_indirect d, word_of_int (ilength d), itype d, nlink d, imagic d] @ unused d)"
  by (simp add: inode_bytes_def ptrs_bytes_def)

definition inode_wf :: "inode_disk \<Rightarrow> bool" where
  "inode_wf d \<longleftrightarrow> length (direct d) = 12 \<and> length (unused d) = 110 \<and> - (2 ^ 31) \<le> ilength d \<and> ilength d < 2 ^ 31"

lemma inode_bytes_round_trip:
  assumes "inode_wf d"
  shows "length (inode_bytes d) = 512 \<and> bytes_inode (inode_bytes d) = d"
proof -
  let ?ws = "direct d @ [indirect d, doubly_indirect d, word_of_int (ilength d), itype d, nlink d, imagic d] @ unused d"
  have wf: "length (direct d) = 12" "length (unused d) = 110" using assms by (simp_all add: inode_wf_def)
  have len: "length ?ws = 128" using wf by simp
  have at: "ptr_at (inode_bytes d) i = ?ws ! i" if "i < 128" for i
    using ptr_at_ptrs_bytes [of i ?ws "[]"] that len unfolding inode_bytes_words by simp
  have "sint (word_of_int (ilength d) :: u32) = ilength d"
    using assms by (simp add: inode_wf_def signed_of_int signed_take_bit_int_eq_self)
  moreover have "map (ptr_at (inode_bytes d)) [0..<12] = direct d"
    using wf by (intro nth_equalityI) (simp_all add: at nth_append del: upt_rec_numeral)
  moreover have "map (ptr_at (inode_bytes d)) [18..<128] = unused d"
  proof (rule nth_equalityI)
    have tail: "?ws ! (18 + i) = unused d ! i" for i
      using wf(1) nth_append_length_plus [of "direct d @ [indirect d, doubly_indirect d, word_of_int (ilength d), itype d, nlink d, imagic d]"
          "unused d" i] by simp
    fix i assume "i < length (map (ptr_at (inode_bytes d)) [18..<128])"
    then have "i < 110" by (simp del: upt_rec_numeral)
    then show "map (ptr_at (inode_bytes d)) [18..<128] ! i = unused d ! i"
      using at [of "18 + i"] tail [of i] by (simp del: upt_rec_numeral)
  qed (simp add: wf del: upt_rec_numeral)
  ultimately have "bytes_inode (inode_bytes d) = d"
    using wf by (simp add: bytes_inode_def at nth_append del: upt_rec_numeral)
  then show ?thesis using len by (simp add: inode_bytes_words)
qed



end
