(* ===== verification/File.thy ===== *)
theory File
  imports Inode
begin

text \<open>
  Open files (\<^verbatim>\<open>filesys/file.c\<close>) and the operations of \<^verbatim>\<open>filesys/free-map.c\<close> that go through the free
  map file: formatting, opening and closing it. An open file is a position in an inode with a reference
  count shared between the descriptors of a parent and its children.
\<close>

section \<open>Open files\<close>

definition put_file :: "nat \<Rightarrow> open_file \<Rightarrow> 'a fs_scheme \<Rightarrow> 'a fs_scheme" where
  "put_file f fl s = s\<lparr>files := (files s)(f \<mapsto> fl)\<rparr>"

definition file_open :: "nat \<Rightarrow> nat option \<Rightarrow> 'a fs_scheme \<Rightarrow> (nat option \<times> 'a fs_scheme) option" where
  "file_open d p s = (let (ok, s) = malloc s in
     case p of
       Some q \<Rightarrow>
         if ok then let (f, s) = alloc_ptr s
           in Some (Some f, put_file f \<lparr>file_inode = q, pos = 0, deny_write = False, ref_count = 1\<rparr> s)
         else do { s \<leftarrow> inode_close d p s; Some (None, s) }
     | None \<Rightarrow> do { s \<leftarrow> inode_close d p s; Some (None, s) })"

definition file_reopen :: "nat \<Rightarrow> nat option \<Rightarrow> 'a fs_scheme \<Rightarrow> (nat option \<times> 'a fs_scheme) option" where
  "file_reopen d f s = (case f of
     None \<Rightarrow> Some (None, s)
   | Some g \<Rightarrow> do {
       fl \<leftarrow> files s g;
       (p, s) \<leftarrow> inode_reopen (Some (file_inode fl)) s;
       file_open d p s
     })"

definition file_dup :: "nat option \<Rightarrow> 'a fs_scheme \<Rightarrow> (nat option \<times> 'a fs_scheme) option" where
  "file_dup f s = (case f of
     None \<Rightarrow> Some (None, s)
   | Some g \<Rightarrow> do { fl \<leftarrow> files s g; Some (f, put_file g (fl\<lparr>ref_count := ref_count fl + 1\<rparr>) s) })"

definition file_deny_write :: "nat \<Rightarrow> 'a fs_scheme \<Rightarrow> 'a fs_scheme option" where
  "file_deny_write f s = do {
     fl \<leftarrow> files s f;
     if \<not> deny_write fl then inode_deny_write (file_inode fl) (put_file f (fl\<lparr>deny_write := True\<rparr>) s) else Some s
   }"

definition file_allow_write :: "nat \<Rightarrow> 'a fs_scheme \<Rightarrow> 'a fs_scheme option" where
  "file_allow_write f s = do {
     fl \<leftarrow> files s f;
     if deny_write fl then inode_allow_write (file_inode fl) (put_file f (fl\<lparr>deny_write := False\<rparr>) s) else Some s
   }"

definition file_close :: "nat \<Rightarrow> nat option \<Rightarrow> 'a fs_scheme \<Rightarrow> 'a fs_scheme option" where
  "file_close d f s = (case f of
     None \<Rightarrow> Some s
   | Some g \<Rightarrow> do {
       fl \<leftarrow> files s g;
       let fl = fl\<lparr>ref_count := ref_count fl - 1\<rparr>;
       let s = put_file g fl s;
       if ref_count fl = 0
       then do {
         s \<leftarrow> file_allow_write g s;
         s \<leftarrow> inode_close d (Some (file_inode fl)) s;
         Some (s\<lparr>files := (files s)(g := None)\<rparr>)
       }
       else Some s
     })"

definition file_get_inode :: "nat \<Rightarrow> 'a fs_scheme \<Rightarrow> nat option" where
  "file_get_inode f s = map_option file_inode (files s f)"

text \<open>Reads and writes at the position move it by the number of bytes transferred.\<close>

definition file_read :: "nat \<Rightarrow> off_t \<Rightarrow> 'a fs_scheme \<Rightarrow> (byte list \<times> 'a fs_scheme) option" where
  "file_read f n s = do {
     fl \<leftarrow> files s f;
     (d, s) \<leftarrow> inode_read_at (file_inode fl) n (pos fl) s;
     fl \<leftarrow> files s f;
     Some (d, put_file f (fl\<lparr>pos := off (pos fl + int (length d))\<rparr>) s)
   }"

definition file_read_at :: "nat \<Rightarrow> off_t \<Rightarrow> off_t \<Rightarrow> 'a fs_scheme \<Rightarrow> (byte list \<times> 'a fs_scheme) option" where
  "file_read_at f n ofs s = do { fl \<leftarrow> files s f; inode_read_at (file_inode fl) n ofs s }"

definition file_write :: "nat \<Rightarrow> nat \<Rightarrow> byte list \<Rightarrow> off_t \<Rightarrow> 'a fs_scheme \<Rightarrow> (int \<times> 'a fs_scheme) option" where
  "file_write d f buffer n s = do {
     fl \<leftarrow> files s f;
     (w, s) \<leftarrow> inode_write_at d (file_inode fl) buffer n (pos fl) s;
     fl \<leftarrow> files s f;
     Some (w, put_file f (fl\<lparr>pos := off (pos fl + w)\<rparr>) s)
   }"

definition file_write_at :: "nat \<Rightarrow> nat \<Rightarrow> byte list \<Rightarrow> off_t \<Rightarrow> off_t \<Rightarrow> 'a fs_scheme \<Rightarrow> (int \<times> 'a fs_scheme) option" where
  "file_write_at d f buffer n ofs s = do { fl \<leftarrow> files s f; inode_write_at d (file_inode fl) buffer n ofs s }"

definition file_length :: "nat \<Rightarrow> 'a fs_scheme \<Rightarrow> off_t option" where
  "file_length f s = do { fl \<leftarrow> files s f; ip \<leftarrow> inodes s (file_inode fl); Some (inode_length ip) }"

definition file_seek :: "nat \<Rightarrow> off_t \<Rightarrow> 'a fs_scheme \<Rightarrow> 'a fs_scheme option" where
  "file_seek f new_pos s = do {
     fl \<leftarrow> files s f;
     ASSERT (new_pos \<ge> 0);
     Some (put_file f (fl\<lparr>pos := new_pos\<rparr>) s)
   }"

definition file_tell :: "nat \<Rightarrow> 'a fs_scheme \<Rightarrow> off_t option" where
  "file_tell f s = map_option pos (files s f)"

section \<open>The free map file\<close>

fun mark_sectors :: "nat list \<Rightarrow> bitmap \<Rightarrow> bitmap option" where
  "mark_sectors [] b = Some b"
| "mark_sectors (i # js) b = do { b \<leftarrow> bitmap_mark b i; mark_sectors js b }"

text \<open>\<open>junk\<close> is what the allocated memory held, as in \<^verbatim>\<open>bitmap_create\<close>.\<close>

definition free_map_init :: "u32 list \<Rightarrow> 'a fs_scheme \<Rightarrow> 'a fs_scheme option" where
  "free_map_init junk s = do {
     (b, s) \<leftarrow> bitmap_create (unat (dev_size s)) junk s;
     b \<leftarrow> b;
     b \<leftarrow> bitmap_mark b (unat FREE_MAP_SECTOR);
     b \<leftarrow> bitmap_mark b (unat ROOT_DIR_SECTOR);
     b \<leftarrow> mark_sectors [unat WAL_LOG_START_SECTOR..<unat WAL_METADATA_SECTOR + 1] b;
     Some (s\<lparr>free_map := b\<rparr>)
   }"

text \<open>Opening the map file marks its inode so that writes to it are not logged; failures panic.\<close>

definition open_map_file :: "nat \<Rightarrow> 'a fs_scheme \<Rightarrow> 'a fs_scheme option" where
  "open_map_file d s = do {
     (p, s) \<leftarrow> inode_open FREE_MAP_SECTOR s;
     (f, s) \<leftarrow> file_open d p s;
     let s = s\<lparr>free_map_file := f\<rparr>;
     f \<leftarrow> f;
     p \<leftarrow> file_get_inode f s;
     inode_set_skip_wal p True s
   }"

definition free_map_open :: "nat \<Rightarrow> 'a fs_scheme \<Rightarrow> 'a fs_scheme option" where
  "free_map_open d s = do {
     s \<leftarrow> open_map_file d s;
     (ok, b, s) \<leftarrow> bitmap_read (free_map s) (free_map_file s) s;
     ASSERT ok;
     Some (s\<lparr>free_map := b\<rparr>)
   }"

definition free_map_close :: "nat \<Rightarrow> 'a fs_scheme \<Rightarrow> 'a fs_scheme option" where
  "free_map_close d s = file_close d (free_map_file s) s"

definition free_map_create :: "nat \<Rightarrow> 'a fs_scheme \<Rightarrow> 'a fs_scheme option" where
  "free_map_create d s = do {
     (ok, s) \<leftarrow> inode_create d FREE_MAP_SECTOR (int (bitmap_file_size (free_map s))) s;
     ASSERT ok;
     s \<leftarrow> open_map_file d s;
     (ok, s) \<leftarrow> bitmap_write d (free_map s) (free_map_file s) s;
     ASSERT ok;
     Some s
   }"

end
