(* ===== verification/Directory.thy ===== *)
theory Directory
  imports File
begin

text \<open>
  Directories (\<^verbatim>\<open>filesys/directory.c\<close>): files of 20-byte entries, each a sector, a name of at most 14
  characters and a flag. Names are byte lists without the terminating null. Looking up, adding,
  removing and listing run over the entries of the file with the operations of \<^verbatim>\<open>Inode\<close>.
\<close>

section \<open>Entries\<close>

definition NAME_MAX :: nat where "NAME_MAX = 14"

record dir =
  dir_inode :: nat
  dir_pos :: off_t

text \<open>\<open>name\<close> is the whole character array, the unused bytes after the terminator included.\<close>

record dir_entry =
  inode_sector :: block_sector_t
  name :: "byte list"
  in_use :: bool

definition ENTRY_SIZE :: nat where "ENTRY_SIZE = 20"

definition entry_bytes :: "dir_entry \<Rightarrow> byte list" where
  "entry_bytes e = le_bytes 4 (inode_sector e) @ name e @ [if in_use e then 1 else 0]"

definition bytes_entry :: "byte list \<Rightarrow> dir_entry" where
  "bytes_entry b = \<lparr>inode_sector = le_word (take 4 b), name = take 15 (drop 4 b), in_use = (b ! 19 \<noteq> 0)\<rparr>"

text \<open>The string in a name array, and what \<^verbatim>\<open>strlcpy\<close> leaves in an array that held \<open>old\<close>.\<close>

definition name_str :: "byte list \<Rightarrow> byte list" where
  "name_str a = takeWhile (\<lambda>c. c \<noteq> 0) a"

definition strlcpy_name :: "byte list \<Rightarrow> byte list \<Rightarrow> byte list" where
  "strlcpy_name nm old = patch 0 (take NAME_MAX nm @ [0]) old"

section \<open>Operations\<close>

definition dir_create :: "nat \<Rightarrow> block_sector_t \<Rightarrow> nat \<Rightarrow> 'a fs_scheme \<Rightarrow> (bool \<times> 'a fs_scheme) option" where
  "dir_create d sector entry_cnt s = inode_create_dir d sector (int (entry_cnt * ENTRY_SIZE)) s"

definition dir_open :: "nat \<Rightarrow> nat option \<Rightarrow> 'a fs_scheme \<Rightarrow> (dir option \<times> 'a fs_scheme) option" where
  "dir_open d p s = (let (ok, s) = malloc s in
     case p of
       Some q \<Rightarrow> if ok then Some (Some \<lparr>dir_inode = q, dir_pos = 0\<rparr>, s)
         else do { s \<leftarrow> inode_close d p s; Some (None, s) }
     | None \<Rightarrow> do { s \<leftarrow> inode_close d p s; Some (None, s) })"

definition dir_open_root :: "nat \<Rightarrow> 'a fs_scheme \<Rightarrow> (dir option \<times> 'a fs_scheme) option" where
  "dir_open_root d s = do { (p, s) \<leftarrow> inode_open ROOT_DIR_SECTOR s; dir_open d p s }"

definition dir_reopen :: "nat \<Rightarrow> dir option \<Rightarrow> 'a fs_scheme \<Rightarrow> (dir option \<times> 'a fs_scheme) option" where
  "dir_reopen d dr s = (case dr of
     None \<Rightarrow> Some (None, s)
   | Some dr \<Rightarrow> do { (p, s) \<leftarrow> inode_reopen (Some (dir_inode dr)) s; dir_open d p s })"

definition dir_close :: "nat \<Rightarrow> dir option \<Rightarrow> 'a fs_scheme \<Rightarrow> 'a fs_scheme option" where
  "dir_close d dr s = (case dr of None \<Rightarrow> Some s | Some dr \<Rightarrow> inode_close d (Some (dir_inode dr)) s)"

definition dir_get_inode :: "dir \<Rightarrow> nat" where
  "dir_get_inode dr = dir_inode dr"

definition dir_get_pos :: "dir \<Rightarrow> off_t" where
  "dir_get_pos dr = dir_pos dr"

definition dir_set_pos :: "dir \<Rightarrow> off_t \<Rightarrow> dir" where
  "dir_set_pos dr p = dr\<lparr>dir_pos := p\<rparr>"

text \<open>
  The loops over the entries of a directory end with a short read. They may not end in a directory
  without end, which is the value \<open>None\<close>.
\<close>

partial_function (option) lookup_from ::
  "nat \<Rightarrow> byte list \<Rightarrow> off_t \<Rightarrow> 'a fs_scheme \<Rightarrow> ((dir_entry \<times> off_t) option \<times> 'a fs_scheme) option" where
  "lookup_from p nm ofs s = do {
     (b, s) \<leftarrow> inode_read_at p (int ENTRY_SIZE) ofs s;
     if length b = ENTRY_SIZE
     then let e = bytes_entry b
       in if in_use e \<and> nm = name_str (name e) then Some (Some (e, ofs), s) else lookup_from p nm (ofs + int ENTRY_SIZE) s
     else Some (None, s)
   }"

definition lookup :: "dir \<Rightarrow> byte list \<Rightarrow> 'a fs_scheme \<Rightarrow> ((dir_entry \<times> off_t) option \<times> 'a fs_scheme) option" where
  "lookup dr nm s = lookup_from (dir_inode dr) nm 0 s"

definition dir_lookup :: "dir \<Rightarrow> byte list \<Rightarrow> 'a fs_scheme \<Rightarrow> (nat option \<times> 'a fs_scheme) option" where
  "dir_lookup dr nm s = do {
     (r, s) \<leftarrow> lookup dr nm s;
     case r of Some (e, _) \<Rightarrow> inode_open (inode_sector e) s | None \<Rightarrow> Some (None, s)
   }"

text \<open>The search for a free slot: its offset, and what the entry variable holds when the loop ends.\<close>

partial_function (option) free_slot ::
  "nat \<Rightarrow> byte list \<Rightarrow> off_t \<Rightarrow> 'a fs_scheme \<Rightarrow> (byte list \<times> off_t \<times> 'a fs_scheme) option" where
  "free_slot p var ofs s = do {
     (b, s) \<leftarrow> inode_read_at p (int ENTRY_SIZE) ofs s;
     let var = patch 0 b var;
     if length b = ENTRY_SIZE \<and> in_use (bytes_entry var) then free_slot p var (ofs + int ENTRY_SIZE) s
     else Some (var, ofs, s)
   }"

text \<open>\<open>junk\<close> is what the uninitialised entry variable holds on the stack.\<close>

definition dir_add :: "nat \<Rightarrow> byte list \<Rightarrow> dir \<Rightarrow> byte list \<Rightarrow> block_sector_t \<Rightarrow> 'a fs_scheme \<Rightarrow> (bool \<times> 'a fs_scheme) option" where
  "dir_add d junk dr nm sector s =
    (if nm = [] \<or> length nm > NAME_MAX then Some (False, s)
     else do {
       (r, s) \<leftarrow> lookup dr nm s;
       case r of
         Some _ \<Rightarrow> Some (False, s)
       | None \<Rightarrow> do {
           (var, ofs, s) \<leftarrow> free_slot (dir_inode dr) junk 0 s;
           let e = (bytes_entry var)\<lparr>in_use := True, name := strlcpy_name nm (name (bytes_entry var)), inode_sector := sector\<rparr>;
           (w, s) \<leftarrow> inode_write_at d (dir_inode dr) (entry_bytes e) (int ENTRY_SIZE) ofs s;
           Some (w = int ENTRY_SIZE, s)
         }
     })"

definition dir_create_with_parent ::
  "nat \<Rightarrow> byte list \<Rightarrow> block_sector_t \<Rightarrow> block_sector_t \<Rightarrow> nat \<Rightarrow> 'a fs_scheme \<Rightarrow> (bool \<times> 'a fs_scheme) option" where
  "dir_create_with_parent d junk sector parent_sector entry_cnt s = do {
     let entry_cnt = (if entry_cnt < 2 then 2 else entry_cnt);
     (ok, s) \<leftarrow> inode_create_dir d sector (int (entry_cnt * ENTRY_SIZE)) s;
     if \<not> ok then Some (False, s)
     else do {
       (p, s) \<leftarrow> inode_open sector s;
       (dr, s) \<leftarrow> dir_open d p s;
       case dr of
         None \<Rightarrow> Some (False, s)
       | Some dr \<Rightarrow> do {
           (ok, s) \<leftarrow> dir_add d junk dr [46] sector s;
           (ok, s) \<leftarrow> (if ok then dir_add d junk dr [46, 46] parent_sector s else Some (False, s));
           s \<leftarrow> dir_close d (Some dr) s;
           Some (ok, s)
         }
     }
   }"

definition dir_remove :: "nat \<Rightarrow> dir \<Rightarrow> byte list \<Rightarrow> 'a fs_scheme \<Rightarrow> (bool \<times> 'a fs_scheme) option" where
  "dir_remove d dr nm s = do {
     (r, s) \<leftarrow> lookup dr nm s;
     case r of
       None \<Rightarrow> Some (False, s)
     | Some (e, ofs) \<Rightarrow> do {
         (p, s) \<leftarrow> inode_open (inode_sector e) s;
         case p of
           None \<Rightarrow> Some (False, s)
         | Some q \<Rightarrow> do {
             (w, s) \<leftarrow> inode_write_at d (dir_inode dr) (entry_bytes (e\<lparr>in_use := False\<rparr>)) (int ENTRY_SIZE) ofs s;
             if w \<noteq> int ENTRY_SIZE then do { s \<leftarrow> inode_close d p s; Some (False, s) }
             else do {
               s \<leftarrow> inode_dec_nlink q s;
               ip \<leftarrow> inodes s q;
               s \<leftarrow> (if inode_get_nlink ip = 0 then inode_remove q s else Some s);
               s \<leftarrow> inode_close d p s;
               Some (True, s)
             }
           }
       }
   }"

partial_function (option) dir_readdir :: "dir \<Rightarrow> 'a fs_scheme \<Rightarrow> (byte list option \<times> dir \<times> 'a fs_scheme) option" where
  "dir_readdir dr s = do {
     (b, s) \<leftarrow> inode_read_at (dir_inode dr) (int ENTRY_SIZE) (dir_pos dr) s;
     if length b = ENTRY_SIZE
     then let dr = dr\<lparr>dir_pos := dir_pos dr + int ENTRY_SIZE\<rparr>; e = bytes_entry b
       in if in_use e then Some (Some (take NAME_MAX (name_str (name e))), dr, s) else dir_readdir dr s
     else Some (None, dr, s)
   }"

partial_function (option) dir_is_empty_from :: "nat \<Rightarrow> off_t \<Rightarrow> 'a fs_scheme \<Rightarrow> (bool \<times> 'a fs_scheme) option" where
  "dir_is_empty_from p ofs s = do {
     (b, s) \<leftarrow> inode_read_at p (int ENTRY_SIZE) ofs s;
     if length b = ENTRY_SIZE
     then let e = bytes_entry b
       in if in_use e \<and> name_str (name e) \<noteq> [46] \<and> name_str (name e) \<noteq> [46, 46] then Some (False, s)
          else dir_is_empty_from p (ofs + int ENTRY_SIZE) s
     else Some (True, s)
   }"

definition dir_is_empty :: "dir \<Rightarrow> 'a fs_scheme \<Rightarrow> (bool \<times> 'a fs_scheme) option" where
  "dir_is_empty dr s = dir_is_empty_from (dir_inode dr) 0 s"

end
