(* ===== verification/Spec2Isabelle.thy ===== *)
theory Spec2Isabelle
  imports Bitmap Wal_Recovery Arithmetic Strings Hash Inode_Content Directory
begin

text \<open>
  A verification development for the Maverick kernel.
\<close>

end
